(* ===== verification/Prelude.thy ===== *)
theory Prelude
  imports Complex_Main "HOL-Library.AList" "HOL-Library.List_Lexorder" "HOL-Library.Char_ord"
begin

text \<open>
  Shared vocabulary of the development: Python exceptions as values, the result type of
  fallible code, insertion-ordered dictionaries as association lists, Python's
  \<open>sort(reverse=True)\<close>, rounding, JSON values, and the interface
  \<open>checkpointed\<close> of the components that persist their state as a JSON snapshot.
\<close>

named_theorems dict_simps \<open>lookup, key and order facts of insertion-ordered dictionaries\<close>
named_theorems res_simps \<open>unfolding of the result type's combinators\<close>

section \<open>Exceptions and results\<close>

datatype py_error =
    ValueError
  | KeyError
  | TypeError
  | AttributeError
  | IndexError
  | ZeroDivisionError
  | FileNotFoundError
  | RuntimeError
  | OverflowError
  | AssertionError
  | OSError
  | ConfigError string

type_synonym 'a res = "py_error + 'a"

fun bindE :: "'a res \<Rightarrow> ('a \<Rightarrow> 'b res) \<Rightarrow> 'b res" where
  "bindE (Inl e) f = Inl e"
| "bindE (Inr x) f = f x"

fun mapE :: "('a \<Rightarrow> 'b res) \<Rightarrow> 'a list \<Rightarrow> 'b list res" where
  "mapE f [] = Inr []"
| "mapE f (x # xs) = bindE (f x) (\<lambda>y. bindE (mapE f xs) (\<lambda>ys. Inr (y # ys)))"

text \<open>\<open>[x for x in xs if f(x)]\<close> with a condition that may raise.\<close>

fun filterE :: "('a \<Rightarrow> bool res) \<Rightarrow> 'a list \<Rightarrow> 'a list res" where
  "filterE f [] = Inr []"
| "filterE f (x # xs) =
     bindE (f x) (\<lambda>b. bindE (filterE f xs) (\<lambda>ys. Inr (if b then x # ys else ys)))"

text \<open>A Python \<open>for\<close> loop whose body may raise.\<close>

fun foldE :: "('a \<Rightarrow> 's \<Rightarrow> 's res) \<Rightarrow> 'a list \<Rightarrow> 's \<Rightarrow> 's res" where
  "foldE f [] s = Inr s"
| "foldE f (x # xs) s = bindE (f x s) (foldE f xs)"

lemma bindE_Inr_iff [res_simps]: "bindE m f = Inr y \<longleftrightarrow> (\<exists>x. m = Inr x \<and> f x = Inr y)"
  by (cases m) auto

lemma bindE_Inl_iff [res_simps]:
  "bindE m f = Inl e \<longleftrightarrow> m = Inl e \<or> (\<exists>x. m = Inr x \<and> f x = Inl e)"
  by (cases m) auto

lemma mapE_all: "(\<And>x. x \<in> set xs \<Longrightarrow> f x = Inr (g x)) \<Longrightarrow> mapE f xs = Inr (map g xs)"
  by (induction xs) auto

lemma filterE_all: "(\<And>x. x \<in> set xs \<Longrightarrow> f x = Inr (P x)) \<Longrightarrow> filterE f xs = Inr (filter P xs)"
  by (induction xs) auto

lemma mapE_map_inverse:
  assumes "\<And>x. x \<in> set xs \<Longrightarrow> f (g x) = Inr x"
  shows "mapE f (map g xs) = Inr xs"
  using assms by (induction xs) auto

lemma foldE_append: "foldE f (xs @ ys) s = bindE (foldE f xs s) (foldE f ys)"
proof (induction xs arbitrary: s)
  case (Cons x xs)
  then show ?case by (cases "f x s") auto
qed simp

lemma foldE_invariant:
  assumes "foldE f xs s = Inr t" and "I s"
    and "\<And>x s s'. x \<in> set xs \<Longrightarrow> I s \<Longrightarrow> f x s = Inr s' \<Longrightarrow> I s'"
  shows "I t"
  using assms
proof (induction xs arbitrary: s)
  case (Cons x xs)
  from Cons(2) obtain s' where s': "f x s = Inr s'" "foldE f xs s' = Inr t"
    by (auto simp: res_simps)
  have "I s'" using Cons(4) [of x s s'] Cons(3) s'(1) by simp
  show ?case
    by (rule Cons(1) [OF s'(2) \<open>I s'\<close>], rule Cons(4)) auto
qed simp

lemma mapE_in: "mapE f xs = Inr ys \<Longrightarrow> y \<in> set ys \<Longrightarrow> \<exists>x \<in> set xs. f x = Inr y"
  by (induction xs arbitrary: ys) (auto simp: res_simps)

lemma mapE_length: "mapE f xs = Inr ys \<Longrightarrow> length ys = length xs"
  by (induction xs arbitrary: ys) (auto simp: res_simps)

lemma foldE_pure: "(\<And>x s. f x s = Inr (g x s)) \<Longrightarrow> foldE f xs s = Inr (fold g xs s)"
  by (induction xs arbitrary: s) auto

section \<open>Dictionaries\<close>

text \<open>
  A Python \<open>dict\<close> keeps its insertion order; assigning to an existing key keeps the
  key's place. That is what \<open>AList.update\<close> does. A dictionary that a program can
  build has distinct keys.
\<close>

type_synonym ('k, 'v) dict = "('k \<times> 'v) list"

abbreviation dget :: "('k, 'v) dict \<Rightarrow> 'k \<Rightarrow> 'v option" where
  "dget d k \<equiv> map_of d k"

abbreviation dset :: "'k \<Rightarrow> 'v \<Rightarrow> ('k, 'v) dict \<Rightarrow> ('k, 'v) dict" where
  "dset k v d \<equiv> AList.update k v d"

abbreviation ddel :: "'k \<Rightarrow> ('k, 'v) dict \<Rightarrow> ('k, 'v) dict" where
  "ddel k d \<equiv> AList.delete k d"

abbreviation dkeys :: "('k, 'v) dict \<Rightarrow> 'k list" where
  "dkeys d \<equiv> map fst d"

abbreviation wf_dict :: "('k, 'v) dict \<Rightarrow> bool" where
  "wf_dict d \<equiv> distinct (map fst d)"

definition dget_or :: "('k, 'v) dict \<Rightarrow> 'k \<Rightarrow> 'v \<Rightarrow> 'v" where
  "dget_or d k v = (case dget d k of None \<Rightarrow> v | Some x \<Rightarrow> x)"

definition dlookup :: "('k, 'v) dict \<Rightarrow> 'k \<Rightarrow> 'v res" where
  "dlookup d k = (case dget d k of None \<Rightarrow> Inl KeyError | Some x \<Rightarrow> Inr x)"

lemma dget_dset [dict_simps, simp]: "dget (dset k v d) k' = (if k = k' then Some v else dget d k')"
  by (simp add: update_conv')

lemma dget_ddel [dict_simps, simp]: "dget (ddel k d) k' = (if k = k' then None else dget d k')"
  by (simp add: delete_conv')

lemma wf_dset [dict_simps, simp]: "wf_dict d \<Longrightarrow> wf_dict (dset k v d)"
  by (rule distinct_update)

lemma wf_ddel [dict_simps, simp]: "wf_dict d \<Longrightarrow> wf_dict (ddel k d)"
  by (rule distinct_delete)

lemma dkeys_dset: "set (dkeys (dset k v d)) = insert k (set (dkeys d))"
  by (simp add: dom_update)

lemma dkeys_dset_list:
  "dkeys (dset k v d) = (if k \<in> set (dkeys d) then dkeys d else dkeys d @ [k])"
  by (induction d) auto

lemma dset_new: "k \<notin> set (dkeys d) \<Longrightarrow> dset k v d = d @ [(k, v)]"
  by (induction d) auto

lemma dkeys_ddel: "dkeys (ddel k d) = filter (\<lambda>x. x \<noteq> k) (dkeys d)"
  by (induction d) (auto simp: AList.delete_eq)

lemma dget_None_iff: "dget d k = None \<longleftrightarrow> k \<notin> set (dkeys d)"
  by (auto simp: map_of_eq_None_iff)

lemma length_dset: "length (dset k v d) = (if k \<in> set (dkeys d) then length d else Suc (length d))"
  by (induction d) auto

lemma ddel_all: "fold ddel ks d = filter (\<lambda>p. fst p \<notin> set ks) d"
  by (induction ks arbitrary: d) (auto simp: AList.delete_eq case_prod_beta intro!: filter_cong)

lemma set_dset_cases: "x \<in> set (dset k v d) \<Longrightarrow> x = (k, v) \<or> x \<in> set d"
  by (induction d) (auto split: if_splits)

lemma dget_filter_key:
  "dget (filter (\<lambda>p. P (fst p)) d) k = (if P k then dget d k else None)"
  by (induction d) auto

text \<open>Evicting the first \<open>n\<close> of the keys in some order leaves the others.\<close>

lemma evict_keys:
  assumes "wf_dict d" and "distinct ks" and "set ks = set (dkeys d)"
    and e_def: "e = fold ddel (take n ks) d"
  shows "wf_dict e" and "set (dkeys e) = set (drop n ks)" and "length e = length d - n"
    and "set e \<subseteq> set d" and "\<And>k. dget e k = (if k \<in> set (take n ks) then None else dget d k)"
proof -
  have e: "e = filter (\<lambda>p. fst p \<notin> set (take n ks)) d" by (simp add: e_def ddel_all)
  have keys: "dkeys e = filter (\<lambda>k. k \<notin> set (take n ks)) (dkeys d)"
    unfolding e by (simp add: filter_map comp_def)
  show wf: "wf_dict e" unfolding keys using assms(1) by simp
  have "distinct (take n ks @ drop n ks)" using assms(2) by simp
  then have "set (take n ks) \<inter> set (drop n ks) = {}" unfolding distinct_append by blast
  moreover have "set (dkeys d) = set (take n ks) \<union> set (drop n ks)"
    by (metis append_take_drop_id assms(3) set_append)
  ultimately show k: "set (dkeys e) = set (drop n ks)" unfolding keys set_filter by blast
  have "length e = card (set (dkeys e))" using distinct_card [OF wf] by simp
  also have "\<dots> = length ks - n" unfolding k using distinct_card [of "drop n ks"] assms(2) by simp
  also have "length ks = length d"
    using distinct_card [OF assms(1)] distinct_card [OF assms(2)] assms(3) by simp
  finally show "length e = length d - n" .
  show "set e \<subseteq> set d" unfolding e by auto
  show "\<And>k. dget e k = (if k \<in> set (take n ks) then None else dget d k)"
    unfolding e by (induction d) auto
qed

text \<open>Summing over the values of a dictionary.\<close>

lemma sum_dset_map:
  fixes f :: "'v \<Rightarrow> 'a::ab_group_add"
  assumes "wf_dict d"
  shows "sum_list (map (\<lambda>p. f (snd p)) (dset k v d))
    = sum_list (map (\<lambda>p. f (snd p)) d) - (case dget d k of None \<Rightarrow> 0 | Some x \<Rightarrow> f x) + f v"
  using assms
proof (induction d)
  case (Cons p d)
  show ?case
  proof (cases "fst p = k")
    case True
    then show ?thesis by (cases p) simp
  next
    case False
    with Cons show ?thesis by (cases p) (simp add: algebra_simps)
  qed
qed simp

lemma sum_dset:
  fixes v :: "'v::ab_group_add"
  assumes "wf_dict d"
  shows "sum_list (map snd (dset k v d)) = sum_list (map snd d) - dget_or d k 0 + v"
  using assms
proof (induction d)
  case (Cons p d)
  show ?case
  proof (cases "fst p = k")
    case True
    then show ?thesis by (cases p) (simp add: dget_or_def)
  next
    case False
    with Cons show ?thesis by (cases p) (simp add: dget_or_def)
  qed
qed (simp add: dget_or_def)

section \<open>Sorting and rounding\<close>

lemma sorted_take_drop:
  "sorted (map f xs) \<Longrightarrow> x \<in> set (take n xs) \<Longrightarrow> y \<in> set (drop n xs) \<Longrightarrow> f x \<le> f y"
proof -
  assume s: "sorted (map f xs)" and x: "x \<in> set (take n xs)" and y: "y \<in> set (drop n xs)"
  from s have "sorted_wrt (\<lambda>x y. f x \<le> f y) (take n xs @ drop n xs)"
    by (simp only: append_take_drop_id sorted_wrt_map)
  with x y show ?thesis unfolding sorted_wrt_append by blast
qed

text \<open>
  \<open>xs.sort(key=f, reverse=True)\<close> is stable: elements with equal keys keep their order.
\<close>

definition sort_desc :: "('a \<Rightarrow> 'b::{linorder, ordered_ab_group_add}) \<Rightarrow> 'a list \<Rightarrow> 'a list" where
  "sort_desc f xs = sort_key (\<lambda>x. - f x) xs"

lemma set_sort_desc [simp]: "set (sort_desc f xs) = set xs"
  by (simp add: sort_desc_def)

lemma length_sort_desc [simp]: "length (sort_desc f xs) = length xs"
  by (simp add: sort_desc_def)

lemma distinct_sort_desc [simp]: "distinct (sort_desc f xs) = distinct xs"
  by (simp add: sort_desc_def)

lemma sorted_sort_desc: "sorted (rev (map f (sort_desc f xs)))"
proof -
  have "sorted_wrt (\<lambda>x y. - f x \<le> - f y) (sort_desc f xs)"
    using sorted_sort_key [of "\<lambda>x. - f x" xs] by (simp add: sort_desc_def sorted_map)
  then have "sorted_wrt (\<lambda>x y. f y \<le> f x) (sort_desc f xs)" by simp
  then have "sorted_wrt (\<lambda>x y. y \<le> x) (map f (sort_desc f xs))" by (simp only: sorted_wrt_map)
  then show ?thesis by (simp only: sorted_wrt_rev)
qed

lemma take_sort_desc_max:
  assumes "x \<in> set (take n (sort_desc f xs))" and "y \<in> set (drop n (sort_desc f xs))"
  shows "f y \<le> f x"
proof -
  have "sorted_wrt (\<lambda>x y. - f x \<le> - f y) (take n (sort_desc f xs) @ drop n (sort_desc f xs))"
    using sorted_sort_key [of "\<lambda>x. - f x" xs] by (simp add: sort_desc_def sorted_map)
  with assms show ?thesis unfolding sorted_wrt_append by auto
qed

text \<open>
  \<open>round(x, n)\<close> rounds to the nearest multiple of \<open>10 ^ - n\<close>, ties to even.
\<close>

definition round_half_even :: "real \<Rightarrow> int" where
  "round_half_even x =
     (let f = \<lfloor>x\<rfloor>; d = x - of_int f
      in if d < 1 / 2 then f
         else if 1 / 2 < d then f + 1
         else if even f then f else f + 1)"

definition py_round :: "real \<Rightarrow> nat \<Rightarrow> real" where
  "py_round x n = of_int (round_half_even (x * 10 ^ n)) / 10 ^ n"

lemma round_half_even_of_int [simp]: "round_half_even (of_int k) = k"
  by (simp add: round_half_even_def)

lemma round_half_even_error: "\<bar>of_int (round_half_even x) - x\<bar> \<le> 1 / 2"
proof -
  have "of_int \<lfloor>x\<rfloor> \<le> x" and "x < of_int \<lfloor>x\<rfloor> + 1" by linarith+
  then show ?thesis by (auto simp: round_half_even_def Let_def abs_le_iff)
qed

lemma py_round_error: "\<bar>py_round x n - x\<bar> \<le> 1 / 2 / 10 ^ n"
proof -
  have "py_round x n - x = (of_int (round_half_even (x * 10 ^ n)) - x * 10 ^ n) / 10 ^ n"
    by (simp add: py_round_def field_simps)
  then show ?thesis
    using divide_right_mono [OF round_half_even_error [of "x * 10 ^ n"], of "10 ^ n"]
    by (simp add: abs_divide power_abs del: divide_divide_eq_left)
qed

lemma round_half_even_bounds: "\<lfloor>x\<rfloor> \<le> round_half_even x \<and> round_half_even x \<le> \<lfloor>x\<rfloor> + 1"
  by (simp add: round_half_even_def Let_def)

lemma round_half_even_mono: "x \<le> y \<Longrightarrow> round_half_even x \<le> round_half_even y"
proof -
  assume le: "x \<le> y"
  show ?thesis
  proof (cases "\<lfloor>x\<rfloor> = \<lfloor>y\<rfloor>")
    case True
    with le show ?thesis by (auto simp: round_half_even_def Let_def)
  next
    case False
    with floor_mono [OF le] have "\<lfloor>x\<rfloor> + 1 \<le> \<lfloor>y\<rfloor>" by linarith
    with round_half_even_bounds [of x] round_half_even_bounds [of y] show ?thesis by linarith
  qed
qed

lemma py_round_mono: "x \<le> y \<Longrightarrow> py_round x n \<le> py_round y n"
  unfolding py_round_def by (intro divide_right_mono) (auto intro: round_half_even_mono mult_right_mono)

lemma py_round_of_int: "py_round (of_int k) n = of_int k"
proof -
  have "of_int k * 10 ^ n = (of_int (k * 10 ^ n) :: real)" by simp
  then show ?thesis unfolding py_round_def by (simp only: round_half_even_of_int) simp
qed

text \<open>\<open>int(x)\<close> of a float truncates toward zero.\<close>

definition py_trunc :: "real \<Rightarrow> int" where
  "py_trunc x = (if 0 \<le> x then \<lfloor>x\<rfloor> else \<lceil>x\<rceil>)"

section \<open>Counters\<close>

text \<open>\<open>collections.Counter\<close>: \<open>c[k] += 1\<close> with a missing key read as 0.\<close>

definition counter_inc :: "'k \<Rightarrow> ('k, int) dict \<Rightarrow> ('k, int) dict" where
  "counter_inc k c = dset k (dget_or c k 0 + 1) c"

lemma counter_inc_all:
  "dget (fold counter_inc ks c) k
   = (if k \<in> set ks then Some (dget_or c k 0 + int (count_list ks k)) else dget c k)"
proof (induction ks arbitrary: c)
  case (Cons x ks)
  have "dget_or (counter_inc x c) k 0 = dget_or c k 0 + (if x = k then 1 else 0)"
    by (simp add: counter_inc_def dget_or_def)
  with Cons show ?case by (auto simp: counter_inc_def count_list_0_iff dget_or_def)
qed simp

lemma counter_of: "dget (fold counter_inc ks []) k = (if k \<in> set ks then Some (int (count_list ks k)) else None)"
  by (simp add: counter_inc_all dget_or_def)

lemma wf_counter [dict_simps, simp]: "wf_dict c \<Longrightarrow> wf_dict (fold counter_inc ks c)"
  by (induction ks arbitrary: c) (simp_all add: counter_inc_def)

lemma counter_total: "wf_dict c \<Longrightarrow> sum_list (map snd (fold counter_inc ks c)) = sum_list (map snd c) + int (length ks)"
  by (induction ks arbitrary: c) (simp_all add: counter_inc_def sum_dset)

lemma count_list_concat: "count_list (concat xss) k = sum_list (map (\<lambda>xs. count_list xs k) xss)"
  by (induction xss) auto

lemma count_list_distinct: "distinct xs \<Longrightarrow> count_list xs k = (if k \<in> set xs then 1 else 0)"
  by (induction xs) auto

text \<open>A dictionary comprehension, and \<open>itertools.combinations(xs, 2)\<close>.\<close>

definition dict_of :: "('k \<times> 'v) list \<Rightarrow> ('k, 'v) dict" where
  "dict_of kvs = fold (\<lambda>(k, v). dset k v) kvs []"

lemma dict_of_append: "distinct (dkeys d @ dkeys kvs) \<Longrightarrow> fold (\<lambda>(k, v). dset k v) kvs d = d @ kvs"
proof (induction kvs arbitrary: d)
  case (Cons x kvs)
  obtain k v where x: "x = (k, v)" by (cases x)
  with Cons.prems have "dset k v d = d @ [(k, v)]" by (intro dset_new) auto
  with Cons x show ?case by simp
qed simp

lemma dict_of_id: "wf_dict kvs \<Longrightarrow> dict_of kvs = kvs"
  by (simp add: dict_of_def dict_of_append)

fun pairs2 :: "'a list \<Rightarrow> ('a \<times> 'a) list" where
  "pairs2 [] = []"
| "pairs2 (x # xs) = map (Pair x) xs @ pairs2 xs"

lemma pairs2_set: "(u, v) \<in> set (pairs2 xs) \<Longrightarrow> u \<in> set xs \<and> v \<in> set xs"
  by (induction xs) auto

lemma pairs2_complete:
  "u \<in> set xs \<Longrightarrow> v \<in> set xs \<Longrightarrow> u \<noteq> v \<Longrightarrow> (u, v) \<in> set (pairs2 xs) \<or> (v, u) \<in> set (pairs2 xs)"
  by (induction xs) auto

lemma pairs2_distinct: "distinct xs \<Longrightarrow> (u, v) \<in> set (pairs2 xs) \<Longrightarrow> u \<noteq> v"
  by (induction xs) auto

lemma pairs2_sorted: "sorted xs \<Longrightarrow> (u, v) \<in> set (pairs2 xs) \<Longrightarrow> u \<le> v"
  by (induction xs) auto

text \<open>Each unordered pair of a distinct list occurs once.\<close>

lemma pairs2_once:
  "distinct xs \<Longrightarrow> distinct (map (\<lambda>(u, v). {u, v}) (pairs2 xs))"
proof (induction xs)
  case (Cons x xs)
  have "inj_on (\<lambda>y. {x, y}) (set xs)" by (auto simp: inj_on_def doubleton_eq_iff)
  then show ?case using Cons by (auto simp: distinct_map doubleton_eq_iff comp_def dest!: pairs2_set)
qed simp

section \<open>Medians\<close>

text \<open>The middle element, or the mean of the two middle elements, of a sorted list.\<close>

definition median_sorted :: "real list \<Rightarrow> real" where
  "median_sorted xs =
     (let mid = length xs div 2
      in if odd (length xs) then xs ! mid else (xs ! (mid - 1) + xs ! mid) / 2)"

text \<open>Medians of pointwise smaller lists are smaller.\<close>

lemma insort_le:
  fixes x :: "'a::linorder"
  assumes "list_all2 (\<le>) xs ys" "sorted xs" "sorted ys" "x \<le> y"
  shows "list_all2 (\<le>) (insort x xs) (insort y ys)"
  using assms
proof (induction arbitrary: x y rule: list_all2_induct)
  case (Cons a as b bs)
  have s: "insort a as = a # as" "insort b bs = b # bs"
    using Cons.prems by (auto intro!: insort_is_Cons)
  have "list_all2 (\<le>) (a # as) (insort y bs)" if "\<not> y \<le> b"
    using Cons.IH [of a y] Cons.prems Cons.hyps that s by simp
  moreover have "list_all2 (\<le>) (insort x as) (b # bs)" if "y \<le> b"
    using Cons.IH [of x b] Cons.prems Cons.hyps that s by simp
  moreover have "list_all2 (\<le>) (insort x as) (insort y bs)"
    using Cons.IH Cons.prems by simp
  ultimately show ?case using Cons.hyps Cons.prems by auto
qed simp

lemma sort_le:
  fixes xs :: "'a::linorder list"
  shows "list_all2 (\<le>) xs ys \<Longrightarrow> list_all2 (\<le>) (sort xs) (sort ys)"
  by (induction rule: list_all2_induct) (auto intro: insort_le)

lemma median_sorted_le:
  assumes "list_all2 (\<le>) xs ys" and "xs \<noteq> []"
  shows "median_sorted xs \<le> median_sorted ys"
proof -
  have len: "length xs = length ys" "0 < length ys" using assms by (auto simp: list_all2_lengthD)
  have nth: "xs ! i \<le> ys ! i" if "i < length ys" for i
    using list_all2_nthD [OF assms(1)] that len by simp
  have "length ys div 2 < length ys" using len by simp
  then have "length ys div 2 < length ys" "length ys div 2 - 1 < length ys" by linarith+
  with nth [of "length ys div 2"] nth [of "length ys div 2 - 1"] len show ?thesis
    by (simp add: median_sorted_def Let_def)
qed

lemma list_all2_const: "list_all2 P (replicate (length xs) c) xs \<longleftrightarrow> (\<forall>x \<in> set xs. P c x)"
  by (induction xs) auto

lemma list_all2_const2: "list_all2 P xs (replicate (length xs) c) \<longleftrightarrow> (\<forall>x \<in> set xs. P x c)"
  by (induction xs) auto

lemma median_const: "0 < n \<Longrightarrow> median_sorted (replicate n c) = c"
  by (auto simp: median_sorted_def Let_def)

lemma median_bounds:
  assumes "xs \<noteq> []" "\<forall>x \<in> set xs. lo \<le> x \<and> x \<le> hi"
  shows "lo \<le> median_sorted xs \<and> median_sorted xs \<le> hi"
  using median_sorted_le [of "replicate (length xs) lo" xs] median_sorted_le [of xs "replicate (length xs) hi"]
    assms median_const [of "length xs"] by (auto simp: list_all2_const list_all2_const2)

section \<open>Sets\<close>

text \<open>
  The order in which Python iterates over a set of strings is not specified: components that
  iterate take it as a parameter \<open>iter\<close> that gives each element once.
\<close>

definition good_iter :: "(string set \<Rightarrow> string list) \<Rightarrow> bool" where
  "good_iter iter \<longleftrightarrow> (\<forall>s. finite s \<longrightarrow> distinct (iter s) \<and> set (iter s) = s)"

lemma sorted_iter: "good_iter sorted_list_of_set"
  by (simp add: good_iter_def)

section \<open>Random generators\<close>

text \<open>
  \<open>randint g a b\<close> is \<open>random.randint(a, b)\<close> on the generator state \<open>g\<close>: a number of
  the range, and the next state. \<open>replay_randint\<close> replays a list of draws, folded into the
  range it is asked for.
\<close>

definition good_randint :: "('g \<Rightarrow> int \<Rightarrow> int \<Rightarrow> int \<times> 'g) \<Rightarrow> bool" where
  "good_randint randint \<longleftrightarrow> (\<forall>g a b. a \<le> b \<longrightarrow> a \<le> fst (randint g a b) \<and> fst (randint g a b) \<le> b)"

fun replay_randint :: "int list \<Rightarrow> int \<Rightarrow> int \<Rightarrow> int \<times> int list" where
  "replay_randint [] a b = (a, [])"
| "replay_randint (j # g) a b = (a + (j - a) mod (b - a + 1), g)"

section \<open>Slices and truth values\<close>

text \<open>\<open>xs[:n]\<close> with Python's meaning of a negative bound.\<close>

definition slice_to :: "'a list \<Rightarrow> int \<Rightarrow> 'a list" where
  "slice_to xs n = (if 0 \<le> n then take (nat n) xs else take (nat (int (length xs) + n)) xs)"

lemma slice_to_take: "\<exists>m. slice_to xs n = take m xs"
  by (auto simp: slice_to_def)

section \<open>JSON values\<close>

text \<open>
  What \<open>json.dumps\<close> writes and \<open>json.loads\<close> reads back. Object keys are strings.
\<close>

datatype json =
    JNull
  | JBool bool
  | JInt int
  | JReal real
  | JStr string
  | JArr "json list"
  | JObj "(string \<times> json) list"

fun jget :: "json \<Rightarrow> string \<Rightarrow> json res" where
  "jget (JObj kvs) k = dlookup kvs k"
| "jget _ k = Inl TypeError"

text \<open>\<open>d.get(k, default)\<close>\<close>

fun jget_or :: "json \<Rightarrow> string \<Rightarrow> json \<Rightarrow> json res" where
  "jget_or (JObj kvs) k v = Inr (dget_or kvs k v)"
| "jget_or _ k v = Inl AttributeError"

text \<open>\<open>if x:\<close> and \<open>key in x\<close>\<close>

fun jtruthy :: "json \<Rightarrow> bool" where
  "jtruthy JNull = False"
| "jtruthy (JBool b) = b"
| "jtruthy (JInt n) = (n \<noteq> 0)"
| "jtruthy (JReal r) = (r \<noteq> 0)"
| "jtruthy (JStr s) = (s \<noteq> [])"
| "jtruthy (JArr xs) = (xs \<noteq> [])"
| "jtruthy (JObj kvs) = (kvs \<noteq> [])"

fun jhas :: "json \<Rightarrow> string \<Rightarrow> bool" where
  "jhas (JObj kvs) k = (k \<in> set (dkeys kvs))"
| "jhas _ k = False"

fun jlist :: "json \<Rightarrow> json list res" where
  "jlist (JArr xs) = Inr xs"
| "jlist _ = Inl TypeError"

fun jitems :: "json \<Rightarrow> (string \<times> json) list res" where
  "jitems (JObj kvs) = Inr kvs"
| "jitems _ = Inl AttributeError"

fun jstring :: "json \<Rightarrow> string res" where
  "jstring (JStr s) = Inr s"
| "jstring _ = Inl TypeError"

text \<open>
  \<open>int(x)\<close> and \<open>float(x)\<close> on JSON numbers; a snapshot that the code wrote holds
  numbers only, so any other value is a type error here.
\<close>

fun jint :: "json \<Rightarrow> int res" where
  "jint (JInt n) = Inr n"
| "jint (JBool b) = Inr (of_bool b)"
| "jint (JReal r) = Inr (if 0 \<le> r then \<lfloor>r\<rfloor> else \<lceil>r\<rceil>)"
| "jint _ = Inl TypeError"

fun jreal :: "json \<Rightarrow> real res" where
  "jreal (JInt n) = Inr (of_int n)"
| "jreal (JBool b) = Inr (of_bool b)"
| "jreal (JReal r) = Inr r"
| "jreal _ = Inl TypeError"

text \<open>
  \<open>if len(rows) > max_rows: rows = rows[:max_rows]\<close> with \<open>max_rows\<close> read from the
  configuration: a float compares but does not slice.
\<close>

fun jcap :: "json \<Rightarrow> 'a list \<Rightarrow> 'a list res" where
  "jcap (JInt n) xs = Inr (if int (length xs) > n then slice_to xs n else xs)"
| "jcap (JBool b) xs = Inr (if int (length xs) > of_bool b then slice_to xs (of_bool b) else xs)"
| "jcap (JReal r) xs = (if real (length xs) > r then Inl TypeError else Inr xs)"
| "jcap _ xs = Inl TypeError"

lemma jcap_take: "jcap j xs = Inr ys \<Longrightarrow> \<exists>m. ys = take m xs"
  by (cases j) (auto split: if_splits intro: slice_to_take exI [of _ "length xs"])

section \<open>Components that persist their state\<close>

text \<open>
  The streaming plugins save a JSON snapshot after a batch and restore it into a fresh
  object when the process restarts. The contract: restoring what was snapshotted gives the
  state back, whatever object it is restored into. Then a restart between any two inputs is
  invisible.
\<close>

locale checkpointed =
  fixes step :: "'i \<Rightarrow> 's \<Rightarrow> 's"
    and snap :: "'s \<Rightarrow> json"
    and rest :: "json \<Rightarrow> 's \<Rightarrow> 's res"
    and ok :: "'s \<Rightarrow> bool"
  assumes step_ok: "ok s \<Longrightarrow> ok (step i s)"
    and rest_snap: "ok s \<Longrightarrow> rest (snap s) s' = Inr s"
begin

lemma run_ok: "ok s \<Longrightarrow> ok (fold step xs s)"
  by (induction xs arbitrary: s) (auto intro: step_ok)

lemma resume:
  assumes "ok s"
  shows "bindE (rest (snap (fold step xs s)) s') (\<lambda>t. Inr (fold step ys t))
         = Inr (fold step (xs @ ys) s)"
  using rest_snap [OF run_ok [OF assms]] by simp

text \<open>A run that is stopped and restored after every input.\<close>

fun crashy_run :: "'i list \<Rightarrow> 's \<Rightarrow> 's \<Rightarrow> 's res" where
  "crashy_run [] fresh s = Inr s"
| "crashy_run (x # xs) fresh s =
     bindE (rest (snap (step x s)) fresh) (crashy_run xs fresh)"

lemma crashy_run_eq: "ok s \<Longrightarrow> crashy_run xs fresh s = Inr (fold step xs s)"
  by (induction xs arbitrary: s) (simp_all add: rest_snap step_ok)

end

end
