(* ===== verification/Dgim.thy ===== *)
theory Dgim
  imports Prelude
begin

text \<open>
  The sliding-window estimator of \<open>streaming/analytics/dgim.py\<close>: class \<open>DGIM\<close> (state,
  update, merge loop, query, snapshot, restore), its bucket invariant, the size of its state
  and the exact error bound of its estimate.
\<close>

section \<open>State and operations\<close>

record dgim_bucket =
  b_timestamp :: int
  b_size :: int

record dgim =
  window_n :: int
  current_time :: int
  buckets :: "dgim_bucket list"

definition dgim_init :: "int \<Rightarrow> dgim res" where
  "dgim_init n =
     (if n \<le> 0 then Inl ValueError
      else Inr \<lparr>window_n = n, current_time = 0, buckets = []\<rparr>)"

text \<open>\<open>while self.buckets and self.buckets[-1].timestamp <= cutoff: self.buckets.pop()\<close>\<close>

function dgim_expire :: "int \<Rightarrow> dgim_bucket list \<Rightarrow> dgim_bucket list" where
  "dgim_expire cutoff bs =
     (if bs \<noteq> [] \<and> b_timestamp (last bs) \<le> cutoff then dgim_expire cutoff (butlast bs) else bs)"
  by pat_completeness auto
termination
  by (relation "measure (\<lambda>(c, bs). length bs)") auto

declare dgim_expire.simps [simp del]

text \<open>
  The cascade: three equal sizes at \<open>i, i+1, i+2\<close> merge the two older ones; the index steps
  back by one after a merge and forward otherwise. Every merge shortens the list, so
  \<open>2 * length - i\<close> decreases.
\<close>

definition merge_at :: "nat \<Rightarrow> dgim_bucket list \<Rightarrow> dgim_bucket list" where
  "merge_at i bs =
     (take (i + 2) bs @ drop (i + 3) bs)
       [i + 1 := \<lparr>b_timestamp = b_timestamp (bs ! (i + 1)), b_size = b_size (bs ! (i + 1)) * 2\<rparr>]"

function merge_buckets :: "nat \<Rightarrow> dgim_bucket list \<Rightarrow> dgim_bucket list" where
  "merge_buckets i bs =
     (if i + 2 < length bs
      then if b_size (bs ! i) = b_size (bs ! (i + 1)) \<and> b_size (bs ! (i + 1)) = b_size (bs ! (i + 2))
           then merge_buckets (i - 1) (merge_at i bs)
           else merge_buckets (i + 1) bs
      else bs)"
  by pat_completeness auto
termination
  by (relation "measure (\<lambda>(i, bs). 2 * length bs - i)") (auto simp: merge_at_def)

declare merge_buckets.simps [simp del]

definition dgim_update :: "int \<Rightarrow> dgim \<Rightarrow> dgim" where
  "dgim_update b d =
     (let t = current_time d + 1;
          bs = dgim_expire (t - window_n d) (buckets d)
      in d\<lparr>current_time := t,
           buckets := (if b \<noteq> 0 then merge_buckets 0 (\<lparr>b_timestamp = t, b_size = 1\<rparr> # bs)
                       else bs)\<rparr>)"

fun query_loop :: "int \<Rightarrow> dgim_bucket list \<Rightarrow> int \<Rightarrow> int" where
  "query_loop cutoff [] acc = acc"
| "query_loop cutoff (b # bs) acc =
     (if b_timestamp b \<le> cutoff then acc
      else if bs = [] \<or> b_timestamp (hd bs) \<le> cutoff
           then query_loop cutoff bs (acc + b_size b div 2)
           else query_loop cutoff bs (acc + b_size b))"

definition dgim_query :: "dgim \<Rightarrow> int option \<Rightarrow> int" where
  "dgim_query d k =
     (if buckets d = [] then 0
      else let query_len = (case k of None \<Rightarrow> window_n d | Some k \<Rightarrow> min k (window_n d))
           in if query_len \<le> 0 then 0
              else query_loop (current_time d - query_len) (buckets d) 0)"

definition bucket_json :: "dgim_bucket \<Rightarrow> json" where
  "bucket_json b = JObj [(''timestamp'', JInt (b_timestamp b)), (''size'', JInt (b_size b))]"

definition dgim_snapshot :: "dgim \<Rightarrow> json" where
  "dgim_snapshot d =
     JObj [(''window_n'', JInt (window_n d)),
           (''current_time'', JInt (current_time d)),
           (''buckets'', JArr (map bucket_json (buckets d)))]"

definition json_bucket :: "json \<Rightarrow> dgim_bucket res" where
  "json_bucket j =
     bindE (bindE (jget j ''timestamp'') jint) (\<lambda>t.
     bindE (bindE (jget j ''size'') jint) (\<lambda>s.
     Inr \<lparr>b_timestamp = t, b_size = s\<rparr>))"

text \<open>Every field of the object is overwritten.\<close>

definition dgim_restore :: "json \<Rightarrow> dgim \<Rightarrow> dgim res" where
  "dgim_restore j d =
     bindE (bindE (jget j ''window_n'') jint) (\<lambda>n.
     bindE (bindE (jget j ''current_time'') jint) (\<lambda>t.
     bindE (bindE (jget_or j ''buckets'' (JArr [])) jlist) (\<lambda>js.
     bindE (mapE json_bucket js) (\<lambda>bs.
     Inr (d\<lparr>window_n := n, current_time := t, buckets := bs\<rparr>)))))"

text \<open>Feeding a whole bit stream to a new estimator.\<close>

definition dgim_feed :: "int \<Rightarrow> int list \<Rightarrow> dgim" where
  "dgim_feed n bits = fold dgim_update bits \<lparr>window_n = n, current_time = 0, buckets = []\<rparr>"

text \<open>What the estimate is compared with: the 1-bits among the last \<open>k\<close> bits.\<close>

definition ones_in_last :: "nat \<Rightarrow> int list \<Rightarrow> nat" where
  "ones_in_last k bits = length (filter (\<lambda>b. b \<noteq> 0) (drop (length bits - k) bits))"

section \<open>Snapshots\<close>

lemma json_bucket_inverse [simp]: "json_bucket (bucket_json b) = Inr b"
  by (simp add: json_bucket_def bucket_json_def dlookup_def)

lemma dgim_restore_snapshot: "dgim_restore (dgim_snapshot d) d' = Inr d"
  by (simp add: dgim_restore_def dgim_snapshot_def dlookup_def dget_or_def mapE_map_inverse)

interpretation dgim_cp: checkpointed dgim_update dgim_snapshot dgim_restore "\<lambda>_. True"
  by unfold_locales (simp_all add: dgim_restore_snapshot)

section \<open>The bucket sizes: a binary counter with digits one and two\<close>

text \<open>
  \<open>canon e xs\<close>: one or two buckets of size \<open>2 ^ e\<close>, then one or two of size
  \<open>2 ^ (e + 1)\<close>, and so on.
\<close>

fun canon :: "nat \<Rightarrow> int list \<Rightarrow> bool" where
  "canon e [] = True"
| "canon e [x] = (x = 2 ^ e)"
| "canon e (x # y # r) =
     (x = 2 ^ e \<and> (if y = 2 ^ e then canon (Suc e) r else canon (Suc e) (y # r)))"

lemma canon_hd: "canon e (x # xs) \<Longrightarrow> x = 2 ^ e"
  by (cases xs) auto

lemma canon_take: "canon e xs \<Longrightarrow> canon e (take m xs)"
proof (induction e xs arbitrary: m rule: canon.induct)
  case (2 e x)
  then show ?case by (cases m) auto
next
  case (3 e x y r)
  show ?case
  proof (cases m)
    case 0
    then show ?thesis by simp
  next
    case (Suc m')
    show ?thesis
    proof (cases m')
      case 0
      with Suc 3 show ?thesis by simp
    next
      case (Suc m'')
      with \<open>m = Suc m'\<close> 3 show ?thesis
        using "3.IH" (2) [of "Suc m''"] by auto
    qed
  qed
qed simp

lemma two_power_Suc_int: "(0 :: int) < 2 ^ e \<and> (2 :: int) ^ Suc e = 2 * 2 ^ e"
  by simp

lemma canon_ge: "canon e xs \<Longrightarrow> x \<in> set xs \<Longrightarrow> 2 ^ e \<le> x"
proof (induction e xs rule: canon.induct)
  case (3 e x' y r)
  have "x = 2 ^ e \<or> 2 ^ Suc e \<le> x"
  proof (cases "y = 2 ^ e")
    case True
    with 3(3,4) "3.IH" (1) [OF True] show ?thesis by auto
  next
    case False
    with 3(3,4) "3.IH" (2) [OF False] show ?thesis by (auto simp del: power_Suc)
  qed
  then show ?case using two_power_Suc_int [of e] by linarith
qed auto

lemma canon_sum_before: "canon e (xs @ [x]) \<Longrightarrow> x - 2 ^ e \<le> sum_list xs"
proof (induction e xs rule: canon.induct)
  case (1 e)
  then show ?case by simp
next
  case (2 e y)
  then show ?case by (auto split: if_splits)
next
  case (3 e a b r)
  show ?case
  proof (cases "b = 2 ^ e")
    case True
    with 3 have "x - 2 ^ Suc e \<le> sum_list r" by simp
    moreover have "sum_list (a # b # r) = 2 ^ e + 2 ^ e + sum_list r" using True 3(3) by simp
    ultimately show ?thesis using two_power_Suc_int [of e] by linarith
  next
    case False
    with 3 have "x - 2 ^ Suc e \<le> sum_list (b # r)" by simp
    with False 3 show ?thesis by simp
  qed
qed

lemma canon_sum_lower: "canon e xs \<Longrightarrow> 2 ^ (e + (length xs + 1) div 2) - 2 ^ e \<le> sum_list xs"
proof (induction e xs rule: canon.induct)
  case (3 e a b r)
  show ?case
  proof (cases "b = 2 ^ e")
    case True
    with 3 have "2 ^ (Suc e + (length r + 1) div 2) - 2 ^ Suc e \<le> sum_list r" by simp
    moreover have "sum_list (a # b # r) = 2 ^ e + 2 ^ e + sum_list r" using True 3(3) by simp
    moreover have "e + (length (a # b # r) + 1) div 2 = Suc e + (length r + 1) div 2" by simp
    ultimately show ?thesis using two_power_Suc_int [of e] by (simp only:) linarith
  next
    case False
    with 3 have IH: "2 ^ (Suc e + (length (b # r) + 1) div 2) - 2 ^ Suc e \<le> sum_list (b # r)"
      by simp
    have "(2 :: int) ^ (e + (length (a # b # r) + 1) div 2)
        \<le> 2 ^ (Suc e + (length (b # r) + 1) div 2)"
      by (rule power_increasing) auto
    with IH False 3 show ?thesis by simp
  qed
qed auto

section \<open>Expiry and merging\<close>

text \<open>On strictly descending timestamps the pop loop keeps exactly the buckets in the window.\<close>

lemma dgim_expire_takeWhile:
  "sorted_wrt (\<lambda>a b. b_timestamp b < b_timestamp a) bs \<Longrightarrow>
   dgim_expire cutoff bs = takeWhile (\<lambda>b. cutoff < b_timestamp b) bs"
proof (induction cutoff bs rule: dgim_expire.induct)
  case (1 cutoff bs)
  show ?case
  proof (cases "bs \<noteq> [] \<and> b_timestamp (last bs) \<le> cutoff")
    case True
    then obtain xs x where bs: "bs = xs @ [x]" and x: "b_timestamp x \<le> cutoff"
      by (cases bs rule: rev_cases) auto
    with 1 True have "dgim_expire cutoff xs = takeWhile (\<lambda>b. cutoff < b_timestamp b) xs"
      by (simp add: sorted_wrt_append)
    with True bs x show ?thesis
      by (subst dgim_expire.simps) (auto simp: takeWhile_append2 takeWhile_tail)
  next
    case False
    have "\<forall>b \<in> set bs. cutoff < b_timestamp b"
    proof (cases bs rule: rev_cases)
      case (snoc xs x)
      with False 1(2) show ?thesis by (fastforce simp: sorted_wrt_append)
    qed simp
    then have "takeWhile (\<lambda>b. cutoff < b_timestamp b) bs = bs"
      by (simp only: takeWhile_eq_all_conv)
    moreover have "dgim_expire cutoff bs = bs"
      using False by (subst dgim_expire.simps) auto
    ultimately show ?thesis by (simp only:)
  qed
qed

lemma length_merge_at: "i + 2 < length bs \<Longrightarrow> length (merge_at i bs) = length bs - 1"
  by (simp add: merge_at_def)

lemma merge_at_append:
  "length pre = i \<Longrightarrow> merge_at i (pre @ b1 # b2 # b3 # r)
     = pre @ b1 # \<lparr>b_timestamp = b_timestamp b2, b_size = b_size b2 * 2\<rparr> # r"
  by (simp add: merge_at_def numeral_2_eq_2 numeral_3_eq_3 list_update_append nth_append)

lemma split_three:
  assumes "i + 2 < length xs"
  obtains pre a b c r where "xs = pre @ a # b # c # r" "length pre = i"
proof -
  have "xs = take i xs @ xs ! i # xs ! (i + 1) # xs ! (i + 2) # drop (i + 3) xs"
    using assms by (simp add: Cons_nth_drop_Suc numeral_eq_Suc id_take_nth_drop)
  moreover have "length (take i xs) = i" using assms by simp
  ultimately show ?thesis using that by blast
qed

text \<open>Where no three neighbours agree, the loop only walks to the end.\<close>

lemma merge_buckets_idle:
  assumes "\<And>j. i \<le> j \<Longrightarrow> j + 2 < length bs \<Longrightarrow>
      \<not> (b_size (bs ! j) = b_size (bs ! (j + 1)) \<and> b_size (bs ! (j + 1)) = b_size (bs ! (j + 2)))"
  shows "merge_buckets i bs = bs"
  using assms
proof (induction i bs rule: merge_buckets.induct)
  case (1 i bs)
  show ?case
  proof (cases "i + 2 < length bs")
    case True
    moreover have "merge_buckets (i + 1) bs = bs"
      using 1(2) [OF True] 1(3) True by auto
    ultimately show ?thesis using 1(3) [of i] by (subst merge_buckets.simps) auto
  next
    case False
    then show ?thesis by (subst merge_buckets.simps) simp
  qed
qed

lemma canon_no_triple:
  "canon e xs \<Longrightarrow> j + 2 < length xs \<Longrightarrow> \<not> (xs ! j = xs ! (j + 1) \<and> xs ! (j + 1) = xs ! (j + 2))"
proof (induction e xs arbitrary: j rule: canon.induct)
  case (3 e x y r)
  have two: "(2 :: int) ^ Suc e \<noteq> 2 ^ e" by simp
  have tl: "canon (Suc e) (if y = 2 ^ e then r else y # r)" and x: "x = 2 ^ e"
    using 3(3) by auto
  have r0: "r = [] \<or> y \<noteq> 2 ^ e \<or> r ! 0 = 2 ^ Suc e"
  proof (cases r)
    case (Cons a r')
    with tl show ?thesis using canon_hd [of "Suc e" a r'] by auto
  qed simp
  show ?case
  proof (cases j)
    case 0
    with 3(4) have "r \<noteq> []" by auto
    with 0 x r0 two show ?thesis by (auto simp del: power_Suc)
  next
    case (Suc j')
    note j = this
    show ?thesis
    proof (cases "y = 2 ^ e")
      case True
      show ?thesis
      proof (cases j')
        case 0
        with 3(4) j have "r \<noteq> []" by auto
        with 0 j True r0 two show ?thesis by (auto simp del: power_Suc)
      next
        case (Suc j'')
        with j True 3(4) tl "3.IH" (1) [OF True, of j''] show ?thesis by simp
      qed
    next
      case False
      with j 3(4) tl "3.IH" (2) [OF False, of j'] show ?thesis by simp
    qed
  qed
qed auto

text \<open>
  Inserting a unit bucket in front of a canonical list and running the loop propagates one
  carry and leaves a canonical list: \<open>pre\<close> is the part already passed, whose sizes are
  smaller, and the rest starts with an extra bucket of size \<open>2 ^ e\<close>.
\<close>

lemma merge_buckets_skip:
  assumes "i + 2 < length bs \<Longrightarrow>
      \<not> (b_size (bs ! i) = b_size (bs ! (i + 1)) \<and> b_size (bs ! (i + 1)) = b_size (bs ! (i + 2)))"
  shows "merge_buckets i bs = merge_buckets (i + 1) bs"
proof (cases "i + 2 < length bs")
  case True
  with assms show ?thesis by (subst merge_buckets.simps) auto
next
  case False
  then show ?thesis by (subst merge_buckets.simps, subst (2) merge_buckets.simps) simp
qed

lemma merge_buckets_canonical_suffix:
  assumes "canon e (map b_size suf)"
  shows "merge_buckets (length pre) (pre @ suf) = pre @ suf"
proof (rule merge_buckets_idle)
  fix j assume j: "length pre \<le> j" "j + 2 < length (pre @ suf)"
  then have "j - length pre + 2 < length (map b_size suf)" by simp
  from canon_no_triple [OF assms this] j
  show "\<not> (b_size ((pre @ suf) ! j) = b_size ((pre @ suf) ! (j + 1))
      \<and> b_size ((pre @ suf) ! (j + 1)) = b_size ((pre @ suf) ! (j + 2)))"
    by (simp add: nth_append Suc_diff_le)
qed

lemma merge_buckets_carry:
  assumes "canon e (map b_size suf)" and "b_size b = 2 ^ e"
    and "\<forall>x \<in> set pre. b_size x < 2 ^ e"
  shows "\<exists>suf'. merge_buckets (length pre) (pre @ b # suf) = pre @ suf' \<and> canon e (map b_size suf')"
  using assms
proof (induction suf arbitrary: e b pre rule: length_induct)
  case (1 suf)
  show ?case
  proof (cases "canon e (map b_size (b # suf))")
    case True
    then show ?thesis using merge_buckets_canonical_suffix [of e "b # suf" pre] by blast
  next
    case False
    with 1(2,3) obtain c s where "suf = c # s" by (cases suf) auto
    moreover from this False 1(2,3) obtain d r where "s = d # r" by (cases s) auto
    ultimately have suf: "suf = c # d # r" by simp
    with 1(2,3) False have cd: "b_size c = 2 ^ e" "b_size d = 2 ^ e" and r: "canon (Suc e) (map b_size r)"
      by (auto split: if_splits)
    let ?m = "\<lparr>b_timestamp = b_timestamp c, b_size = b_size c * 2\<rparr>"
    have m: "b_size ?m = 2 ^ Suc e" using cd by simp
    have two: "(2 :: int) ^ e < 2 ^ Suc e" using two_power_Suc_int [of e] by linarith
    have "merge_buckets (length pre) (pre @ b # suf) = merge_buckets (length pre - 1) (pre @ b # ?m # r)"
      using suf cd 1(3) by (subst merge_buckets.simps) (simp add: merge_at_append nth_append)
    also have "\<dots> = merge_buckets (length pre) (pre @ b # ?m # r)"
    proof (cases pre rule: rev_cases)
      case (snoc p q)
      with 1(4) have "b_size q < 2 ^ e" by simp
      with snoc 1(3) show ?thesis
        by (subst merge_buckets_skip) (simp_all add: nth_append)
    qed simp
    also have "\<dots> = merge_buckets (length (pre @ [b])) ((pre @ [b]) @ ?m # r)"
      using m two 1(3) by (subst merge_buckets_skip) (simp_all add: nth_append)
    finally have step: "merge_buckets (length pre) (pre @ b # suf)
        = merge_buckets (length (pre @ [b])) ((pre @ [b]) @ ?m # r)" .
    have "\<forall>x \<in> set (pre @ [b]). b_size x < 2 ^ Suc e"
      using 1(3,4) two by (auto simp del: power_Suc intro: order.strict_trans [OF _ two])
    with 1(1) suf r m obtain suf' where
      "merge_buckets (length (pre @ [b])) ((pre @ [b]) @ ?m # r) = (pre @ [b]) @ suf'"
      and "canon (Suc e) (map b_size suf')"
      by (metis (no_types, lifting) length_Cons less_SucI lessI)
    moreover have "canon e (map b_size (b # suf'))"
      using \<open>canon (Suc e) (map b_size suf')\<close> 1(3) two
      by (cases suf') (auto dest: canon_hd simp del: power_Suc)
    ultimately show ?thesis using step by (intro exI [of _ "b # suf'"]) simp
  qed
qed

lemma merge_buckets_insert:
  assumes "canon 0 (map b_size bs)" and "b_size b = 1"
  shows "canon 0 (map b_size (merge_buckets 0 (b # bs)))"
  using merge_buckets_carry [of 0 bs b "[]"] assms by auto

section \<open>Buckets cover the ones of the stream\<close>

text \<open>
  A bucket stands for a run of consecutive 1-bits: \<open>groups\<close> lists their stream positions,
  newest first; the timestamp is the newest position and the size is their number.
\<close>

definition covers :: "int list \<Rightarrow> dgim_bucket \<Rightarrow> bool" where
  "covers g b \<longleftrightarrow> g \<noteq> [] \<and> hd g = b_timestamp b \<and> int (length g) = b_size b"

lemma merge_buckets_covers:
  "list_all2 covers gs bs \<Longrightarrow>
   \<exists>gs'. list_all2 covers gs' (merge_buckets i bs) \<and> concat gs' = concat gs"
proof (induction i bs arbitrary: gs rule: merge_buckets.induct)
  case (1 i bs)
  show ?case
  proof (cases "i + 2 < length bs")
    case len: True
    show ?thesis
    proof (cases "b_size (bs ! i) = b_size (bs ! (i + 1)) \<and> b_size (bs ! (i + 1)) = b_size (bs ! (i + 2))")
      case True
      obtain pre b1 b2 b3 r where bs: "bs = pre @ b1 # b2 # b3 # r" and pre: "length pre = i"
        using split_three [OF len] by blast
      with 1(3) obtain gp g1 g2 g3 gr where gs: "gs = gp @ g1 # g2 # g3 # gr"
        and all: "list_all2 covers gp pre" "covers g1 b1" "covers g2 b2" "covers g3 b3"
          "list_all2 covers gr r"
        by (auto simp: list_all2_append2 list_all2_Cons2)
      have "b_size b2 = b_size b3" using True bs pre by (simp add: nth_append)
      with all have "covers (g2 @ g3) \<lparr>b_timestamp = b_timestamp b2, b_size = b_size b2 * 2\<rparr>"
        by (simp add: covers_def)
      with all have "list_all2 covers (gp @ g1 # (g2 @ g3) # gr) (merge_at i bs)"
        using bs pre by (simp add: merge_at_append list_all2_appendI)
      from 1(1) [OF len True this] gs show ?thesis
        using len True by (subst merge_buckets.simps) auto
    next
      case False
      from 1(2) [OF len False 1(3)] show ?thesis
        using len False by (subst merge_buckets.simps) auto
    qed
  next
    case False
    with 1(3) show ?thesis by (subst merge_buckets.simps) auto
  qed
qed

lemma covers_timestamp_in: "covers g b \<Longrightarrow> b_timestamp b \<in> set g"
  unfolding covers_def by (metis hd_in_set)

lemma covers_descending:
  "list_all2 covers gs bs \<Longrightarrow> sorted_wrt (>) (concat gs) \<Longrightarrow>
   sorted_wrt (\<lambda>a b. b_timestamp b < b_timestamp a) bs"
proof (induction rule: list_all2_induct)
  case (Cons g gs b bs)
  have "b_timestamp b' < b_timestamp b" if "b' \<in> set bs" for b'
  proof -
    from that Cons(2) obtain g' where "g' \<in> set gs" "covers g' b'"
      by (auto simp: list_all2_conv_all_nth in_set_conv_nth) metis
    then have "b_timestamp b' \<in> set (concat gs)" using covers_timestamp_in by force
    moreover have "b_timestamp b \<in> set g" using Cons(1) by (rule covers_timestamp_in)
    ultimately show ?thesis using Cons(4) by (auto simp: sorted_wrt_append)
  qed
  with Cons show ?case by (simp add: sorted_wrt_append)
qed simp

lemma descending_le_hd: "sorted_wrt (>) (g :: int list) \<Longrightarrow> p \<in> set g \<Longrightarrow> p \<le> hd g"
  by (cases g) auto

lemma covers_le_timestamp:
  "covers g b \<Longrightarrow> sorted_wrt (>) (g @ ps) \<Longrightarrow> p \<in> set (g @ ps) \<Longrightarrow> p \<le> b_timestamp b"
  using descending_le_hd [of "g @ ps" p] by (auto simp: covers_def hd_append)

lemma covers_takeWhile:
  "list_all2 covers gs bs \<Longrightarrow> sorted_wrt (>) (concat gs) \<Longrightarrow>
   \<exists>gs' old. concat gs = concat gs' @ old
     \<and> list_all2 covers gs' (takeWhile (\<lambda>b. cutoff < b_timestamp b) bs) \<and> (\<forall>p \<in> set old. p \<le> cutoff)"
proof (induction rule: list_all2_induct)
  case (Cons g gs b bs)
  show ?case
  proof (cases "cutoff < b_timestamp b")
    case True
    from Cons obtain gs' old where "concat gs = concat gs' @ old"
      "list_all2 covers gs' (takeWhile (\<lambda>b. cutoff < b_timestamp b) bs)" "\<forall>p \<in> set old. p \<le> cutoff"
      by (auto simp: sorted_wrt_append)
    with True Cons(1) show ?thesis by (intro exI [of _ "g # gs'"] exI [of _ old]) simp
  next
    case False
    then have "\<forall>p \<in> set (concat (g # gs)). p \<le> cutoff"
      using covers_le_timestamp [of g b "concat gs"] Cons(1,4) by fastforce
    with False show ?thesis by (intro exI [of _ "[]"] exI [of _ "concat (g # gs)"]) simp
  qed
qed simp

section \<open>The invariant of the estimator\<close>

text \<open>\<open>P\<close> lists the stream positions of all 1-bits so far, newest first.\<close>

definition dgim_inv :: "int list \<Rightarrow> dgim \<Rightarrow> bool" where
  "dgim_inv P d \<longleftrightarrow>
     sorted_wrt (>) P \<and> (\<forall>p \<in> set P. p \<le> current_time d) \<and>
     canon 0 (map b_size (buckets d)) \<and>
     (\<forall>b \<in> set (buckets d). current_time d - window_n d < b_timestamp b) \<and>
     (\<exists>gs old. P = concat gs @ old \<and> list_all2 covers gs (buckets d)
        \<and> (\<forall>p \<in> set old. p \<le> current_time d - window_n d))"

lemma dgim_invI:
  assumes "sorted_wrt (>) P" and "\<forall>p \<in> set P. p \<le> current_time d"
    and "canon 0 (map b_size (buckets d))"
    and "\<forall>b \<in> set (buckets d). current_time d - window_n d < b_timestamp b"
    and "P = concat gs @ old" and "list_all2 covers gs (buckets d)"
    and "\<forall>p \<in> set old. p \<le> current_time d - window_n d"
  shows "dgim_inv P d"
  using assms unfolding dgim_inv_def by blast

lemma merge_buckets_timestamps:
  "b \<in> set (merge_buckets i bs) \<Longrightarrow> b_timestamp b \<in> b_timestamp ` set bs"
proof (induction i bs rule: merge_buckets.induct)
  case (1 i bs)
  show ?case
  proof (cases "i + 2 < length bs \<and> b_size (bs ! i) = b_size (bs ! (i + 1))
      \<and> b_size (bs ! (i + 1)) = b_size (bs ! (i + 2))")
    case True
    then obtain pre b1 b2 b3 r where "bs = pre @ b1 # b2 # b3 # r" "length pre = i"
      using split_three [of i bs] by blast
    then have "b_timestamp ` set (merge_at i bs) \<subseteq> b_timestamp ` set bs"
      by (auto simp: merge_at_append)
    moreover have "b_timestamp b \<in> b_timestamp ` set (merge_at i bs)"
      using 1(1,3) True by (subst (asm) (2) merge_buckets.simps) auto
    ultimately show ?thesis by blast
  next
    case False
    with 1(2,3) show ?thesis by (subst (asm) (2) merge_buckets.simps) (auto split: if_splits)
  qed
qed

lemma dgim_update_inv:
  assumes inv: "dgim_inv P d" and n: "0 < window_n d"
  shows "dgim_inv (if b \<noteq> 0 then (current_time d + 1) # P else P) (dgim_update b d)"
proof -
  let ?t = "current_time d + 1" and ?cut = "current_time d + 1 - window_n d"
  let ?bs = "dgim_expire ?cut (buckets d)"
  from inv obtain gs old where P: "P = concat gs @ old" and cov: "list_all2 covers gs (buckets d)"
    and old: "\<forall>p \<in> set old. p \<le> current_time d - window_n d"
    and srt: "sorted_wrt (>) P" and le: "\<forall>p \<in> set P. p \<le> current_time d"
    and can: "canon 0 (map b_size (buckets d))"
    by (auto simp: dgim_inv_def)
  have srt': "sorted_wrt (>) (concat gs)" using srt P by (simp add: sorted_wrt_append)
  have exp: "?bs = takeWhile (\<lambda>b. ?cut < b_timestamp b) (buckets d)"
    by (rule dgim_expire_takeWhile [OF covers_descending [OF cov srt']])
  obtain gs' old' where gs': "concat gs = concat gs' @ old'" "list_all2 covers gs' ?bs"
    "\<forall>p \<in> set old'. p \<le> ?cut"
    using covers_takeWhile [OF cov srt', of ?cut] exp by auto
  have old'': "\<forall>p \<in> set (old' @ old). p \<le> ?cut" using gs'(3) old by auto
  have ts: "\<forall>b \<in> set ?bs. ?cut < b_timestamp b" unfolding exp by (auto dest: set_takeWhileD)
  have can': "canon 0 (map b_size ?bs)"
  proof -
    have "map b_size ?bs = take (length ?bs) (map b_size (buckets d))"
      unfolding exp by (metis take_map takeWhile_eq_take length_takeWhile_le
          takeWhile_eq_take [symmetric] length_map)
    then show ?thesis using canon_take [OF can] by metis
  qed
  show ?thesis
  proof (cases "b = 0")
    case True
    have "\<forall>p \<in> set P. p \<le> ?t" using le by auto
    with True srt can' ts gs' P old'' show ?thesis
      by (intro dgim_invI [of _ _ gs' "old' @ old"]) (simp_all add: dgim_update_def Let_def)
  next
    case False
    let ?new = "\<lparr>b_timestamp = ?t, b_size = 1\<rparr>"
    have "list_all2 covers ([?t] # gs') (?new # ?bs)" using gs'(2) by (simp add: covers_def)
    from merge_buckets_covers [OF this, of 0] obtain hs where
      hs: "list_all2 covers hs (merge_buckets 0 (?new # ?bs))" "concat hs = ?t # concat gs'"
      by auto
    have "?t # P = concat hs @ old' @ old" using P gs'(1) hs(2) by simp
    moreover have "canon 0 (map b_size (merge_buckets 0 (?new # ?bs)))"
      using merge_buckets_insert [OF can', of ?new] by simp
    moreover have "\<forall>b \<in> set (merge_buckets 0 (?new # ?bs)). ?cut < b_timestamp b"
      using ts n by (fastforce dest: merge_buckets_timestamps)
    moreover have "sorted_wrt (>) (?t # P)" "\<forall>p \<in> set (?t # P). p \<le> ?t" using srt le by auto
    ultimately show ?thesis
      using False hs(1) old''
      by (intro dgim_invI [of _ _ hs "old' @ old"]) (simp_all add: dgim_update_def Let_def)
  qed
qed

section \<open>The stream behind the state\<close>

text \<open>Positions of the 1-bits, newest first, of a stream given newest bit first.\<close>

fun ones_pos :: "int list \<Rightarrow> int list" where
  "ones_pos [] = []"
| "ones_pos (b # bs) = (if b \<noteq> 0 then (1 + int (length bs)) # ones_pos bs else ones_pos bs)"

lemma ones_pos_bounds: "p \<in> set (ones_pos bs) \<Longrightarrow> 1 \<le> p \<and> p \<le> int (length bs)"
  by (induction bs) (auto split: if_splits)

lemma count_ones_pos:
  "length (filter (\<lambda>p. int (length bs) - int k < p) (ones_pos bs))
   = length (filter (\<lambda>b. b \<noteq> 0) (take k bs))"
proof (induction bs arbitrary: k)
  case (Cons b bs)
  show ?case
  proof (cases k)
    case 0
    have "\<forall>p \<in> set (ones_pos (b # bs)). \<not> int (length (b # bs)) < p"
      using ones_pos_bounds [of _ "b # bs"] by fastforce
    with 0 show ?thesis by simp
  next
    case (Suc k')
    with Cons [of k'] show ?thesis by simp
  qed
qed simp

lemma ones_in_last_pos:
  "ones_in_last k bits = length (filter (\<lambda>p. int (length bits) - int k < p) (ones_pos (rev bits)))"
proof -
  have "drop (length bits - k) bits = rev (take k (rev bits))"
    by (simp add: take_rev)
  then show ?thesis
    using count_ones_pos [of "rev bits" k] by (simp add: ones_in_last_def rev_filter [symmetric])
qed

lemma dgim_update_fields [simp]:
  "window_n (dgim_update b d) = window_n d" "current_time (dgim_update b d) = current_time d + 1"
  by (simp_all add: dgim_update_def Let_def)

lemma dgim_feed_snoc: "dgim_feed n (bits @ [b]) = dgim_update b (dgim_feed n bits)"
  by (simp add: dgim_feed_def)

lemma dgim_feed_inv:
  assumes "0 < n"
  shows "window_n (dgim_feed n bits) = n \<and> current_time (dgim_feed n bits) = int (length bits)
    \<and> dgim_inv (ones_pos (rev bits)) (dgim_feed n bits)"
proof (induction bits rule: rev_induct)
  case Nil
  then show ?case by (simp add: dgim_feed_def dgim_inv_def)
next
  case (snoc b bits)
  then have w: "window_n (dgim_feed n bits) = n"
    and t: "current_time (dgim_feed n bits) = int (length bits)"
    and inv: "dgim_inv (ones_pos (rev bits)) (dgim_feed n bits)" by auto
  have "0 < window_n (dgim_feed n bits)" using w assms by simp
  from dgim_update_inv [OF inv this, of b] w t show ?case
    by (cases "b = 0") (simp_all add: dgim_feed_snoc add.commute)
qed

section \<open>The estimate\<close>

lemma query_loop_eq:
  "query_loop cutoff bs acc = acc +
     (let ss = map b_size (takeWhile (\<lambda>b. cutoff < b_timestamp b) bs)
      in if ss = [] then 0 else sum_list (butlast ss) + last ss div 2)"
proof (induction bs arbitrary: acc)
  case (Cons b bs)
  then show ?case by (cases bs) (auto simp: Let_def)
qed simp

lemma covered_count:
  "list_all2 covers gs bs \<Longrightarrow> sorted_wrt (>) (concat gs) \<Longrightarrow>
   (let c = int (length (filter (\<lambda>p. cutoff < p) (concat gs)));
        ss = map b_size (takeWhile (\<lambda>b. cutoff < b_timestamp b) bs)
    in if ss = [] then c = 0 else sum_list (butlast ss) < c \<and> c \<le> sum_list ss)"
proof (induction rule: list_all2_induct)
  case (Cons g gs b bs)
  let ?c = "int (length (filter (\<lambda>p. cutoff < p) (concat gs)))"
  let ?ss = "map b_size (takeWhile (\<lambda>b. cutoff < b_timestamp b) bs)"
  have IH: "if ?ss = [] then ?c = 0 else sum_list (butlast ?ss) < ?c \<and> ?c \<le> sum_list ?ss"
    using Cons by (simp add: Let_def sorted_wrt_append)
  have g: "int (length g) = b_size b" "b_timestamp b \<in> set g"
    using Cons(1) covers_timestamp_in by (auto simp: covers_def)
  let ?cg = "int (length (filter (\<lambda>p. cutoff < p) g))"
  have cg: "?cg \<le> b_size b" using g(1) length_filter_le [of "\<lambda>p. cutoff < p" g] by linarith
  show ?case
  proof (cases "cutoff < b_timestamp b")
    case False
    then have "\<forall>p \<in> set (concat (g # gs)). \<not> cutoff < p"
      using covers_le_timestamp [of g b "concat gs"] Cons(1,4) by fastforce
    then have "filter (\<lambda>p. cutoff < p) (concat (g # gs)) = []" by (simp only: filter_empty_conv)
    with False show ?thesis by (simp add: Let_def)
  next
    case True
    then have pos: "0 < ?cg" using g(2) by (auto simp: filter_empty_conv)
    show ?thesis
    proof (cases "?ss = []")
      case nil: True
      with IH True pos cg show ?thesis by (simp add: Let_def)
    next
      case False
      then obtain b' bs' where bs: "bs = b' # bs'" and b': "cutoff < b_timestamp b'"
        by (cases bs) (auto split: if_splits)
      with Cons(2) obtain g' gs' where gs: "gs = g' # gs'" and "covers g' b'"
        by (auto simp: list_all2_Cons2)
      then have "b_timestamp b' \<in> set (concat gs)" using covers_timestamp_in by simp
      then have "\<forall>p \<in> set g. cutoff < p" using Cons(4) b' by (fastforce simp: sorted_wrt_append)
      then have "?cg = b_size b" using g(1) by (simp add: filter_True)
      with IH False True show ?thesis by (simp add: Let_def)
    qed
  qed
qed simp

lemma half_bucket_error:
  fixes S x c :: int
  assumes "S < c" "c \<le> S + x" "x - 1 \<le> S" "1 \<le> x"
  shows "if c = 1 then S + x div 2 = 0 else 2 * \<bar>S + x div 2 - c\<bar> \<le> c"
proof (cases "c = 1")
  case True
  with assms have "S = 0" "x = 1" by linarith+
  with True show ?thesis by simp
next
  case False
  define y r where "y = x div 2" and "r = x mod 2"
  then have x: "x = 2 * y + r" and r: "r = 0 \<or> r = 1" by auto
  have "r \<le> S" using r x False assms by auto
  then have "2 * (c - (S + y)) \<le> c \<and> 2 * ((S + y) - c) \<le> c" using x r assms by auto
  then show ?thesis using False y_def by (simp add: abs_if)
qed

lemma canon_query_error:
  assumes can: "canon 0 ss" and ne: "ss \<noteq> []"
    and lo: "sum_list (butlast ss) < c" and hi: "c \<le> sum_list ss"
    and q: "q = sum_list (butlast ss) + last ss div 2"
  shows "if c = 1 then q = 0 else 2 * \<bar>q - c\<bar> \<le> c"
proof -
  have "canon 0 (butlast ss @ [last ss])" using can ne by simp
  from canon_sum_before [OF this] have "last ss - 1 \<le> sum_list (butlast ss)" by simp
  moreover have "sum_list ss = sum_list (butlast ss) + last ss"
    using arg_cong [OF append_butlast_last_id [OF ne], of sum_list] by simp
  moreover have "1 \<le> last ss" using canon_ge [OF can, of "last ss"] ne by simp
  ultimately show ?thesis using lo hi q half_bucket_error [of "sum_list (butlast ss)" c "last ss"]
    by simp
qed

lemma dgim_query_count:
  assumes inv: "dgim_inv P d" and L: "0 < L" "L \<le> window_n d"
  defines "c \<equiv> int (length (filter (\<lambda>p. current_time d - L < p) P))"
    and "q \<equiv> query_loop (current_time d - L) (buckets d) 0"
  shows "if c = 1 then q = 0 else 2 * \<bar>q - c\<bar> \<le> c"
proof -
  let ?cut = "current_time d - L"
  let ?ss = "map b_size (takeWhile (\<lambda>b. ?cut < b_timestamp b) (buckets d))"
  from inv obtain gs old where P: "P = concat gs @ old" and cov: "list_all2 covers gs (buckets d)"
    and old: "\<forall>p \<in> set old. p \<le> current_time d - window_n d"
    and srt: "sorted_wrt (>) (concat gs)" and can: "canon 0 (map b_size (buckets d))"
    by (auto simp: dgim_inv_def sorted_wrt_append)
  have "filter (\<lambda>p. ?cut < p) old = []" using old L by (force simp: filter_empty_conv)
  then have c: "c = int (length (filter (\<lambda>p. ?cut < p) (concat gs)))" by (simp add: c_def P)
  have q: "q = (if ?ss = [] then 0 else sum_list (butlast ?ss) + last ?ss div 2)"
    unfolding q_def by (subst query_loop_eq) (simp add: Let_def)
  have bounds: "if ?ss = [] then c = 0 else sum_list (butlast ?ss) < c \<and> c \<le> sum_list ?ss"
    using covered_count [OF cov srt, of ?cut] by (simp add: c Let_def)
  have can': "canon 0 ?ss"
    using canon_take [OF can, of "length ?ss"] by (simp add: take_map takeWhile_eq_take [symmetric])
  show ?thesis
  proof (cases "?ss = []")
    case True
    with bounds q show ?thesis by simp
  next
    case False
    with bounds q show ?thesis by (intro canon_query_error [OF can' False]) auto
  qed
qed

section \<open>Properties\<close>

text \<open>C21: error bound of the estimator.  After any stream of bits, the estimate for the last
  \<open>k\<close> bits (any \<open>k\<close>, capped at the window length) is within fifty percent of the exact
  number of ones, except when there is exactly one 1-bit in range: then the estimate is 0.\<close>

theorem dgim_error_bound:
  assumes "0 < n"
  shows "let c = int (ones_in_last (nat (min k n)) bits);
             est = dgim_query (dgim_feed n bits) (Some k)
         in if c = 1 then est = 0 else 2 * \<bar>est - c\<bar> \<le> c"
proof -
  let ?d = "dgim_feed n bits" and ?L = "min k n"
  have w: "window_n ?d = n" and t: "current_time ?d = int (length bits)"
    and inv: "dgim_inv (ones_pos (rev bits)) ?d"
    using dgim_feed_inv [OF assms, of bits] by auto
  show ?thesis
  proof (cases "0 < ?L")
    case True
    have "int (ones_in_last (nat ?L) bits)
        = int (length (filter (\<lambda>p. current_time ?d - ?L < p) (ones_pos (rev bits))))"
      using True by (simp add: ones_in_last_pos t)
    moreover have "dgim_query ?d (Some k) = query_loop (current_time ?d - ?L) (buckets ?d) 0"
      using True by (auto simp: dgim_query_def w Let_def)
    ultimately show ?thesis
      using dgim_query_count [OF inv True] by (simp add: w)
  next
    case False
    then have "min k n \<le> 0" by linarith
    then show ?thesis by (simp add: dgim_query_def w ones_in_last_def Let_def)
  qed
qed

theorem dgim_error_bound_witness:
  "(0 :: int) < 4 \<and> 2 * \<bar>dgim_query (dgim_feed 4 [1, 1, 0, 1, 1]) (Some 4) - 3\<bar> \<le> 3
   \<and> dgim_query (dgim_feed 4 [0, 1, 0]) (Some 4) = 0"
proof -
  have c: "ones_in_last 4 [1, 1, 0, 1, 1] = 3" "ones_in_last 4 [0, 1, 0] = 1"
    by (simp_all add: ones_in_last_def)
  show ?thesis
    using dgim_error_bound [of 4 4 "[1, 1, 0, 1, 1]"] dgim_error_bound [of 4 4 "[0, 1, 0]"]
    by (simp add: c Let_def)
qed

text \<open>size of the state.  The number of buckets after any stream is logarithmic in the
  window length: two to the power of half of it is at most \<open>window_n\<close>.\<close>

theorem dgim_state_size:
  assumes "0 < n"
  shows "2 ^ (length (buckets (dgim_feed n bits)) div 2) \<le> n"
proof (cases "buckets (dgim_feed n bits) = []")
  case True
  with assms show ?thesis by simp
next
  case False
  let ?d = "dgim_feed n bits"
  have w: "window_n ?d = n" and t: "current_time ?d = int (length bits)"
    and inv: "dgim_inv (ones_pos (rev bits)) ?d"
    using dgim_feed_inv [OF assms, of bits] by auto
  from inv obtain gs old where P: "ones_pos (rev bits) = concat gs @ old"
    and cov: "list_all2 covers gs (buckets ?d)" and srt: "sorted_wrt (>) (concat gs)"
    and can: "canon 0 (map b_size (buckets ?d))"
    and ts: "\<forall>b \<in> set (buckets ?d). int (length bits) - n < b_timestamp b"
    by (auto simp: dgim_inv_def sorted_wrt_append t w)
  let ?ss = "map b_size (buckets ?d)"
  have all: "takeWhile (\<lambda>b. int (length bits) - n < b_timestamp b) (buckets ?d) = buckets ?d"
    using ts by (simp only: takeWhile_eq_all_conv)
  have "sum_list (butlast ?ss) < int (length (filter (\<lambda>p. int (length bits) - n < p) (concat gs)))"
    using covered_count [OF cov srt, of "int (length bits) - n"] False by (simp add: all Let_def)
  also have "\<dots> \<le> int (ones_in_last (nat n) bits)"
    using assms by (simp add: ones_in_last_pos P)
  also have "\<dots> \<le> n"
    using assms length_filter_le [of "\<lambda>b. b \<noteq> 0" "drop (length bits - nat n) bits"]
    by (simp add: ones_in_last_def)
  finally have "sum_list (butlast ?ss) < n" .
  moreover have "canon 0 (butlast ?ss)" using canon_take [OF can, of "length ?ss - 1"]
    by (simp add: butlast_conv_take)
  from canon_sum_lower [OF this] have "2 ^ (length (buckets ?d) div 2) - 1 \<le> sum_list (butlast ?ss)"
    using False by (simp add: Suc_diff_Suc)
  ultimately show ?thesis by linarith
qed

theorem dgim_state_size_witness:
  "(0 :: int) < 8 \<and> 2 ^ (length (buckets (dgim_feed 8 [1, 1, 1, 1, 1])) div 2) \<le> (8 :: int)"
  using dgim_state_size [of 8 "[1, 1, 1, 1, 1]"] by simp

end
