(* ===== verification/Pytext.thy ===== *)
theory Pytext
  imports Prelude
begin

text \<open>
  Python text operations the program uses, over ASCII strings: stripping, splitting and
  joining, case, decimal printing, \<open>int()\<close> and \<open>float()\<close> of a string, \<open>str()\<close> of a
  JSON value. A string is a list of characters; \<open>in\<close>, \<open>startswith\<close> and slices are list
  operations.
\<close>

section \<open>Whitespace, case, splitting\<close>

definition is_space :: "char \<Rightarrow> bool" where
  "is_space c = (let n = of_char c :: nat in n = 32 \<or> (9 \<le> n \<and> n \<le> 13) \<or> (28 \<le> n \<and> n \<le> 31))"

definition lstrip_by :: "(char \<Rightarrow> bool) \<Rightarrow> string \<Rightarrow> string" where
  "lstrip_by P s = dropWhile P s"

definition rstrip_by :: "(char \<Rightarrow> bool) \<Rightarrow> string \<Rightarrow> string" where
  "rstrip_by P s = rev (dropWhile P (rev s))"

definition strip :: "string \<Rightarrow> string" where
  "strip s = rstrip_by is_space (lstrip_by is_space s)"

text \<open>The line terminators that \<open>rstrip\<close> is given, and the separators of the code.\<close>

definition is_crlf :: "char \<Rightarrow> bool" where
  "is_crlf c = (c = CHR 0x0D \<or> c = CHR 0x0A)"

definition rstrip_crlf :: "string \<Rightarrow> string" where
  "rstrip_crlf s = rstrip_by is_crlf s"

definition is_upper :: "char \<Rightarrow> bool" where
  "is_upper c = (let n = of_char c :: nat in 65 \<le> n \<and> n \<le> 90)"

definition is_lower :: "char \<Rightarrow> bool" where
  "is_lower c = (let n = of_char c :: nat in 97 \<le> n \<and> n \<le> 122)"

definition to_lower :: "char \<Rightarrow> char" where
  "to_lower c = (if is_upper c then char_of (of_char c + 32 :: nat) else c)"

definition to_upper :: "char \<Rightarrow> char" where
  "to_upper c = (if is_lower c then char_of (of_char c - 32 :: nat) else c)"

abbreviation lower :: "string \<Rightarrow> string" where
  "lower s \<equiv> map to_lower s"

abbreviation upper :: "string \<Rightarrow> string" where
  "upper s \<equiv> map to_upper s"

text \<open>\<open>s.split(sep)\<close> for a one-character separator, and \<open>sep.join(parts)\<close>.\<close>

fun split_on :: "char \<Rightarrow> string \<Rightarrow> string list" where
  "split_on sep [] = [[]]"
| "split_on sep (c # cs) =
     (if c = sep then [] # split_on sep cs
      else case split_on sep cs of [] \<Rightarrow> [[c]] | p # ps \<Rightarrow> (c # p) # ps)"

fun join :: "string \<Rightarrow> string list \<Rightarrow> string" where
  "join sep [] = []"
| "join sep [p] = p"
| "join sep (p # q # ps) = p @ sep @ join sep (q # ps)"

lemma split_on_nonempty [simp]: "split_on sep s \<noteq> []"
  by (induction s) (auto split: list.splits)

lemma join_split: "join [sep] (split_on sep s) = s"
proof (induction s)
  case (Cons c cs)
  obtain p ps where p: "split_on sep cs = p # ps" by (cases "split_on sep cs") auto
  with Cons show ?case by (cases ps) auto
qed simp

lemma split_on_single: "sep \<notin> set p \<Longrightarrow> split_on sep p = [p]"
  by (induction p) auto

lemma split_on_append: "sep \<notin> set p \<Longrightarrow> split_on sep (p @ sep # s) = p # split_on sep s"
  by (induction p) auto

lemma split_join:
  "ps \<noteq> [] \<Longrightarrow> \<forall>p \<in> set ps. sep \<notin> set p \<Longrightarrow> split_on sep (join [sep] ps) = ps"
proof (induction "[sep]" ps rule: join.induct)
  case (3 p q ps)
  then show ?case by (simp add: split_on_append)
qed (simp_all add: split_on_single)

lemma split_on_no_sep: "p \<in> set (split_on sep s) \<Longrightarrow> sep \<notin> set p"
proof (induction s arbitrary: p)
  case (Cons c cs)
  then show ?case by (auto split: if_splits list.splits)
qed auto

lemma split_on_chars: "p \<in> set (split_on sep s) \<Longrightarrow> set p \<subseteq> set s"
proof (induction s arbitrary: p)
  case (Cons c cs)
  then show ?case by (fastforce split: if_splits list.splits)
qed auto

lemma rstrip_by_id: "s = [] \<or> \<not> P (last s) \<Longrightarrow> rstrip_by P s = s"
  by (cases s rule: rev_cases) (auto simp: rstrip_by_def)

lemma rstrip_crlf_no_crlf: "\<forall>c \<in> set s. \<not> is_crlf c \<Longrightarrow> rstrip_crlf s = s"
  by (cases s rule: rev_cases) (auto simp: rstrip_crlf_def rstrip_by_def)

lemma strip_subset: "set (strip s) \<subseteq> set s"
  unfolding strip_def rstrip_by_def lstrip_by_def
  by (auto dest!: set_dropWhileD)

lemma strip_id: "s = [] \<or> (\<not> is_space (hd s) \<and> \<not> is_space (last s)) \<Longrightarrow> strip s = s"
  by (cases s) (auto simp: strip_def lstrip_by_def rstrip_by_id)

section \<open>Decimal integers\<close>

definition is_digit :: "char \<Rightarrow> bool" where
  "is_digit c = (let n = of_char c :: nat in 48 \<le> n \<and> n \<le> 57)"

definition digit_val :: "char \<Rightarrow> nat" where
  "digit_val c = of_char c - 48"

definition digit_char :: "nat \<Rightarrow> char" where
  "digit_char d = char_of (48 + d)"

fun nat_str :: "nat \<Rightarrow> string" where
  "nat_str n = (if n < 10 then [digit_char n] else nat_str (n div 10) @ [digit_char (n mod 10)])"

declare nat_str.simps [simp del]

definition int_str :: "int \<Rightarrow> string" where
  "int_str k = (if k < 0 then CHR ''-'' # nat_str (nat (- k)) else nat_str (nat k))"

definition digits_val :: "string \<Rightarrow> nat" where
  "digits_val s = foldl (\<lambda>a c. 10 * a + digit_val c) 0 s"

text \<open>
  \<open>digit (["_"] digit)*\<close>: the digits of a literal, with single underscores between
  them, as \<open>int()\<close> and \<open>float()\<close> accept them. The result lists the digits.
\<close>

fun digit_part :: "string \<Rightarrow> string option" where
  "digit_part [] = None"
| "digit_part [c] = (if is_digit c then Some [c] else None)"
| "digit_part (c # d # cs) =
     (if is_digit c
      then map_option ((#) c) (digit_part (if d = CHR ''_'' then cs else d # cs))
      else None)"

definition split_sign :: "string \<Rightarrow> bool \<times> string" where
  "split_sign s =
     (case s of
        [] \<Rightarrow> (False, [])
      | c # cs \<Rightarrow> if c = CHR ''-'' then (True, cs) else if c = CHR ''+'' then (False, cs)
                 else (False, s))"

definition py_int :: "string \<Rightarrow> int option" where
  "py_int s =
     (let (neg, body) = split_sign (strip s)
      in case digit_part body of
           None \<Rightarrow> None
         | Some ds \<Rightarrow> Some (if neg then - int (digits_val ds) else int (digits_val ds)))"

lemma digit_char_props:
  assumes "d < 10"
  shows "is_digit (digit_char d)" and "digit_val (digit_char d) = d"
  using assms by (simp_all add: is_digit_def digit_val_def digit_char_def)

lemma digits_val_snoc: "digits_val (s @ [c]) = 10 * digits_val s + digit_val c"
  by (simp add: digits_val_def)

lemma nat_str_props:
  "nat_str n \<noteq> [] \<and> (\<forall>c \<in> set (nat_str n). is_digit c) \<and> digits_val (nat_str n) = n"
proof (induction n rule: nat_str.induct)
  case (1 n)
  show ?case
  proof (cases "n < 10")
    case True
    then show ?thesis
      by (subst (1 2 3) nat_str.simps) (simp add: digit_char_props digits_val_def)
  next
    case False
    with 1 show ?thesis
      by (subst (1 2 3) nat_str.simps) (simp add: digit_char_props digits_val_snoc)
  qed
qed

lemma is_digit_plain:
  assumes "is_digit c"
  shows "c \<noteq> CHR ''_''" "c \<noteq> CHR ''-''" "c \<noteq> CHR ''+''" "c \<noteq> CHR '',''" "c \<noteq> CHR ''.''"
    "\<not> is_space c" "\<not> is_crlf c" "c \<noteq> CHR '' ''" "c \<noteq> CHR '':''"
  using assms by (auto simp: is_digit_def is_space_def is_crlf_def Let_def)

lemma digit_part_digits: "s \<noteq> [] \<Longrightarrow> \<forall>c \<in> set s. is_digit c \<Longrightarrow> digit_part s = Some s"
  by (induction s rule: digit_part.induct) (auto simp: is_digit_plain(1))

lemma strip_int_str: "strip (int_str k) = int_str k"
proof (rule strip_id)
  have "\<forall>c \<in> set (int_str k). \<not> is_space c"
    using nat_str_props is_digit_plain(6) by (auto simp: int_str_def is_space_def [of "CHR ''-''"])
  then show "int_str k = [] \<or> \<not> is_space (hd (int_str k)) \<and> \<not> is_space (last (int_str k))"
    by (metis hd_in_set last_in_set)
qed

lemma py_int_str: "py_int (int_str k) = Some k"
proof -
  have p: "nat_str n \<noteq> []" "digit_part (nat_str n) = Some (nat_str n)" "digits_val (nat_str n) = n"
    for n using nat_str_props digit_part_digits by auto
  obtain c cs where c: "nat_str (nat k) = c # cs" using p(1) by (cases "nat_str (nat k)") auto
  then have "is_digit c" using nat_str_props [of "nat k"] by auto
  then show ?thesis
    using p [of "nat k"] p [of "nat (- k)"] c is_digit_plain(2,3)
    by (auto simp: py_int_def strip_int_str) (auto simp: int_str_def split_sign_def)
qed

lemma int_str_nonempty [simp]: "int_str k \<noteq> []"
  using nat_str_props by (simp add: int_str_def)

lemma int_str_chars: "c \<in> set (int_str k) \<Longrightarrow> is_digit c \<or> c = CHR ''-''"
  using nat_str_props by (auto simp: int_str_def split: if_splits)

section \<open>\<open>str()\<close> of a JSON value\<close>

text \<open>
  \<open>other\<close> stands for the representation of floats and containers, which no property
  depends on.
\<close>

fun py_str :: "(json \<Rightarrow> string) \<Rightarrow> json \<Rightarrow> string" where
  "py_str other (JStr s) = s"
| "py_str other (JInt n) = int_str n"
| "py_str other JNull = ''None''"
| "py_str other (JBool b) = (if b then ''True'' else ''False'')"
| "py_str other j = other j"

text \<open>\<open>s.replace("Z", "+00:00")\<close>\<close>

definition replace_z :: "string \<Rightarrow> string" where
  "replace_z s = concat (map (\<lambda>c. if c = CHR ''Z'' then ''+00:00'' else [c]) s)"

end
