(* ===== verification/Counting_Ones.thy ===== *)
theory Counting_Ones
  imports Dgim Pytext
begin

text \<open>
  The Lane B plugin \<open>CountingOnesAnalytic\<close> of \<open>streaming/analytics/dgim.py\<close>: it
  feeds the bits of every configured predicate to a \<open>DGIM\<close> estimator and to an exact
  bounded deque, and writes both counts to the table \<open>counting_ones\<close>.

  Spark is a parameter: \<open>eval expr row\<close> is the value of
  \<open>F.expr(expr).cast("int")\<close> on a row (\<open>None\<close> for NULL), and a batch is given by its
  columns and its rows in the order \<open>orderBy(event_time).collect()\<close> returns them.
\<close>

section \<open>Predicates\<close>

record predicate_spec =
  pname :: string
  pexpr :: string

definition default_predicates :: "predicate_spec list" where
  "default_predicates =
     [\<lparr>pname = ''is_tcp'', pexpr = ''protocol = '' @ [CHR 0x27] @ ''TCP'' @ [CHR 0x27]\<rparr>,
      \<lparr>pname = ''is_udp'', pexpr = ''protocol = '' @ [CHR 0x27] @ ''UDP'' @ [CHR 0x27]\<rparr>,
      \<lparr>pname = ''is_large_packet'', pexpr = ''packet_length >= 1000''\<rparr>,
      \<lparr>pname = ''is_https'', pexpr = ''dst_port = 443''\<rparr>]"

text \<open>One item of \<open>spark.predicates\<close>; names and explicit expressions are strings.\<close>

definition parse_predicate :: "(json \<Rightarrow> string) \<Rightarrow> json \<Rightarrow> predicate_spec res" where
  "parse_predicate other item =
     bindE (bindE (jget_or item ''name'' (JStr ''unnamed_predicate'')) jstring) (\<lambda>name.
     bindE (if jhas item ''expr'' then bindE (jget item ''expr'') jstring
            else if jhas item ''protocol''
            then bindE (jget item ''protocol'')
                   (\<lambda>v. Inr (''protocol = '' @ [CHR 0x27] @ py_str other v @ [CHR 0x27]))
            else if jhas item ''min_length''
            then bindE (jget item ''min_length'') (\<lambda>v. Inr (''packet_length >= '' @ py_str other v))
            else if jhas item ''dst_port''
            then bindE (jget item ''dst_port'') (\<lambda>v. Inr (''dst_port = '' @ py_str other v))
            else Inr ''1 = 1'') (\<lambda>expr.
     Inr \<lparr>pname = name, pexpr = expr\<rparr>))"

text \<open>\<open>None\<close> is a missing configuration.\<close>

definition parse_predicates :: "(json \<Rightarrow> string) \<Rightarrow> json option \<Rightarrow> predicate_spec list res" where
  "parse_predicates other cfg =
     (case cfg of
        None \<Rightarrow> Inr default_predicates
      | Some c \<Rightarrow>
          if jtruthy c then
            bindE (jget_or c ''spark'' (JObj [])) (\<lambda>spark_cfg.
            bindE (jget_or spark_cfg ''predicates'' (JArr [])) (\<lambda>raw_list.
            if jtruthy raw_list then bindE (jlist raw_list) (mapE (parse_predicate other))
            else Inr default_predicates))
          else Inr default_predicates)"

section \<open>The plugin\<close>

text \<open>\<open>collections.deque(maxlen=n)\<close>: appending drops the oldest element when full.\<close>

record deque =
  maxlen :: int
  items :: "int list"

definition deque_append :: "int \<Rightarrow> deque \<Rightarrow> deque" where
  "deque_append x q =
     q\<lparr>items := (let xs = items q @ [x] in drop (length xs - nat (maxlen q)) xs)\<rparr>"

record counting_ones =
  co_window_n :: int
  predicates :: "predicate_spec list"
  dgim_map :: "(string, dgim) dict"
  exact_map :: "(string, deque) dict"

record co_row =
  co_ts :: string
  predicate_name :: string
  row_window_n :: int
  exact_ones :: int
  dgim_estimate :: int
  err_pct :: real

text \<open>\<open>for p in ps: if p.name not in dgim_map: ...\<close>\<close>

definition ensure_estimator :: "predicate_spec \<Rightarrow> counting_ones \<Rightarrow> counting_ones res" where
  "ensure_estimator p a =
     (if pname p \<in> set (dkeys (dgim_map a)) then Inr a
      else bindE (dgim_init (co_window_n a)) (\<lambda>d.
           Inr (a\<lparr>dgim_map := dset (pname p) d (dgim_map a),
                  exact_map := dset (pname p) \<lparr>maxlen = co_window_n a, items = []\<rparr> (exact_map a)\<rparr>)))"

definition co_init :: "int \<Rightarrow> predicate_spec list \<Rightarrow> counting_ones res" where
  "co_init n ps =
     (let qs = (if ps \<noteq> [] then ps else default_predicates)
      in foldE (\<lambda>p a. bindE (dgim_init n) (\<lambda>d.
            Inr (a\<lparr>dgim_map := dset (pname p) d (dgim_map a),
                   exact_map := dset (pname p) \<lparr>maxlen = n, items = []\<rparr> (exact_map a)\<rparr>)))
           qs \<lparr>co_window_n = n, predicates = qs, dgim_map = [], exact_map = []\<rparr>)"

text \<open>
  The projected rows have a column \<open>_pred__name\<close> per predicate; \<open>row[name]\<close> reads the
  first column of that name, so the first predicate's expression if two share a name.
\<close>

definition column_expr :: "counting_ones \<Rightarrow> string \<Rightarrow> string" where
  "column_expr a name = dget_or (map (\<lambda>p. (pname p, pexpr p)) (predicates a)) name []"

text \<open>Feeding one bit of one predicate; a missing map entry raises \<open>KeyError\<close>.\<close>

definition feed_bit :: "string \<Rightarrow> int \<Rightarrow> counting_ones \<Rightarrow> counting_ones res" where
  "feed_bit name b a =
     bindE (dlookup (dgim_map a) name) (\<lambda>d.
     bindE (dlookup (exact_map a) name) (\<lambda>q.
     Inr (a\<lparr>dgim_map := dset name (dgim_update b d) (dgim_map a),
            exact_map := dset name (deque_append b q) (exact_map a)\<rparr>)))"

definition feed_row ::
  "(string \<Rightarrow> 'row \<Rightarrow> int option) \<Rightarrow> 'row \<Rightarrow> counting_ones \<Rightarrow> counting_ones res" where
  "feed_row eval row a =
     foldE (\<lambda>p. feed_bit (pname p)
              (case eval (column_expr a (pname p)) row of
                 None \<Rightarrow> 0 | Some v \<Rightarrow> if v \<noteq> 0 then 1 else 0))
       (predicates a) a"

definition report_row :: "string \<Rightarrow> counting_ones \<Rightarrow> predicate_spec \<Rightarrow> co_row res" where
  "report_row ts a p =
     bindE (dlookup (exact_map a) (pname p)) (\<lambda>q.
     bindE (dlookup (dgim_map a) (pname p)) (\<lambda>d.
     let exact = sum_list (items q); est = dgim_query d None
     in Inr \<lparr>co_ts = ts, predicate_name = pname p, row_window_n = co_window_n a,
             exact_ones = exact, dgim_estimate = est,
             err_pct = py_round (if exact > 0
               then real_of_int \<bar>est - exact\<bar> / real_of_int exact * 100 else 0) 2\<rparr>))"

text \<open>The two loops over the capped rows and over the predicates.\<close>

definition co_consume ::
  "(string \<Rightarrow> 'row \<Rightarrow> int option) \<Rightarrow> string \<Rightarrow> 'row list \<Rightarrow> counting_ones
     \<Rightarrow> (counting_ones \<times> co_row list option) res" where
  "co_consume eval ts rows a =
     bindE (foldE (feed_row eval) rows a) (\<lambda>a'.
     bindE (mapE (report_row ts a') (predicates a')) (\<lambda>out.
     Inr (a', Some out)))"

text \<open>
  \<open>process_batch\<close>: the new state and the rows to upsert into \<open>counting_ones\<close>
  (\<open>None\<close> where the handler returns before the upsert).
\<close>

definition co_process_batch ::
  "(json \<Rightarrow> string) \<Rightarrow> (string \<Rightarrow> 'row \<Rightarrow> int option) \<Rightarrow> json \<Rightarrow> string \<Rightarrow> string list \<Rightarrow> 'row list
     \<Rightarrow> counting_ones \<Rightarrow> (counting_ones \<times> co_row list option) res" where
  "co_process_batch other eval cfg ts columns collected a =
     bindE (jget_or cfg ''spark'' (JObj [])) (\<lambda>spark_cfg.
     bindE (jget_or spark_cfg ''max_rows_per_batch'' (JInt 50000)) (\<lambda>max_rows.
     bindE (if jhas spark_cfg ''predicates'' then parse_predicates other (Some cfg)
            else Inr (predicates a)) (\<lambda>configured.
     bindE (foldE ensure_estimator configured a) (\<lambda>a1.
     let a2 = a1\<lparr>predicates := configured\<rparr>
     in if ''event_time'' \<notin> set columns \<and> ''timestamp'' \<notin> set columns then Inr (a2, None)
        else if collected = [] then Inr (a2, None)
        else bindE (jcap max_rows collected) (\<lambda>rows. co_consume eval ts rows a2)))))"

text \<open>
  \<open>snapshot\<close> saves the predicates in use; a predicate without an estimator is skipped.
\<close>

definition predicate_json :: "counting_ones \<Rightarrow> predicate_spec \<Rightarrow> json res" where
  "predicate_json a p =
     bindE (dlookup (dgim_map a) (pname p)) (\<lambda>d.
     bindE (dlookup (exact_map a) (pname p)) (\<lambda>q.
     Inr (JObj [(''name'', JStr (pname p)), (''expr'', JStr (pexpr p)),
                (''dgim'', dgim_snapshot d), (''exact'', JArr (map JInt (items q)))])))"

definition co_snapshot :: "counting_ones \<Rightarrow> json res" where
  "co_snapshot a =
     bindE (mapE (predicate_json a)
              (filter (\<lambda>p. pname p \<in> set (dkeys (dgim_map a))) (predicates a))) (\<lambda>ps.
     Inr (JObj [(''window_n'', JInt (co_window_n a)), (''predicates'', JArr ps)]))"

definition restore_predicate :: "json \<Rightarrow> counting_ones \<Rightarrow> counting_ones res" where
  "restore_predicate j a =
     bindE (bindE (jget j ''name'') jstring) (\<lambda>name.
     bindE (bindE (jget j ''expr'') jstring) (\<lambda>expr.
     bindE (dgim_init (co_window_n a)) (\<lambda>d0.
     bindE (bindE (jget j ''dgim'') (\<lambda>dj. dgim_restore dj d0)) (\<lambda>d.
     bindE (bindE (bindE (jget_or j ''exact'' (JArr [])) jlist) (mapE jint)) (\<lambda>xs.
     Inr (a\<lparr>predicates := predicates a @ [\<lparr>pname = name, pexpr = expr\<rparr>],
            dgim_map := dset name d (dgim_map a),
            exact_map := dset name (fold deque_append xs \<lparr>maxlen = co_window_n a, items = []\<rparr>)
                           (exact_map a)\<rparr>))))))"

definition co_restore :: "json \<Rightarrow> counting_ones \<Rightarrow> counting_ones res" where
  "co_restore j a =
     bindE (bindE (jget j ''window_n'') jint) (\<lambda>n.
     bindE (bindE (jget_or j ''predicates'' (JArr [])) jlist) (\<lambda>ps.
     foldE restore_predicate ps
       (a\<lparr>co_window_n := n, predicates := [], dgim_map := [], exact_map := []\<rparr>)))"

section \<open>Both counters follow the same stream\<close>

text \<open>
  Every estimator of the plugin is a DGIM run over some bit stream, and the deque of the
  same name holds the last \<open>window_n\<close> bits of that stream.
\<close>

definition tracks :: "int \<Rightarrow> dgim \<Rightarrow> deque \<Rightarrow> bool" where
  "tracks n d q \<longleftrightarrow>
     (\<exists>bits. set bits \<subseteq> {0, 1} \<and> d = dgim_feed n bits \<and>
        q = \<lparr>maxlen = n, items = drop (length bits - nat n) bits\<rparr>)"

definition co_inv :: "int \<Rightarrow> counting_ones \<Rightarrow> bool" where
  "co_inv n a \<longleftrightarrow> 0 < n \<and> co_window_n a = n \<and>
     (\<forall>name. rel_option (tracks n) (dget (dgim_map a) name) (dget (exact_map a) name))"

lemma tracks_init: "tracks n \<lparr>window_n = n, current_time = 0, buckets = []\<rparr> \<lparr>maxlen = n, items = []\<rparr>"
  unfolding tracks_def by (rule exI [of _ "[]"]) (simp add: dgim_feed_def)

lemma tracks_feed:
  assumes "tracks n d q" and "b \<in> {0, 1}"
  shows "tracks n (dgim_update b d) (deque_append b q)"
proof -
  from assms(1) obtain bits where bits: "set bits \<subseteq> {0, 1}" "d = dgim_feed n bits"
    "q = \<lparr>maxlen = n, items = drop (length bits - nat n) bits\<rparr>"
    by (auto simp: tracks_def)
  have "drop (length (drop (length bits - nat n) bits @ [b]) - nat n) (drop (length bits - nat n) bits @ [b])
      = drop (length (bits @ [b]) - nat n) (bits @ [b])"
    by (cases "length bits < nat n") (auto simp: Suc_diff_le)
  with bits assms(2) show ?thesis unfolding tracks_def
    by (intro exI [of _ "bits @ [b]"]) (simp add: dgim_feed_snoc deque_append_def Let_def)
qed

lemma tracks_exact:
  assumes "tracks n d q" and "0 < n"
  shows "let c = sum_list (items q); e = dgim_query d None
         in 0 \<le> c \<and> (if c = 1 then e = 0 else 2 * \<bar>e - c\<bar> \<le> c)"
proof -
  from assms(1) obtain bits where bits: "set bits \<subseteq> {0, 1}" "d = dgim_feed n bits"
    "items q = drop (length bits - nat n) bits"
    by (auto simp: tracks_def)
  have sum: "sum_list xs = int (length (filter (\<lambda>b. b \<noteq> 0) xs))" if "set xs \<subseteq> {0, 1}"
    for xs :: "int list" using that by (induction xs) auto
  have c: "sum_list (items q) = int (ones_in_last (nat n) bits)"
    unfolding bits(3) ones_in_last_def using bits(1) by (intro sum) (auto dest: in_set_dropD)
  have L: "0 < n" "n \<le> window_n d" using dgim_feed_inv [OF assms(2), of bits] assms(2) bits(2) by auto
  have "dgim_query d None = query_loop (current_time d - n) (buckets d) 0"
    using dgim_feed_inv [OF assms(2), of bits] assms(2) bits(2)
    by (auto simp: dgim_query_def Let_def)
  moreover have "int (ones_in_last (nat n) bits)
      = int (length (filter (\<lambda>p. current_time d - n < p) (ones_pos (rev bits))))"
    using dgim_feed_inv [OF assms(2), of bits] assms(2) bits(2) by (simp add: ones_in_last_pos)
  moreover have "dgim_inv (ones_pos (rev bits)) d"
    using dgim_feed_inv [OF assms(2), of bits] bits(2) by simp
  ultimately show ?thesis using dgim_query_count [OF _ L] c by (simp add: Let_def)
qed

lemma co_invD:
  "co_inv n a \<Longrightarrow> dget (dgim_map a) k = Some d \<Longrightarrow> dget (exact_map a) k = Some q \<Longrightarrow> tracks n d q"
  unfolding co_inv_def by (metis option.rel_inject(2))

lemma co_inv_set:
  assumes "co_inv n a" and "tracks n d q"
  shows "co_inv n (a\<lparr>dgim_map := dset k d (dgim_map a), exact_map := dset k q (exact_map a)\<rparr>)"
  using assms by (simp add: co_inv_def)

lemma co_inv_ensure: "co_inv n a \<Longrightarrow> ensure_estimator p a = Inr a' \<Longrightarrow> co_inv n a'"
  using co_inv_set tracks_init
  by (auto simp: ensure_estimator_def dgim_init_def co_inv_def split: if_splits)

lemma co_inv_feed_bit:
  assumes "co_inv n a" and "b \<in> {0, 1}" and "feed_bit k b a = Inr a'"
  shows "co_inv n a'"
proof -
  from assms(3) obtain d q where d: "dget (dgim_map a) k = Some d" and q: "dget (exact_map a) k = Some q"
    and a': "a' = a\<lparr>dgim_map := dset k (dgim_update b d) (dgim_map a),
                     exact_map := dset k (deque_append b q) (exact_map a)\<rparr>"
    by (auto simp: feed_bit_def dlookup_def res_simps split: option.splits)
  from co_inv_set [OF assms(1) tracks_feed [OF co_invD [OF assms(1) d q] assms(2)], of k] a'
  show ?thesis by simp
qed

lemma co_inv_feed_row: "co_inv n a \<Longrightarrow> feed_row eval row a = Inr a' \<Longrightarrow> co_inv n a'"
  unfolding feed_row_def
  by (erule foldE_invariant [where I = "co_inv n"]) (auto elim!: co_inv_feed_bit [rotated 2] split: option.splits)

lemma co_inv_init: "co_init n ps = Inr a \<Longrightarrow> co_inv n a"
proof -
  assume init: "co_init n ps = Inr a"
  have n: "0 < n"
  proof (rule ccontr)
    assume "\<not> 0 < n"
    with init show False
      by (cases ps) (auto simp: co_init_def dgim_init_def default_predicates_def Let_def)
  qed
  show ?thesis
    using init unfolding co_init_def Let_def
    by (erule_tac foldE_invariant [where I = "co_inv n"])
       (use n in \<open>auto simp: co_inv_def dgim_init_def tracks_init split: if_splits\<close>)
qed

lemma co_process_batch_inv:
  assumes inv: "co_inv n a" and run: "co_process_batch other eval cfg ts cols rows a = Inr (a', out)"
  shows "co_inv n a' \<and> (\<forall>rs. out = Some rs \<longrightarrow> mapE (report_row ts a') (predicates a') = Inr rs)"
proof -
  from run obtain configured a1 where a1: "foldE ensure_estimator configured a = Inr a1"
    and fin: "\<exists>mr. (let a2 = a1\<lparr>predicates := configured\<rparr>
     in if ''event_time'' \<notin> set cols \<and> ''timestamp'' \<notin> set cols then Inr (a2, None)
        else if rows = [] then Inr (a2, None)
        else bindE (jcap mr rows) (\<lambda>rows. co_consume eval ts rows a2)) = Inr (a', out)"
    unfolding co_process_batch_def bindE_Inr_iff by blast
  from fin have rest: "(a', out) = (a1\<lparr>predicates := configured\<rparr>, None)
      \<or> (\<exists>rows'. co_consume eval ts rows' (a1\<lparr>predicates := configured\<rparr>) = Inr (a', out))"
    by (auto simp: Let_def res_simps split: if_splits)
  have "co_inv n a1"
    using a1 inv by (rule foldE_invariant) (auto intro: co_inv_ensure)
  then have a2: "co_inv n (a1\<lparr>predicates := configured\<rparr>)" by (simp add: co_inv_def)
  from rest show ?thesis
  proof
    assume "(a', out) = (a1\<lparr>predicates := configured\<rparr>, None)"
    with a2 show ?thesis by simp
  next
    assume "\<exists>rows'. co_consume eval ts rows' (a1\<lparr>predicates := configured\<rparr>) = Inr (a', out)"
    then obtain rows' rs where fed: "foldE (feed_row eval) rows' (a1\<lparr>predicates := configured\<rparr>) = Inr a'"
      and "mapE (report_row ts a') (predicates a') = Inr rs" "out = Some rs"
      by (auto simp: co_consume_def res_simps)
    moreover have "co_inv n a'"
      using fed a2 by (rule foldE_invariant) (auto intro: co_inv_feed_row)
    ultimately show ?thesis by auto
  qed
qed

text \<open>One dispatched batch: its configuration, time, columns and collected rows.\<close>

definition co_step ::
  "(json \<Rightarrow> string) \<Rightarrow> (string \<Rightarrow> 'row \<Rightarrow> int option) \<Rightarrow> json \<times> string \<times> string list \<times> 'row list
     \<Rightarrow> counting_ones \<Rightarrow> counting_ones res" where
  "co_step other eval b a =
     (case b of (cfg, ts, cols, rows) \<Rightarrow>
        bindE (co_process_batch other eval cfg ts cols rows a) (\<lambda>r. Inr (fst r)))"

lemma co_inv_step: "co_inv n a \<Longrightarrow> co_step other eval b a = Inr a' \<Longrightarrow> co_inv n a'"
  by (auto simp: co_step_def res_simps split: prod.splits dest: co_process_batch_inv)

section \<open>Property\<close>

text \<open>C27: reported accuracy.  Whatever batches a new plugin has processed before, every row it
  writes to \<open>counting_ones\<close> has an estimate within fifty percent of the exact count kept by
  the deque (0 when that count is one), so the reported \<open>err_pct\<close> is at most 50, or 100 when
  the exact count is one.\<close>

theorem co_reported_error:
  assumes "co_init n ps = Inr a0" and "foldE (co_step other eval) batches a0 = Inr a"
    and "co_process_batch other eval cfg ts cols rows a = Inr (a', Some out)" and "r \<in> set out"
  shows "let c = exact_ones r; e = dgim_estimate r
         in 0 \<le> c \<and> (if c = 1 then e = 0 \<and> err_pct r = 100
                      else 2 * \<bar>e - c\<bar> \<le> c \<and> err_pct r \<le> 50)"
proof -
  have inv: "co_inv n a"
    using assms(2) co_inv_init [OF assms(1)] by (rule foldE_invariant) (auto intro: co_inv_step)
  from co_process_batch_inv [OF inv assms(3)] have inv': "co_inv n a'"
    and out: "mapE (report_row ts a') (predicates a') = Inr out" by auto
  from mapE_in [OF out assms(4)] obtain p where "report_row ts a' p = Inr r" by blast
  then obtain q d where q: "dlookup (exact_map a') (pname p) = Inr q"
    and d: "dlookup (dgim_map a') (pname p) = Inr d"
    and r: "r = \<lparr>co_ts = ts, predicate_name = pname p, row_window_n = co_window_n a',
             exact_ones = sum_list (items q), dgim_estimate = dgim_query d None,
             err_pct = py_round (if sum_list (items q) > 0
               then real_of_int \<bar>dgim_query d None - sum_list (items q)\<bar>
                  / real_of_int (sum_list (items q)) * 100 else 0) 2\<rparr>"
    unfolding report_row_def bindE_Inr_iff Let_def by auto
  have dq: "dget (dgim_map a') (pname p) = Some d" "dget (exact_map a') (pname p) = Some q"
    using d q by (auto simp: dlookup_def split: option.splits)
  have n: "0 < n" using inv' by (simp add: co_inv_def)
  let ?c = "exact_ones r" and ?e = "dgim_estimate r"
  have b: "0 \<le> ?c" "if ?c = 1 then ?e = 0 else 2 * \<bar>?e - ?c\<bar> \<le> ?c"
    using tracks_exact [OF co_invD [OF inv' dq] n] r by (simp_all add: Let_def)
  have err: "err_pct r = py_round (if ?c > 0
      then real_of_int \<bar>?e - ?c\<bar> / real_of_int ?c * 100 else 0) 2" using r by simp
  show ?thesis
  proof (cases "?c = 1")
    case True
    then show ?thesis using b err py_round_of_int [of 100 2] by (simp add: Let_def)
  next
    case False
    then have "real_of_int (2 * \<bar>?e - ?c\<bar>) \<le> real_of_int ?c" using b by (simp only: of_int_le_iff if_False)
    then have "(if ?c > 0 then real_of_int \<bar>?e - ?c\<bar> / real_of_int ?c * 100 else 0) \<le> of_int 50"
      by (auto simp: field_simps)
    then have "err_pct r \<le> py_round (of_int 50) 2" unfolding err by (rule py_round_mono)
    then show ?thesis using b False py_round_of_int [of 50 2] by (simp add: Let_def)
  qed
qed

lemma co_example_init:
  "co_init 4 [\<lparr>pname = ''p'', pexpr = ''e''\<rparr>]
   = Inr \<lparr>co_window_n = 4, predicates = [\<lparr>pname = ''p'', pexpr = ''e''\<rparr>],
          dgim_map = [(''p'', \<lparr>window_n = 4, current_time = 0, buckets = []\<rparr>)],
          exact_map = [(''p'', \<lparr>maxlen = 4, items = []\<rparr>)]\<rparr>"
  by (simp add: co_init_def dgim_init_def)

lemma co_example_batch:
  "co_process_batch (\<lambda>_. []) (\<lambda>_ b. Some b) (JObj []) ''t'' [''event_time''] [1, 1, 1, 0, 1 :: int]
     \<lparr>co_window_n = 4, predicates = [\<lparr>pname = ''p'', pexpr = ''e''\<rparr>],
      dgim_map = [(''p'', \<lparr>window_n = 4, current_time = 0, buckets = []\<rparr>)],
      exact_map = [(''p'', \<lparr>maxlen = 4, items = []\<rparr>)]\<rparr>
   = Inr (\<lparr>co_window_n = 4, predicates = [\<lparr>pname = ''p'', pexpr = ''e''\<rparr>],
           dgim_map = [(''p'', \<lparr>window_n = 4, current_time = 5, buckets =
             [\<lparr>b_timestamp = 5, b_size = 1\<rparr>, \<lparr>b_timestamp = 3, b_size = 1\<rparr>,
              \<lparr>b_timestamp = 2, b_size = 2\<rparr>]\<rparr>)],
           exact_map = [(''p'', \<lparr>maxlen = 4, items = [1, 1, 0, 1]\<rparr>)]\<rparr>,
          Some [\<lparr>co_ts = ''t'', predicate_name = ''p'', row_window_n = 4, exact_ones = 3,
                 dgim_estimate = 3, err_pct = 0\<rparr>])"
  by code_simp

theorem co_reported_error_witness:
  "let r = \<lparr>co_ts = ''t'', predicate_name = ''p'', row_window_n = 4, exact_ones = 3,
            dgim_estimate = 3, err_pct = 0\<rparr>
   in 2 * \<bar>dgim_estimate r - exact_ones r\<bar> \<le> exact_ones r \<and> err_pct r \<le> 50"
  using co_reported_error [where batches = "[]", OF co_example_init _ co_example_batch]
  by (simp add: Let_def)

section \<open>Restart\<close>

text \<open>Every predicate in use has its estimator and its deque.\<close>

definition co_named :: "counting_ones \<Rightarrow> bool" where
  "co_named a \<longleftrightarrow> (\<forall>p \<in> set (predicates a). dget (dgim_map a) (pname p) \<noteq> None)"

lemma ensure_estimator_keys:
  "ensure_estimator p a = Inr a' \<Longrightarrow>
     dget (dgim_map a') (pname p) \<noteq> None \<and> (\<forall>k. dget (dgim_map a) k \<noteq> None \<longrightarrow> dget (dgim_map a') k \<noteq> None)"
  by (cases "pname p \<in> set (dkeys (dgim_map a))")
    (auto simp: ensure_estimator_def res_simps dget_None_iff dkeys_dset simp del: set_map)

lemma ensure_all_keys:
  "foldE ensure_estimator ps a = Inr a' \<Longrightarrow>
     (\<forall>p \<in> set ps. dget (dgim_map a') (pname p) \<noteq> None)
     \<and> (\<forall>k. dget (dgim_map a) k \<noteq> None \<longrightarrow> dget (dgim_map a') k \<noteq> None)"
proof (induction ps arbitrary: a)
  case (Cons p ps)
  then obtain a1 where a1: "ensure_estimator p a = Inr a1" "foldE ensure_estimator ps a1 = Inr a'"
    by (auto simp: res_simps)
  from Cons.IH [OF a1(2)] ensure_estimator_keys [OF a1(1)] show ?case by (auto simp: dget_None_iff)
qed simp

lemma feed_bit_named: "co_named a \<Longrightarrow> feed_bit k b a = Inr a' \<Longrightarrow> co_named a'"
  by (auto simp: feed_bit_def co_named_def res_simps dlookup_def split: option.splits)

lemma feed_row_named: "co_named a \<Longrightarrow> feed_row eval row a = Inr a' \<Longrightarrow> co_named a'"
  unfolding feed_row_def by (erule foldE_invariant [where I = co_named]) (auto intro: feed_bit_named)

lemma co_step_named:
  assumes "co_step other eval b a = Inr a'"
  shows "co_named a'"
proof -
  obtain cfg ts cols rows where b: "b = (cfg, ts, cols, rows)" by (cases b)
  from assms obtain out where "co_process_batch other eval cfg ts cols rows a = Inr (a', out)"
    by (auto simp: b co_step_def res_simps)
  then obtain configured a1 where a1: "foldE ensure_estimator configured a = Inr a1"
    and fin: "\<exists>mr. (let a2 = a1\<lparr>predicates := configured\<rparr>
     in if ''event_time'' \<notin> set cols \<and> ''timestamp'' \<notin> set cols then Inr (a2, None)
        else if rows = [] then Inr (a2, None)
        else bindE (jcap mr rows) (\<lambda>rows. co_consume eval ts rows a2)) = Inr (a', out)"
    unfolding co_process_batch_def bindE_Inr_iff by blast
  have a2: "co_named (a1\<lparr>predicates := configured\<rparr>)"
    using ensure_all_keys [OF a1] by (simp add: co_named_def)
  from fin have "a' = a1\<lparr>predicates := configured\<rparr>
      \<or> (\<exists>rows'. foldE (feed_row eval) rows' (a1\<lparr>predicates := configured\<rparr>) = Inr a')"
    by (auto simp: Let_def res_simps co_consume_def split: if_splits)
  with a2 show ?thesis by (auto elim!: foldE_invariant [where I = co_named] intro: feed_row_named)
qed

lemma co_init_named: "co_init n ps = Inr a \<Longrightarrow> co_named a"
proof -
  assume init: "co_init n ps = Inr a"
  let ?f = "\<lambda>p a. bindE (dgim_init n) (\<lambda>d.
      Inr (a\<lparr>dgim_map := dset (pname p) d (dgim_map a),
             exact_map := dset (pname p) \<lparr>maxlen = n, items = []\<rparr> (exact_map a)\<rparr>))"
  have "foldE ?f qs b = Inr c \<Longrightarrow> predicates c = predicates b
      \<and> (\<forall>p \<in> set qs. dget (dgim_map c) (pname p) \<noteq> None)
      \<and> (\<forall>k. dget (dgim_map b) k \<noteq> None \<longrightarrow> dget (dgim_map c) k \<noteq> None)" for qs b c
  proof (induction qs arbitrary: b)
    case (Cons q qs)
    then obtain b1 where b1: "?f q b = Inr b1" "foldE ?f qs b1 = Inr c" by (auto simp: res_simps)
    from b1(1) have "predicates b1 = predicates b" "dget (dgim_map b1) (pname q) \<noteq> None"
      "\<forall>k. dget (dgim_map b) k \<noteq> None \<longrightarrow> dget (dgim_map b1) k \<noteq> None" by (auto simp: res_simps)
    with Cons.IH [OF b1(2)] show ?case by auto
  qed simp
  from this [OF init [unfolded co_init_def Let_def]] show ?thesis by (simp add: co_named_def)
qed

lemma last_n_snoc:
  "drop (length (drop (length xs - n) xs @ [b]) - n) (drop (length xs - n) xs @ [b])
   = drop (length (xs @ [b]) - n) (xs @ [b])"
  by (cases "length xs < n") (auto simp: Suc_diff_le)

lemma deque_append_all:
  "fold deque_append xs \<lparr>maxlen = n, items = []\<rparr>
   = \<lparr>maxlen = n, items = drop (length xs - nat n) xs\<rparr>"
proof (induction xs rule: rev_induct)
  case (snoc x xs)
  then show ?case using last_n_snoc [of xs "nat n" x] by (simp add: deque_append_def Let_def)
qed simp

lemma deque_rebuild:
  assumes "tracks n d q" shows "fold deque_append (items q) \<lparr>maxlen = n, items = []\<rparr> = q"
  using assms unfolding tracks_def by (auto simp: deque_append_all)

lemma restore_predicates:
  assumes "distinct (map pname ps)" and "co_window_n b = n" and "0 < n"
    and "\<forall>p \<in> set ps. \<exists>d q. dget dm (pname p) = Some d \<and> dget em (pname p) = Some q \<and> tracks n d q"
    and "mapE (predicate_json a) ps = Inr js" and "dgim_map a = dm" and "exact_map a = em"
  shows "\<exists>b'. foldE restore_predicate js b = Inr b' \<and> predicates b' = predicates b @ ps
    \<and> co_window_n b' = n
    \<and> (\<forall>k. dget (dgim_map b') k = (if k \<in> pname ` set ps then dget dm k else dget (dgim_map b) k))
    \<and> (\<forall>k. dget (exact_map b') k = (if k \<in> pname ` set ps then dget em k else dget (exact_map b) k))"
  using assms
proof (induction ps arbitrary: b js)
  case (Cons p ps)
  from Cons.prems(4) obtain d q where dq: "dget dm (pname p) = Some d" "dget em (pname p) = Some q"
    "tracks n d q" by auto
  from Cons.prems(5) obtain j js' where js: "js = j # js'" "predicate_json a p = Inr j"
    "mapE (predicate_json a) ps = Inr js'" by (auto simp: res_simps)
  have j: "j = JObj [(''name'', JStr (pname p)), (''expr'', JStr (pexpr p)),
                (''dgim'', dgim_snapshot d), (''exact'', JArr (map JInt (items q)))]"
    using js(2) dq Cons.prems(6,7) by (simp add: predicate_json_def dlookup_def)
  define b1 where "b1 = b\<lparr>predicates := predicates b @ [p], dgim_map := dset (pname p) d (dgim_map b),
      exact_map := dset (pname p) q (exact_map b)\<rparr>"
  have b1: "restore_predicate j b = Inr b1"
    using Cons.prems(2,3) deque_rebuild [OF dq(3)]
    by (simp add: b1_def j restore_predicate_def dlookup_def dgim_init_def dgim_restore_snapshot
        dget_or_def mapE_map_inverse)
  have "\<exists>b'. foldE restore_predicate js' b1 = Inr b' \<and> predicates b' = predicates b1 @ ps
    \<and> co_window_n b' = n
    \<and> (\<forall>k. dget (dgim_map b') k = (if k \<in> pname ` set ps then dget dm k else dget (dgim_map b1) k))
    \<and> (\<forall>k. dget (exact_map b') k = (if k \<in> pname ` set ps then dget em k else dget (exact_map b1) k))"
    using Cons.prems js(3) by (intro Cons.IH) (simp_all add: b1_def)
  then obtain b' where b': "foldE restore_predicate js' b1 = Inr b'" "predicates b' = predicates b1 @ ps"
    "co_window_n b' = n"
    "\<forall>k. dget (dgim_map b') k = (if k \<in> pname ` set ps then dget dm k else dget (dgim_map b1) k)"
    "\<forall>k. dget (exact_map b') k = (if k \<in> pname ` set ps then dget em k else dget (exact_map b1) k)"
    by blast
  show ?case
    using b' b1 dq(1,2) by (intro exI [of _ b']) (auto simp: js(1) b1_def)
qed simp

text \<open>
  Two plugins that differ only in the estimators of the names \<open>D\<close> go on alike as long as no predicate has a name
  in \<open>D\<close>: the same errors, the same rows, and states that differ only there again.
\<close>

definition co_alike :: "string set \<Rightarrow> counting_ones \<Rightarrow> counting_ones \<Rightarrow> bool" where
  "co_alike D a b \<longleftrightarrow> co_window_n b = co_window_n a \<and> predicates b = predicates a
     \<and> (\<forall>k. k \<notin> D \<longrightarrow> dget (dgim_map b) k = dget (dgim_map a) k \<and> dget (exact_map b) k = dget (exact_map a) k)"

abbreviation same_res :: "('s \<Rightarrow> 't \<Rightarrow> bool) \<Rightarrow> 's res \<Rightarrow> 't res \<Rightarrow> bool" where
  "same_res R \<equiv> rel_sum (=) R"

lemma same_bindE:
  "same_res R m n \<Longrightarrow> (\<And>x y. R x y \<Longrightarrow> same_res S (f x) (g y)) \<Longrightarrow> same_res S (bindE m f) (bindE n g)"
  by (cases m; cases n) auto

lemma same_bindE_left: "(\<And>x. m = Inr x \<Longrightarrow> same_res S (f x) (g x)) \<Longrightarrow> same_res S (bindE m f) (bindE m g)"
  by (cases m) auto

lemma same_foldE:
  assumes "\<And>x a b. x \<in> set xs \<Longrightarrow> R a b \<Longrightarrow> same_res R (f x a) (f x b)" and "R a b"
  shows "same_res R (foldE f xs a) (foldE f xs b)"
  using assms
proof (induction xs arbitrary: a b)
  case (Cons x xs)
  show ?case unfolding foldE.simps
    by (rule same_bindE [where R = R]) (use Cons in auto)
qed simp

lemma alike_ensure:
  assumes "co_alike D a b" and "pname p \<notin> D"
  shows "same_res (co_alike D) (ensure_estimator p a) (ensure_estimator p b)"
proof -
  have "pname p \<in> set (dkeys (dgim_map a)) \<longleftrightarrow> pname p \<in> set (dkeys (dgim_map b))"
    using assms unfolding co_alike_def by (metis dget_None_iff)
  moreover have "co_window_n b = co_window_n a" using assms(1) by (simp add: co_alike_def)
  ultimately show ?thesis using assms(1) unfolding ensure_estimator_def
    by (auto intro!: same_bindE_left) (simp_all add: co_alike_def)
qed

lemma alike_feed_bit:
  assumes "co_alike D a b" and "k \<notin> D"
  shows "same_res (co_alike D) (feed_bit k v a) (feed_bit k v b)"
proof -
  have "dlookup (dgim_map b) k = dlookup (dgim_map a) k" "dlookup (exact_map b) k = dlookup (exact_map a) k"
    using assms by (simp_all add: co_alike_def dlookup_def)
  then show ?thesis using assms(1) unfolding feed_bit_def
    by (auto intro!: same_bindE_left) (simp add: co_alike_def)
qed

lemma alike_feed_row:
  assumes "co_alike D a b" and "pname ` set (predicates a) \<inter> D = {}"
  shows "same_res (co_alike D) (feed_row eval row a) (feed_row eval row b)"
proof -
  have p: "predicates b = predicates a" using assms(1) by (simp add: co_alike_def)
  then have "column_expr b = column_expr a" by (simp add: column_expr_def fun_eq_iff)
  note eq = p this
  show ?thesis unfolding feed_row_def eq
  proof (rule same_foldE)
    fix q c d assume "q \<in> set (predicates a)" "co_alike D c d"
    then show "same_res (co_alike D)
        (feed_bit (pname q) (case eval (column_expr a (pname q)) row of None \<Rightarrow> 0 | Some v \<Rightarrow> if v \<noteq> 0 then 1 else 0) c)
        (feed_bit (pname q) (case eval (column_expr a (pname q)) row of None \<Rightarrow> 0 | Some v \<Rightarrow> if v \<noteq> 0 then 1 else 0) d)"
      using assms(2) by (intro alike_feed_bit) auto
  qed (rule assms(1))
qed

lemma feed_row_predicates: "feed_row eval row a = Inr a' \<Longrightarrow> predicates a' = predicates a"
  unfolding feed_row_def
proof (erule foldE_invariant [where I = "\<lambda>s. predicates s = predicates a"])
  fix p s s' v assume s: "predicates s = predicates a" and "feed_bit (pname p) v s = Inr s'"
  from this(2) have "predicates s' = predicates s" unfolding feed_bit_def bindE_Inr_iff by auto
  with s show "predicates s' = predicates a" by (rule trans [rotated])
qed (rule refl)

text \<open>The estimators of the names in \<open>D\<close> play no part in a report or in a view.\<close>

definition co_view :: "counting_ones \<Rightarrow> int \<times> (predicate_spec \<times> dgim option \<times> deque option) list" where
  "co_view a = (co_window_n a, map (\<lambda>p. (p, dget (dgim_map a) (pname p), dget (exact_map a) (pname p))) (predicates a))"

definition co_avoids :: "string set \<Rightarrow> counting_ones \<Rightarrow> counting_ones \<Rightarrow> bool" where
  "co_avoids D a b \<longleftrightarrow> co_alike D a b \<and> pname ` set (predicates a) \<inter> D = {}"

lemma avoids_view: "co_avoids D a b \<Longrightarrow> co_view b = co_view a"
  by (auto simp: co_avoids_def co_alike_def co_view_def)

lemma avoids_feed_row: "co_avoids D a b \<Longrightarrow> same_res (co_avoids D) (feed_row eval row a) (feed_row eval row b)"
proof -
  assume ab: "co_avoids D a b"
  then have s: "same_res (co_alike D) (feed_row eval row a) (feed_row eval row b)"
    unfolding co_avoids_def by (auto intro: alike_feed_row)
  show ?thesis
  proof (cases "feed_row eval row a")
    case (Inl e)
    with s show ?thesis by (cases "feed_row eval row b") auto
  next
    case (Inr c)
    then obtain d where "feed_row eval row b = Inr d" "co_alike D c d" using s by (cases "feed_row eval row b") auto
    with feed_row_predicates [OF Inr] Inr ab show ?thesis by (simp add: co_avoids_def)
  qed
qed

lemma avoids_report:
  assumes "co_avoids D a b"
  shows "mapE (report_row ts b) (predicates b) = mapE (report_row ts a) (predicates a)"
proof -
  have "mapE (report_row ts b) qs = mapE (report_row ts a) qs" if "set qs \<subseteq> set (predicates a)" for qs
    using that assms
    by (induction qs) (auto simp: report_row_def dlookup_def co_avoids_def co_alike_def disjoint_iff)
  moreover have "predicates b = predicates a" using assms by (simp add: co_avoids_def co_alike_def)
  ultimately show ?thesis by simp
qed

lemma avoids_consume:
  assumes "co_avoids D a b"
  shows "same_res (rel_prod (co_avoids D) (=)) (co_consume eval ts rows a) (co_consume eval ts rows b)"
  unfolding co_consume_def
proof (rule same_bindE [where R = "co_avoids D"])
  show "same_res (co_avoids D) (foldE (feed_row eval) rows a) (foldE (feed_row eval) rows b)"
    by (rule same_foldE) (use assms avoids_feed_row in auto)
  fix x y :: counting_ones assume xy: "co_avoids D x y"
  show "same_res (rel_prod (co_avoids D) (=)) (bindE (mapE (report_row ts x) (predicates x)) (\<lambda>out. Inr (x, Some out)))
    (bindE (mapE (report_row ts y) (predicates y)) (\<lambda>out. Inr (y, Some out)))"
    unfolding avoids_report [OF xy] by (rule same_bindE_left) (simp add: xy)
qed

text \<open>The predicates that a batch configures have no name in \<open>D\<close>.\<close>

definition config_avoids :: "(json \<Rightarrow> string) \<Rightarrow> string set \<Rightarrow> json \<Rightarrow> bool" where
  "config_avoids other D cfg \<longleftrightarrow>
     (\<forall>spark_cfg qs. jget_or cfg ''spark'' (JObj []) = Inr spark_cfg \<longrightarrow> jhas spark_cfg ''predicates''
        \<longrightarrow> parse_predicates other (Some cfg) = Inr qs \<longrightarrow> pname ` set qs \<inter> D = {})"

lemma avoids_batch:
  assumes ab: "co_avoids D a b" and cfg: "config_avoids other D cfg"
  shows "same_res (rel_prod (co_avoids D) (=)) (co_process_batch other eval cfg ts cols rows a)
    (co_process_batch other eval cfg ts cols rows b)"
  unfolding co_process_batch_def
proof (rule same_bindE_left, rule same_bindE_left)
  fix spark_cfg max_rows assume sc: "jget_or cfg ''spark'' (JObj []) = Inr spark_cfg"
  have p: "predicates b = predicates a" using ab by (simp add: co_avoids_def co_alike_def)
  let ?go = "\<lambda>qs s. bindE (foldE ensure_estimator qs s) (\<lambda>a1.
     let a2 = a1\<lparr>predicates := qs\<rparr>
     in if ''event_time'' \<notin> set cols \<and> ''timestamp'' \<notin> set cols then Inr (a2, None)
        else if rows = [] then Inr (a2, None)
        else bindE (jcap max_rows rows) (\<lambda>rows. co_consume eval ts rows a2))"
  have go: "same_res (rel_prod (co_avoids D) (=)) (?go qs a) (?go qs b)" if qs: "pname ` set qs \<inter> D = {}" for qs
  proof (rule same_bindE [where R = "co_alike D"])
    show "same_res (co_alike D) (foldE ensure_estimator qs a) (foldE ensure_estimator qs b)"
      by (rule same_foldE) (use qs ab in \<open>auto intro!: alike_ensure simp: co_avoids_def\<close>)
    fix x y assume "co_alike D x y"
    then have "co_avoids D (x\<lparr>predicates := qs\<rparr>) (y\<lparr>predicates := qs\<rparr>)"
      using qs by (simp add: co_avoids_def co_alike_def)
    then show "same_res (rel_prod (co_avoids D) (=))
      (let a2 = x\<lparr>predicates := qs\<rparr>
       in if ''event_time'' \<notin> set cols \<and> ''timestamp'' \<notin> set cols then Inr (a2, None)
          else if rows = [] then Inr (a2, None)
          else bindE (jcap max_rows rows) (\<lambda>rows. co_consume eval ts rows a2))
      (let a2 = y\<lparr>predicates := qs\<rparr>
       in if ''event_time'' \<notin> set cols \<and> ''timestamp'' \<notin> set cols then Inr (a2, None)
          else if rows = [] then Inr (a2, None)
          else bindE (jcap max_rows rows) (\<lambda>rows. co_consume eval ts rows a2))"
      by (simp add: Let_def) (auto intro!: same_bindE_left avoids_consume)
  qed
  show "same_res (rel_prod (co_avoids D) (=))
    (bindE (if jhas spark_cfg ''predicates'' then parse_predicates other (Some cfg) else Inr (predicates a)) (\<lambda>qs. ?go qs a))
    (bindE (if jhas spark_cfg ''predicates'' then parse_predicates other (Some cfg) else Inr (predicates b)) (\<lambda>qs. ?go qs b))"
    unfolding p
    by (rule same_bindE_left, rule go) (use cfg sc ab in \<open>auto simp: config_avoids_def co_avoids_def split: if_splits\<close>)
qed

text \<open>A run of batches, with what each of them writes.\<close>

definition co_batch ::
  "(json \<Rightarrow> string) \<Rightarrow> (string \<Rightarrow> 'row \<Rightarrow> int option) \<Rightarrow> json \<times> string \<times> string list \<times> 'row list
     \<Rightarrow> counting_ones \<times> co_row list option list \<Rightarrow> (counting_ones \<times> co_row list option list) res" where
  "co_batch other eval b s =
     (case b of (cfg, ts, cols, rows) \<Rightarrow>
        bindE (co_process_batch other eval cfg ts cols rows (fst s)) (\<lambda>(s', out). Inr (s', snd s @ [out])))"

definition co_run ::
  "(json \<Rightarrow> string) \<Rightarrow> (string \<Rightarrow> 'row \<Rightarrow> int option) \<Rightarrow> (json \<times> string \<times> string list \<times> 'row list) list
     \<Rightarrow> counting_ones \<Rightarrow> (counting_ones \<times> co_row list option list) res" where
  "co_run other eval batches a = foldE (co_batch other eval) batches (a, [])"

lemma avoids_run:
  assumes ab: "co_avoids D a b" and "\<forall>c \<in> set batches. config_avoids other D (fst c)"
  shows "same_res (rel_prod (co_avoids D) (=)) (co_run other eval batches a) (co_run other eval batches b)"
  unfolding co_run_def
proof (rule same_foldE)
  fix c and x y :: "counting_ones \<times> co_row list option list"
  assume c: "c \<in> set batches" and xy: "rel_prod (co_avoids D) (=) x y"
  obtain cfg ts cols rows where cc: "c = (cfg, ts, cols, rows)" by (cases c)
  have st: "co_avoids D (fst x) (fst y)" "snd y = snd x" using xy by (cases x; cases y; auto)+
  have "config_avoids other D cfg" using assms(2) c by (auto simp: cc)
  from avoids_batch [OF st(1) this]
  show "same_res (rel_prod (co_avoids D) (=)) (co_batch other eval c x) (co_batch other eval c y)"
    unfolding cc co_batch_def prod.case st(2) by (rule same_bindE) auto
qed (simp add: ab)

lemma restored_avoids:
  assumes "co_init n ps = Inr a0" and "foldE (co_step other eval) batches a0 = Inr a"
    and "distinct (map pname (predicates a))"
  shows "\<exists>j a'. co_snapshot a = Inr j \<and> co_restore j fresh = Inr a'
    \<and> co_avoids (set (dkeys (dgim_map a)) - pname ` set (predicates a)) a a'"
proof -
  have inv: "co_inv n a" using assms(2) co_inv_init [OF assms(1)]
    by (rule foldE_invariant) (auto intro: co_inv_step)
  have named: "co_named a" using assms(2) co_init_named [OF assms(1)]
    by (rule foldE_invariant) (auto intro: co_step_named)
  have n: "0 < n" "co_window_n a = n" using inv by (auto simp: co_inv_def)
  have all: "\<forall>p \<in> set (predicates a). \<exists>d q. dget (dgim_map a) (pname p) = Some d
      \<and> dget (exact_map a) (pname p) = Some q \<and> tracks n d q"
    using inv named unfolding co_inv_def co_named_def by (metis option.rel_cases)
  define js where "js = map (\<lambda>p. case (dget (dgim_map a) (pname p), dget (exact_map a) (pname p)) of
      (Some d, Some q) \<Rightarrow> JObj [(''name'', JStr (pname p)), (''expr'', JStr (pexpr p)),
        (''dgim'', dgim_snapshot d), (''exact'', JArr (map JInt (items q)))]) (predicates a)"
  have js: "mapE (predicate_json a) (predicates a) = Inr js" unfolding js_def
    using all by (intro mapE_all) (fastforce simp: predicate_json_def dlookup_def)
  have keep: "filter (\<lambda>p. pname p \<in> set (dkeys (dgim_map a))) (predicates a) = predicates a"
    using named by (intro filter_True) (auto simp: co_named_def dget_None_iff)
  have snap: "co_snapshot a = Inr (JObj [(''window_n'', JInt n), (''predicates'', JArr js)])"
    unfolding co_snapshot_def keep js by (simp add: n)
  let ?b = "fresh\<lparr>co_window_n := n, predicates := [], dgim_map := [], exact_map := []\<rparr>"
  from restore_predicates [OF assms(3) _ n(1) all js refl refl, of ?b] obtain a' where
    a': "foldE restore_predicate js ?b = Inr a'" "predicates a' = predicates a" "co_window_n a' = n"
    "\<forall>k. dget (dgim_map a') k = (if k \<in> pname ` set (predicates a) then dget (dgim_map a) k else None)"
    "\<forall>k. dget (exact_map a') k = (if k \<in> pname ` set (predicates a) then dget (exact_map a) k else None)"
    by auto
  have "dget (exact_map a) k = None" if "k \<notin> set (dkeys (dgim_map a))" for k
  proof -
    have "dget (dgim_map a) k = None" using that by (simp only: dget_None_iff not_False_eq_True)
    moreover have "rel_option (tracks n) (dget (dgim_map a) k) (dget (exact_map a) k)" using inv by (simp add: co_inv_def)
    ultimately show ?thesis by (cases "dget (exact_map a) k") simp_all
  qed
  moreover have "dget (dgim_map a) k = None" if "k \<notin> set (dkeys (dgim_map a))" for k
    using that by (simp only: dget_None_iff not_False_eq_True)
  ultimately have "co_avoids (set (dkeys (dgim_map a)) - pname ` set (predicates a)) a a'"
    unfolding co_avoids_def co_alike_def using a'(2-5) n(2) by auto
  then show ?thesis using snap a'(1) by (auto simp: co_restore_def dlookup_def dget_or_def)
qed

text \<open>C28: restart.  Take the snapshot of a plugin after any batches, its predicates having different names, and
  restore it into any other plugin object: neither step fails, and the restored plugin has the same window, the
  same predicates in the same order, and for each the same estimator and the same deque.  Going on with any further
  batches, both plugins then raise the same error or write the same rows in every batch, and agree in the same way
  after them, as long as no batch configures a predicate whose name was in use once, but not at the snapshot.\<close>

theorem co_restart:
  assumes "co_init n ps = Inr a0" and "foldE (co_step other eval) batches a0 = Inr a"
    and "distinct (map pname (predicates a))"
    and "\<forall>b \<in> set rest. config_avoids other (set (dkeys (dgim_map a)) - pname ` set (predicates a)) (fst b)"
  shows "\<exists>j a'. co_snapshot a = Inr j \<and> co_restore j fresh = Inr a' \<and> co_view a' = co_view a
    \<and> (case co_run other eval rest a of
         Inl e \<Rightarrow> co_run other eval rest a' = Inl e
       | Inr (b, written) \<Rightarrow> \<exists>b'. co_run other eval rest a' = Inr (b', written) \<and> co_view b' = co_view b)"
proof -
  let ?D = "set (dkeys (dgim_map a)) - pname ` set (predicates a)"
  from restored_avoids [OF assms(1-3)] obtain j a' where
    j: "co_snapshot a = Inr j" "co_restore j fresh = Inr a'" "co_avoids ?D a a'" by blast
  have run: "same_res (rel_prod (co_avoids ?D) (=)) (co_run other eval rest a) (co_run other eval rest a')"
    by (rule avoids_run [OF j(3) assms(4)])
  have "case co_run other eval rest a of
         Inl e \<Rightarrow> co_run other eval rest a' = Inl e
       | Inr (b, written) \<Rightarrow> \<exists>b'. co_run other eval rest a' = Inr (b', written) \<and> co_view b' = co_view b"
  proof (cases "co_run other eval rest a")
    case (Inl e)
    with run show ?thesis by (cases "co_run other eval rest a'") auto
  next
    case (Inr r)
    with run show ?thesis by (cases "co_run other eval rest a'") (auto simp: avoids_view)
  qed
  with j avoids_view [OF j(3)] show ?thesis by blast
qed

definition co_example :: counting_ones where
  "co_example = \<lparr>co_window_n = 4, predicates = [\<lparr>pname = ''p'', pexpr = ''e''\<rparr>],
      dgim_map = [(''p'', \<lparr>window_n = 4, current_time = 0, buckets = []\<rparr>)],
      exact_map = [(''p'', \<lparr>maxlen = 4, items = []\<rparr>)]\<rparr>"

definition five_rows :: "(json \<times> string \<times> string list \<times> int list) list" where
  "five_rows = [(JObj [], ''t'', [''event_time''], [1, 1, 1, 0, 1])]"

theorem co_restart_witness:
  "\<exists>j a' b. co_snapshot co_example = Inr j \<and> co_restore j co_example = Inr a'
    \<and> co_run (\<lambda>_. []) (\<lambda>_ b. Some b) five_rows a' = Inr (b, [Some [\<lparr>co_ts = ''t'', predicate_name = ''p'',
        row_window_n = 4, exact_ones = 3, dgim_estimate = 3, err_pct = 0\<rparr>]])"
    (is "\<exists>j a' b. _ \<and> _ \<and> ?run a' = Inr (b, ?rows)")
proof -
  obtain b where b: "?run co_example = Inr (b, ?rows)"
    by (simp add: co_run_def co_batch_def co_example_def co_example_batch five_rows_def)
  have names: "set (dkeys (dgim_map co_example)) - pname ` set (predicates co_example) = {}"
    "distinct (map pname (predicates co_example))" by (simp_all add: co_example_def)
  have cfg: "\<forall>b \<in> set five_rows. config_avoids (\<lambda>_. []) {} (fst b)"
    by (simp add: config_avoids_def five_rows_def)
  have init: "co_init 4 [\<lparr>pname = ''p'', pexpr = ''e''\<rparr>] = Inr co_example"
    unfolding co_example_def by (rule co_example_init)
  have nil: "foldE (co_step (\<lambda>_. []) (\<lambda>_ b. Some b)) [] co_example = Inr co_example" by (rule foldE.simps(1))
  from co_restart [OF init nil names(2), unfolded names(1), OF cfg, of co_example] b show ?thesis
    by (simp only: sum.case prod.case) blast
qed

text \<open>The condition on the names is needed: a predicate that is taken out of the configuration keeps its estimator,
  but not in the snapshot, so that after a restart it starts from nothing when it is put in again.\<close>

definition predicates_cfg :: "string list \<Rightarrow> json" where
  "predicates_cfg names = JObj [(''spark'', JObj [(''predicates'',
     JArr (map (\<lambda>n. JObj [(''name'', JStr n), (''expr'', JStr ''e'')]) names))])]"

definition p_q_batches :: "(json \<times> string \<times> string list \<times> int list) list" where
  "p_q_batches = [(predicates_cfg [''p''], ''t1'', [''event_time''], [1]), (predicates_cfg [''q''], ''t2'', [''event_time''], [1])]"

definition p_again :: "(json \<times> string \<times> string list \<times> int list) list" where
  "p_again = [(predicates_cfg [''p''], ''t3'', [''event_time''], [1])]"

definition counts_of :: "(counting_ones \<times> co_row list option list) res \<Rightarrow> int list res" where
  "counts_of r = bindE r (\<lambda>(s, outs). Inr (concat (map (\<lambda>out. case out of None \<Rightarrow> [] | Some rs \<Rightarrow> map exact_ones rs) outs)))"

lemma co_dropped_predicate:
  "bindE (foldE (co_step (\<lambda>_. []) (\<lambda>_ b. Some b)) p_q_batches co_example)
     (\<lambda>a. counts_of (co_run (\<lambda>_. []) (\<lambda>_ b. Some b) p_again a)) = Inr [2]"
  "bindE (foldE (co_step (\<lambda>_. []) (\<lambda>_ b. Some b)) p_q_batches co_example)
     (\<lambda>a. bindE (co_snapshot a) (\<lambda>j. bindE (co_restore j co_example)
       (\<lambda>a'. counts_of (co_run (\<lambda>_. []) (\<lambda>_ b. Some b) p_again a')))) = Inr [1]"
  by code_simp+

end
