(* ===== verification/Sampling.thy ===== *)
theory Sampling
  imports Prelude "HOL-Library.Multiset"
begin

text \<open>
  Stream sampling (\<open>streaming/analytics/sampling.py\<close>): the reservoir sampler of
  Algorithm R, Bernoulli sampling, and the plugin \<open>SamplingAnalytic\<close>.

  The random generator is an abstract state: \<open>randint g a b\<close> draws an integer of
  \<open>{a..b}\<close> and \<open>random01 g\<close> a float of \<open>[0, 1)\<close>, each with the next state;
  \<open>seeded\<close> is \<open>random.Random(seed)\<close>.
\<close>

section \<open>The reservoir\<close>

record ('a, 'g) reservoir =
  rk :: int
  rseed :: "int option"
  rng :: 'g
  sample_list :: "'a list"
  n_seen :: int

definition reservoir_init :: "(int option \<Rightarrow> 'g) \<Rightarrow> int \<Rightarrow> int option \<Rightarrow> ('a, 'g) reservoir res" where
  "reservoir_init seeded k seed =
     (if k \<le> 0 then Inl ValueError
      else Inr \<lparr>rk = k, rseed = seed, rng = seeded seed, sample_list = [], n_seen = 0\<rparr>)"

text \<open>The result pairs the returned flag with the new state.\<close>

definition reservoir_add ::
  "('g \<Rightarrow> int \<Rightarrow> int \<Rightarrow> int \<times> 'g) \<Rightarrow> 'a \<Rightarrow> ('a, 'g) reservoir \<Rightarrow> (bool \<times> ('a, 'g) reservoir) res" where
  "reservoir_add randint item r =
     (if n_seen r < rk r
      then Inr (True, r\<lparr>sample_list := sample_list r @ [item], n_seen := n_seen r + 1\<rparr>)
      else let (j, g) = randint (rng r) 0 (n_seen r);
               r' = r\<lparr>rng := g, n_seen := n_seen r + 1\<rparr>
           in if j < rk r
              then if nat j < length (sample_list r)
                   then Inr (True, r'\<lparr>sample_list := (sample_list r)[nat j := item]\<rparr>)
                   else Inl IndexError
              else Inr (False, r'))"

definition reservoir_sample :: "('a, 'g) reservoir \<Rightarrow> 'a list" where
  "reservoir_sample r = sample_list r"

definition reservoir_reset :: "(int option \<Rightarrow> 'g) \<Rightarrow> ('a, 'g) reservoir \<Rightarrow> ('a, 'g) reservoir" where
  "reservoir_reset seeded r = r\<lparr>sample_list := [], n_seen := 0, rng := seeded (rseed r)\<rparr>"

definition reservoir_snapshot :: "(int, 'g) reservoir \<Rightarrow> json" where
  "reservoir_snapshot r =
     JObj [(''k'', JInt (rk r)), (''n_seen'', JInt (n_seen r)),
           (''sample'', JArr (map JInt (sample_list r)))]"

definition reservoir_restore :: "json \<Rightarrow> (int, 'g) reservoir \<Rightarrow> (int, 'g) reservoir res" where
  "reservoir_restore j r =
     bindE (bindE (jget j ''k'') jint) (\<lambda>k.
     bindE (bindE (jget j ''n_seen'') jint) (\<lambda>n.
     bindE (bindE (bindE (jget j ''sample'') jlist) (mapE jint)) (\<lambda>xs.
     Inr (r\<lparr>rk := k, n_seen := n, sample_list := xs\<rparr>))))"

definition reservoir_add_all ::
  "('g \<Rightarrow> int \<Rightarrow> int \<Rightarrow> int \<times> 'g) \<Rightarrow> 'a list \<Rightarrow> ('a, 'g) reservoir \<Rightarrow> ('a, 'g) reservoir res" where
  "reservoir_add_all randint xs r =
     foldE (\<lambda>x r. bindE (reservoir_add randint x r) (\<lambda>p. Inr (snd p))) xs r"

section \<open>Bernoulli sampling\<close>

fun bernoulli_loop :: "('g \<Rightarrow> real \<times> 'g) \<Rightarrow> real \<Rightarrow> 'g \<Rightarrow> 'a list \<Rightarrow> 'a list" where
  "bernoulli_loop random01 p g [] = []"
| "bernoulli_loop random01 p g (x # xs) =
     (let (u, g') = random01 g
      in if u < p then x # bernoulli_loop random01 p g' xs else bernoulli_loop random01 p g' xs)"

definition bernoulli_sample ::
  "(int option \<Rightarrow> 'g) \<Rightarrow> ('g \<Rightarrow> real \<times> 'g) \<Rightarrow> 'a list \<Rightarrow> real \<Rightarrow> int option \<Rightarrow> 'a list res" where
  "bernoulli_sample seeded random01 xs p seed =
     (if \<not> (0 \<le> p \<and> p \<le> 1) then Inl ValueError
      else Inr (bernoulli_loop random01 p (seeded seed) xs))"

section \<open>The plugin\<close>

record 'g sampling =
  sk :: int
  sp :: real
  sseed :: int
  sreservoir :: "(int, 'g) reservoir"
  cumulative_len_sum :: int
  cumulative_len_count :: int

record compare_row =
  cr_ts :: string
  cr_method :: string
  cr_k :: int
  cr_sample_n :: int
  cr_sample_mean_len :: real
  cr_full_mean_len :: real
  cr_err_pct :: real

definition sampling_init :: "(int option \<Rightarrow> 'g) \<Rightarrow> int \<Rightarrow> real \<Rightarrow> int \<Rightarrow> 'g sampling res" where
  "sampling_init seeded k p seed =
     bindE (reservoir_init seeded k (Some seed)) (\<lambda>r.
     Inr \<lparr>sk = k, sp = p, sseed = seed, sreservoir = r, cumulative_len_sum = 0,
          cumulative_len_count = 0\<rparr>)"

text \<open>\<open>sum(xs) / len(xs) if xs else 0.0\<close> and the relative error in percent.\<close>

definition mean_or_zero :: "int list \<Rightarrow> real" where
  "mean_or_zero xs = (if xs = [] then 0 else of_int (sum_list xs) / of_nat (length xs))"

definition pct_error :: "real \<Rightarrow> real \<Rightarrow> real" where
  "pct_error est full = (if full > 0 then \<bar>est - full\<bar> / full * 100 else 0)"

text \<open>A changed \<open>sampling.k\<close> restarts the reservoir and the cumulative mean.\<close>

definition sampling_retarget :: "(int option \<Rightarrow> 'g) \<Rightarrow> int \<Rightarrow> 'g sampling \<Rightarrow> 'g sampling res" where
  "sampling_retarget seeded target s =
     (if target \<noteq> rk (sreservoir s)
      then bindE (reservoir_init seeded target (Some (sseed s))) (\<lambda>r.
           Inr (s\<lparr>sreservoir := r, sk := target, cumulative_len_sum := 0, cumulative_len_count := 0\<rparr>))
      else Inr s)"

text \<open>
  \<open>lengths\<close> are the collected non-null \<open>packet_length\<close> values of the batch. The result
  is the new state and the two rows upserted into \<open>sampling_compare\<close>.
\<close>

definition sampling_process_batch ::
  "(int option \<Rightarrow> 'g) \<Rightarrow> ('g \<Rightarrow> int \<Rightarrow> int \<Rightarrow> int \<times> 'g) \<Rightarrow> ('g \<Rightarrow> real \<times> 'g) \<Rightarrow> json \<Rightarrow> string \<Rightarrow> int
     \<Rightarrow> int list \<Rightarrow> 'g sampling \<Rightarrow> ('g sampling \<times> compare_row list) res" where
  "sampling_process_batch seeded randint random01 cfg ts batch_id lengths s0 =
     bindE (jget_or cfg ''spark'' (JObj [])) (\<lambda>spark_cfg.
     bindE (jget_or spark_cfg ''max_rows_per_batch'' (JInt 50000)) (\<lambda>max_rows.
     bindE (jget_or spark_cfg ''sampling'' (JObj [])) (\<lambda>sampling_cfg.
     bindE (bindE (jget_or sampling_cfg ''k'' (JInt (sk s0))) jint) (\<lambda>target.
     bindE (sampling_retarget seeded target s0) (\<lambda>s1.
     if lengths = [] then Inr (s1, [])
     else
       bindE (jcap max_rows lengths) (\<lambda>packet_lengths.
       if packet_lengths = [] then Inl ZeroDivisionError
       else
         let batch_mean = mean_or_zero packet_lengths;
             tot = cumulative_len_sum s1 + sum_list packet_lengths;
             cnt = cumulative_len_count s1 + int (length packet_lengths)
         in if cnt = 0 then Inl ZeroDivisionError
         else
         bindE (reservoir_add_all randint packet_lengths (sreservoir s1)) (\<lambda>r.
         bindE (bernoulli_sample seeded random01 packet_lengths (sp s1) (Some (sseed s1 + batch_id)))
         (\<lambda>bern.
         let stream_mean = of_int tot / of_int cnt;
             res = reservoir_sample r;
             res_mean = mean_or_zero res;
             bern_mean = mean_or_zero bern
         in Inr (s1\<lparr>sreservoir := r, cumulative_len_sum := tot, cumulative_len_count := cnt\<rparr>,
              [\<lparr>cr_ts = ts, cr_method = ''reservoir'', cr_k = rk r, cr_sample_n = int (length res),
                cr_sample_mean_len = py_round res_mean 2, cr_full_mean_len = py_round stream_mean 2,
                cr_err_pct = py_round (pct_error res_mean stream_mean) 2\<rparr>,
               \<lparr>cr_ts = ts, cr_method = ''bernoulli'',
                cr_k = \<lfloor>real (length packet_lengths) * sp s1\<rfloor>, cr_sample_n = int (length bern),
                cr_sample_mean_len = py_round bern_mean 2, cr_full_mean_len = py_round batch_mean 2,
                cr_err_pct = py_round (pct_error bern_mean batch_mean) 2\<rparr>])))))))))"

section \<open>The reservoir invariant\<close>

text \<open>
  After the stream \<open>xs\<close> the sampler holds \<open>min k (length xs)\<close> of its items, each stream
  position used at most once; while the stream fits, it holds the stream itself.
\<close>

definition reservoir_inv :: "'a list \<Rightarrow> ('a, 'g) reservoir \<Rightarrow> bool" where
  "reservoir_inv xs r \<longleftrightarrow>
     0 < rk r \<and> n_seen r = int (length xs) \<and>
     int (length (sample_list r)) = min (rk r) (n_seen r) \<and>
     (\<exists>ps. distinct ps \<and> set ps \<subseteq> {..<length xs} \<and> sample_list r = map ((!) xs) ps) \<and>
     (n_seen r \<le> rk r \<longrightarrow> sample_list r = xs)"

lemma reservoir_invI:
  assumes "0 < rk r" "n_seen r = int (length xs)"
    and "int (length (sample_list r)) = min (rk r) (n_seen r)"
    and "distinct ps" "set ps \<subseteq> {..<length xs}" "sample_list r = map ((!) xs) ps"
    and "n_seen r \<le> rk r \<Longrightarrow> sample_list r = xs"
  shows "reservoir_inv xs r"
  unfolding reservoir_inv_def using assms by (intro conjI exI [of _ ps]) simp_all

lemma reservoir_add_inv:
  assumes good: "good_randint randint" and inv: "reservoir_inv xs r"
  shows "\<exists>flag r'. reservoir_add randint x r = Inr (flag, r') \<and> reservoir_inv (xs @ [x]) r' \<and> rk r' = rk r"
proof -
  from inv obtain ps where k: "0 < rk r" and n: "n_seen r = int (length xs)"
    and len: "int (length (sample_list r)) = min (rk r) (n_seen r)"
    and ps: "distinct ps" "set ps \<subseteq> {..<length xs}" "sample_list r = map ((!) xs) ps"
    and fit: "n_seen r \<le> rk r \<longrightarrow> sample_list r = xs"
    unfolding reservoir_inv_def by blast
  have nth: "map ((!) (xs @ [x])) ps = map ((!) xs) ps"
    using ps(2) by (auto simp: nth_append)
  show ?thesis
  proof (cases "n_seen r < rk r")
    case True
    have "sample_list r @ [x] = map ((!) (xs @ [x])) (ps @ [length xs])" using ps(3) nth by simp
    moreover have "distinct (ps @ [length xs])" "set (ps @ [length xs]) \<subseteq> {..<length (xs @ [x])}"
      using ps(1,2) by auto
    moreover have "sample_list r = xs" using True fit by simp
    ultimately have "reservoir_inv (xs @ [x])
        (r\<lparr>sample_list := sample_list r @ [x], n_seen := n_seen r + 1\<rparr>)"
      using True k n len by (intro reservoir_invI [of _ _ "ps @ [length xs]"]) simp_all
    with True show ?thesis by (auto simp: reservoir_add_def)
  next
    case False
    obtain j g where j: "randint (rng r) 0 (n_seen r) = (j, g)" by fastforce
    with good n have range: "0 \<le> j" "j \<le> n_seen r"
      unfolding good_randint_def by (metis fst_conv of_nat_0_le_iff)+
    have lk: "int (length ps) = rk r" using False len ps(3) by auto
    have big: "\<not> n_seen r + 1 \<le> rk r" using False by simp
    show ?thesis
    proof (cases "j < rk r")
      case True
      let ?qs = "ps[nat j := length xs]"
      have jl: "nat j < length ps" using True range lk by (simp add: nat_less_iff)
      have "distinct ?qs" using ps(1,2) by (intro distinct_list_update) auto
      moreover have "set ?qs \<subseteq> {..<length (xs @ [x])}"
        using ps(2) set_update_subset_insert [of ps "nat j" "length xs"] by fastforce
      moreover have "(sample_list r)[nat j := x] = map ((!) (xs @ [x])) ?qs"
        by (simp only: ps(3) map_update nth nth_append_length)
      ultimately have "reservoir_inv (xs @ [x])
          (r\<lparr>rng := g, n_seen := n_seen r + 1, sample_list := (sample_list r)[nat j := x]\<rparr>)"
        using k n len big lk False by (intro reservoir_invI [of _ _ ?qs]) simp_all
      with True False j jl ps(3) show ?thesis by (auto simp: reservoir_add_def Let_def)
    next
      case no: False
      have "set ps \<subseteq> {..<length (xs @ [x])}" using ps(2) by auto
      then have "reservoir_inv (xs @ [x]) (r\<lparr>rng := g, n_seen := n_seen r + 1\<rparr>)"
        using k n len ps(1,3) nth big False by (intro reservoir_invI [of _ _ ps]) simp_all
      with no False j show ?thesis by (auto simp: reservoir_add_def Let_def)
    qed
  qed
qed

lemma reservoir_add_all_inv:
  assumes "good_randint randint" and "reservoir_inv xs r"
  shows "\<exists>r'. reservoir_add_all randint ys r = Inr r' \<and> reservoir_inv (xs @ ys) r' \<and> rk r' = rk r"
  using assms(2)
proof (induction ys arbitrary: xs r)
  case Nil
  then show ?case by (simp add: reservoir_add_all_def)
next
  case (Cons y ys)
  from reservoir_add_inv [OF assms(1) Cons.prems, of y] obtain flag r1 where
    r1: "reservoir_add randint y r = Inr (flag, r1)" "reservoir_inv (xs @ [y]) r1" "rk r1 = rk r"
    by blast
  from Cons.IH [OF r1(2)] r1 show ?case by (simp add: reservoir_add_all_def)
qed

section \<open>Uniformity\<close>

text \<open>
  All draw sequences that \<open>m\<close> items
  beyond the first \<open>k\<close> can meet: the \<open>i\<close>-th of them is any integer of \<open>{0..k + i}\<close>,
  all equally likely under \<open>randint(0, n_seen)\<close>.
\<close>

fun draws :: "nat \<Rightarrow> nat \<Rightarrow> int list list" where
  "draws k 0 = [[]]"
| "draws k (Suc m) = concat (map (\<lambda>ds. map (\<lambda>j. ds @ [int j]) [0..<Suc (k + m)]) (draws k m))"

text \<open>The final sample over the stream \<open>0, 1, ..., n - 1\<close>.\<close>

definition reservoir_after :: "nat \<Rightarrow> nat \<Rightarrow> int list \<Rightarrow> nat list" where
  "reservoir_after k n ds =
     (case reservoir_add_all replay_randint [0..<n]
             \<lparr>rk = int k, rseed = None, rng = ds, sample_list = [], n_seen = 0\<rparr> of
        Inl _ \<Rightarrow> [] | Inr r \<Rightarrow> sample_list r)"

text \<open>The sampler as a function of the draws alone: the reference the code is compared with.\<close>

fun reservoir_ref :: "nat \<Rightarrow> int list \<Rightarrow> nat list" where
  "reservoir_ref k [] = [0..<k]"
| "reservoir_ref k (j # ds) =
     (let s = reservoir_ref k ds in if j < int k then s[nat j := k + length ds] else s)"

lemma reservoir_ref_inv:
  "\<forall>j \<in> set ds. 0 \<le> j \<Longrightarrow> length (reservoir_ref k ds) = k \<and> distinct (reservoir_ref k ds)
     \<and> set (reservoir_ref k ds) \<subseteq> {..<k + length ds}"
proof (induction ds)
  case (Cons j ds)
  let ?s = "reservoir_ref k ds"
  have IH: "length ?s = k" "distinct ?s" "set ?s \<subseteq> {..<k + length ds}" using Cons by auto
  have "set (?s[nat j := k + length ds]) \<subseteq> insert (k + length ds) (set ?s)"
    by (rule set_update_subset_insert)
  moreover have "distinct (?s[nat j := k + length ds])"
    using IH by (intro distinct_list_update) auto
  ultimately show ?case using IH by (auto simp: Let_def)
qed auto

lemma reservoir_add_all_append:
  "reservoir_add_all f (xs @ ys) r = bindE (reservoir_add_all f xs r) (reservoir_add_all f ys)"
  by (simp add: reservoir_add_all_def [abs_def] foldE_append)

lemma reservoir_add_all_one:
  "reservoir_add_all f [x] r = bindE (reservoir_add f x r) (\<lambda>p. Inr (snd p))"
  by (cases "reservoir_add f x r") (simp_all add: reservoir_add_all_def)

lemma reservoir_fill:
  "n \<le> k \<Longrightarrow> reservoir_add_all replay_randint [0..<n]
      \<lparr>rk = int k, rseed = None, rng = ds, sample_list = [], n_seen = 0\<rparr>
    = Inr \<lparr>rk = int k, rseed = None, rng = ds, sample_list = [0..<n], n_seen = int n\<rparr>"
proof (induction n)
  case 0
  then show ?case by (simp add: reservoir_add_all_def)
next
  case (Suc n)
  then show ?case
    by (simp add: reservoir_add_all_append reservoir_add_all_one reservoir_add_def)
qed

lemma reservoir_add_all_ref:
  assumes "\<forall>i < length ds. 0 \<le> ds ! i \<and> ds ! i \<le> int (k + i)"
  shows "reservoir_add_all replay_randint [0..<k + length ds]
      \<lparr>rk = int k, rseed = None, rng = ds @ es, sample_list = [], n_seen = 0\<rparr>
    = Inr \<lparr>rk = int k, rseed = None, rng = es, sample_list = reservoir_ref k (rev ds),
           n_seen = int (k + length ds)\<rparr>"
  using assms
proof (induction ds arbitrary: es rule: rev_induct)
  case Nil
  then show ?case using reservoir_fill [of k k es] by simp
next
  case (snoc j ds)
  have j: "0 \<le> j" "j \<le> int (k + length ds)" using snoc.prems
    by (metis length_append_singleton lessI nth_append_length)+
  have ds: "\<forall>i < length ds. 0 \<le> ds ! i \<and> ds ! i \<le> int (k + i)" using snoc.prems
    by (metis length_append_singleton less_SucI nth_append)
  have "\<forall>j \<in> set (rev ds). 0 \<le> j" using ds by (auto simp: in_set_conv_nth)
  then have "length (reservoir_ref k (rev ds)) = k" using reservoir_ref_inv [of "rev ds" k] by simp
  moreover have "nat j < k \<longleftrightarrow> j < int k" using j by (auto simp: nat_less_iff)
  moreover have "j mod (int (k + length ds) + 1) = j" using j by (intro mod_pos_pos_trivial) auto
  moreover have "reservoir_add_all replay_randint [0..<k + length ds]
      \<lparr>rk = int k, rseed = None, rng = ds @ j # es, sample_list = [], n_seen = 0\<rparr>
    = Inr \<lparr>rk = int k, rseed = None, rng = j # es, sample_list = reservoir_ref k (rev ds),
           n_seen = int (k + length ds)\<rparr>"
    using snoc.IH [OF ds, of "j # es"] by simp
  ultimately show ?case
    by (simp add: reservoir_add_all_append reservoir_add_all_one reservoir_add_def Let_def)
qed

lemma draws_length: "length (draws k m) = fold (\<lambda>i p. p * Suc (k + i)) [0..<m] 1"
proof (induction m)
  case (Suc m)
  have "length (draws k (Suc m)) = length (draws k m) * Suc (k + m)"
    by (simp add: length_concat comp_def sum_list_triv)
  with Suc show ?case by simp
qed simp

lemma length_draws_Suc: "length (draws k (Suc m)) = length (draws k m) * Suc (k + m)"
  by (simp add: length_concat comp_def sum_list_triv)

lemma draws_props: "ds \<in> set (draws k m) \<Longrightarrow> length ds = m \<and> (\<forall>j \<in> set ds. 0 \<le> j)"
  by (induction m arbitrary: ds) auto

lemma draws_range:
  "ds \<in> set (draws k m) \<Longrightarrow> \<forall>i < length ds. 0 \<le> ds ! i \<and> ds ! i \<le> int (k + i)"
proof (induction m arbitrary: ds)
  case (Suc m)
  then obtain es j where e: "es \<in> set (draws k m)" "ds = es @ [int j]" "j < Suc (k + m)"
    by (auto simp del: upt_Suc)
  from Suc.IH [OF e(1)] draws_props [OF e(1)] e(2,3) show ?case
    by (auto simp: nth_append less_Suc_eq)
qed simp

lemma length_filter_concat:
  "length (filter P (concat xss)) = sum_list (map (\<lambda>xs. length (filter P xs)) xss)"
  by (induction xss) auto

lemma length_filter_draws_Suc:
  "length (filter P (draws k (Suc m)))
   = sum_list (map (\<lambda>ds. length (filter (\<lambda>j. P (ds @ [int j])) [0..<Suc (k + m)])) (draws k m))"
  by (simp only: draws.simps length_filter_concat map_map comp_def filter_map length_map)

text \<open>How often a given item is kept, for one more draw.\<close>

lemma count_new_item:
  "length (filter (\<lambda>j. k + m \<in> set (reservoir_ref k (int j # rev ds))) [0..<Suc (k + m)]) = k"
  if "ds \<in> set (draws k m)"
proof -
  have ds: "length ds = m" "\<forall>j \<in> set (rev ds). 0 \<le> j" using draws_props [OF that] by auto
  have s: "length (reservoir_ref k (rev ds)) = k" "k + m \<notin> set (reservoir_ref k (rev ds))"
    using reservoir_ref_inv [OF ds(2), of k] ds(1) by auto
  have "filter (\<lambda>j. k + m \<in> set (reservoir_ref k (int j # rev ds))) [0..<Suc (k + m)]
      = filter (\<lambda>j. j < k) [0..<Suc (k + m)]"
    using s ds(1) by (intro filter_cong) (auto simp: Let_def intro: set_update_memI)
  also have "\<dots> = [0..<k]" by (induction m) auto
  finally show ?thesis by simp
qed

lemma count_old_item:
  assumes "ds \<in> set (draws k m)" and x: "x < k + m"
  shows "length (filter (\<lambda>j. x \<in> set (reservoir_ref k (int j # rev ds))) [0..<Suc (k + m)])
     = (if x \<in> set (reservoir_ref k (rev ds)) then k + m else 0)"
proof -
  let ?s = "reservoir_ref k (rev ds)"
  have ds: "length ds = m" "\<forall>j \<in> set (rev ds). 0 \<le> j" using draws_props [OF assms(1)] by auto
  have s: "length ?s = k" "distinct ?s" using reservoir_ref_inv [OF ds(2), of k] by auto
  show ?thesis
  proof (cases "x \<in> set ?s")
    case False
    have "x \<notin> set (?s[j := k + m])" for j
      using set_update_subset_insert [of ?s j "k + m"] False x by auto
    with False ds(1) show ?thesis by (simp add: Let_def filter_empty_conv)
  next
    case True
    then obtain p where p: "p < k" "?s ! p = x" using s(1) by (auto simp: in_set_conv_nth)
    have keep: "x \<in> set (reservoir_ref k (int j # rev ds)) \<longleftrightarrow> j \<noteq> p" for j
    proof -
      have "x \<in> set (?s[j := k + m]) \<longleftrightarrow> j \<noteq> p" if "j < k"
      proof
        assume "j \<noteq> p"
        then have "?s[j := k + m] ! p = x" using p s(1) by simp
        then show "x \<in> set (?s[j := k + m])" using p s(1) by (metis length_list_update nth_mem)
      next
        assume "x \<in> set (?s[j := k + m])"
        then obtain q where q: "q < k" "?s[j := k + m] ! q = x" using s(1) by (auto simp: in_set_conv_nth)
        show "j \<noteq> p"
        proof
          assume "j = p"
          with q x s(1) p have "q \<noteq> p" "?s ! q = x" by (auto simp: nth_list_update split: if_splits)
          with p q s show False using nth_eq_iff_index_eq by metis
        qed
      qed
      with True p(1) ds(1) show ?thesis by (auto simp: Let_def)
    qed
    have "length (filter (\<lambda>j. j \<noteq> p) [0..<n]) = n - 1" if "p < n" for n
      using that
    proof (induction n)
      case (Suc n)
      show ?case
      proof (cases "p = n")
        case True
        then have "filter (\<lambda>j. j \<noteq> p) [0..<n] = [0..<n]" by (intro filter_True) auto
        with True show ?thesis by simp
      next
        case False
        with Suc show ?thesis by simp
      qed
    qed simp
    with True p(1) keep show ?thesis by simp
  qed
qed

lemma sum_list_if_const:
  "sum_list (map (\<lambda>x. if P x then c else 0) xs) = length (filter P xs) * (c :: nat)"
  by (induction xs) auto

lemma uniform_count:
  "x < k + m \<Longrightarrow>
   length (filter (\<lambda>ds. x \<in> set (reservoir_ref k (rev ds))) (draws k m)) * (k + m)
   = k * length (draws k m)"
proof (induction m)
  case 0
  then show ?case by simp
next
  case (Suc m)
  let ?P = "\<lambda>ds. x \<in> set (reservoir_ref k (rev ds))"
  have c: "length (filter ?P (draws k (Suc m)))
    = sum_list (map (\<lambda>ds. length (filter (\<lambda>j. x \<in> set (reservoir_ref k (int j # rev ds)))
        [0..<Suc (k + m)])) (draws k m))"
    by (simp only: length_filter_draws_Suc rev.simps rev_append append.simps rev_rev_ident)
  show ?case
  proof (cases "x = k + m")
    case True
    have "length (filter ?P (draws k (Suc m))) = sum_list (map (\<lambda>ds. k) (draws k m))"
      unfolding c using count_new_item True by (intro arg_cong [of _ _ sum_list] map_cong) auto
    then show ?thesis by (simp add: length_draws_Suc sum_list_triv algebra_simps del: draws.simps)
  next
    case False
    with Suc have x: "x < k + m" by simp
    have "length (filter ?P (draws k (Suc m)))
        = sum_list (map (\<lambda>ds. if ?P ds then k + m else 0) (draws k m))"
      unfolding c using count_old_item [OF _ x] by (intro arg_cong [of _ _ sum_list] map_cong) auto
    also have "\<dots> = length (filter ?P (draws k m)) * (k + m)"
      by (rule sum_list_if_const)
    finally show ?thesis using Suc.IH [OF x]
      by (simp add: length_draws_Suc algebra_simps del: draws.simps)
  qed
qed

section \<open>Properties\<close>

text \<open>C8: Algorithm R samples uniformly. Feed the stream of positions \<open>0, ..., k + m - 1\<close>
  to a fresh reservoir of size \<open>k\<close>, once for each possible sequence of draws of the
  generator: every position, early or late, ends in the sample for exactly the fraction
  \<open>k / (k + m)\<close> of the sequences.\<close>

theorem reservoir_uniform:
  assumes "x < k + m"
  shows "length (filter (\<lambda>ds. x \<in> set (reservoir_after k (k + m) ds)) (draws k m)) * (k + m)
       = k * length (draws k m)"
proof -
  have "reservoir_after k (k + m) ds = reservoir_ref k (rev ds)" if "ds \<in> set (draws k m)" for ds
    using draws_props [OF that] reservoir_add_all_ref [OF draws_range [OF that], of "[]"] by (simp add: reservoir_after_def)
  then have "filter (\<lambda>ds. x \<in> set (reservoir_after k (k + m) ds)) (draws k m)
      = filter (\<lambda>ds. x \<in> set (reservoir_ref k (rev ds))) (draws k m)"
    by (intro filter_cong) auto
  with uniform_count [OF assms] show ?thesis by simp
qed

theorem reservoir_uniform_witness:
  "length (filter (\<lambda>ds. 3 \<in> set (reservoir_after 2 (2 + 2) ds)) (draws 2 2)) * (2 + 2)
   = 2 * length (draws 2 2) \<and> length (draws 2 2) = 12"
proof -
  have "length (draws 2 2) = 12" by code_simp
  with reservoir_uniform [of 3 2 2] show ?thesis by simp
qed

text \<open>Whatever the generator draws within its range, adding a whole stream to a fresh
  reservoir never indexes outside the sample, the sample has \<open>min k n\<close> items taken from
  distinct stream positions, and it is the stream itself while the stream fits.\<close>

theorem reservoir_stream:
  assumes "good_randint randint" and "reservoir_init seeded k seed = Inr r0"
  shows "\<exists>r ps. reservoir_add_all randint xs r0 = Inr r \<and> n_seen r = int (length xs)
    \<and> int (length (reservoir_sample r)) = min k (int (length xs))
    \<and> distinct ps \<and> set ps \<subseteq> {..<length xs} \<and> reservoir_sample r = map ((!) xs) ps
    \<and> (int (length xs) \<le> k \<longrightarrow> reservoir_sample r = xs)"
proof -
  from assms(2) have r0: "0 < k" "rk r0 = k" "sample_list r0 = []" "n_seen r0 = 0"
    by (auto simp: reservoir_init_def split: if_splits)
  then have "reservoir_inv [] r0" by (intro reservoir_invI [of _ _ "[]"]) simp_all
  from reservoir_add_all_inv [OF assms(1) this, of xs] obtain r where
    r: "reservoir_add_all randint xs r0 = Inr r" "reservoir_inv xs r" "rk r = k"
    using r0(2) by auto
  from r(2) obtain ps where "distinct ps \<and> set ps \<subseteq> {..<length xs} \<and> sample_list r = map ((!) xs) ps"
    unfolding reservoir_inv_def by blast
  with r show ?thesis
    unfolding reservoir_inv_def reservoir_sample_def by (intro exI [of _ r] exI [of _ ps]) simp
qed

definition low_randint :: "int \<Rightarrow> int \<Rightarrow> int \<Rightarrow> int \<times> int" where
  "low_randint g a b = (a, g)"

theorem reservoir_stream_witness:
  "\<exists>r ps. reservoir_add_all low_randint [10, 20, 30 :: int] \<lparr>rk = 2, rseed = Some 42, rng = 0, sample_list = [], n_seen = 0\<rparr> = Inr r
    \<and> n_seen r = int (length [10, 20, 30 :: int])
    \<and> int (length (reservoir_sample r)) = min 2 (int (length [10, 20, 30 :: int]))
    \<and> distinct ps \<and> set ps \<subseteq> {..<length [10, 20, 30 :: int]}
    \<and> reservoir_sample r = map ((!) [10, 20, 30 :: int]) ps
    \<and> (int (length [10, 20, 30 :: int]) \<le> 2 \<longrightarrow> reservoir_sample r = [10, 20, 30])"
  by (rule reservoir_stream [of _ "\<lambda>_. 0" 2 "Some 42"])
    (simp_all add: good_randint_def low_randint_def reservoir_init_def)

end
