(* ===== verification/Fm.thy ===== *)
theory Fm
  imports Prelude "HOL-Library.Word"
begin

text \<open>
  Flajolet-Martin distinct counting (\<open>streaming/analytics/fm.py\<close>): the estimator
  \<open>FlajoletMartin\<close> and the plugin \<open>FMAnalytic\<close>.

  \<open>sha salt item\<close> is \<open>hashlib.sha256(f"{salt}:{item}".encode()).digest()\<close>: a
  parameter that yields the bytes of the digest.
\<close>

unbundle bit_operations_syntax

type_synonym sha = "int \<Rightarrow> string \<Rightarrow> 8 word list"

section \<open>Hashing\<close>

text \<open>
  The loop shifts until the low bit is one; the caller excludes 0, the only value for which
  it would not stop.
\<close>

partial_function (option) tz_loop :: "int \<Rightarrow> int \<Rightarrow> int option" where
  [code]: "tz_loop value count =
     (if value AND 1 = 0 then tz_loop (drop_bit 1 value) (count + 1) else Some count)"

definition trailing_zeros :: "int \<Rightarrow> int option" where
  "trailing_zeros value = (if value = 0 then Some 64 else tz_loop value 0)"

text \<open>\<open>struct.unpack("<Q", digest[:8])[0]\<close>\<close>

fun le_int :: "8 word list \<Rightarrow> int" where
  "le_int [] = 0"
| "le_int (b # bs) = uint b + 256 * le_int bs"

definition salted_hash_64 :: "sha \<Rightarrow> string \<Rightarrow> int \<Rightarrow> int" where
  "salted_hash_64 sha item salt = le_int (take 8 (sha salt item))"

section \<open>The estimator\<close>

record fm =
  num_hashes :: int
  num_groups :: int
  fm_seed :: int
  group_size :: int
  bitmaps :: "int list"
  fm_n_seen :: int

definition fm_init :: "int \<Rightarrow> int \<Rightarrow> int \<Rightarrow> fm res" where
  "fm_init nh ng seed =
     (if nh \<le> 0 then Inl ValueError
      else if ng \<le> 0 then Inl ValueError
      else if nh mod ng \<noteq> 0 then Inl ValueError
      else Inr \<lparr>num_hashes = nh, num_groups = ng, fm_seed = seed, group_size = nh div ng,
                bitmaps = replicate (nat nh) 0, fm_n_seen = 0\<rparr>)"

text \<open>One iteration of the loop of \<open>add\<close>; \<open>None\<close> if \<open>trailing_zeros\<close> does not return.\<close>

definition fm_set_bit :: "sha \<Rightarrow> string \<Rightarrow> int \<Rightarrow> int \<Rightarrow> int \<Rightarrow> int option" where
  "fm_set_bit sha item seed i bm =
     map_option (\<lambda>tz. if tz < 64 then bm OR push_bit (nat tz) 1 else bm)
       (trailing_zeros (salted_hash_64 sha item (seed * 10000 + i)))"

fun fm_add_loop :: "sha \<Rightarrow> string \<Rightarrow> int \<Rightarrow> int \<Rightarrow> int list \<Rightarrow> int list option" where
  "fm_add_loop sha item seed i [] = Some []"
| "fm_add_loop sha item seed i (bm # bms) =
     Option.bind (fm_set_bit sha item seed i bm) (\<lambda>b.
     map_option (\<lambda>bs. b # bs) (fm_add_loop sha item seed (i + 1) bms))"

text \<open>The loop runs over \<open>range(num_hashes)\<close>, which is the length of \<open>bitmaps\<close>.\<close>

definition fm_add :: "sha \<Rightarrow> string \<Rightarrow> fm \<Rightarrow> fm option" where
  "fm_add sha item f =
     map_option (\<lambda>bms. f\<lparr>bitmaps := bms, fm_n_seen := fm_n_seen f + 1\<rparr>)
       (fm_add_loop sha item (fm_seed f) 0 (bitmaps f))"

partial_function (option) first_zero_loop :: "int \<Rightarrow> nat \<Rightarrow> nat option" where
  [code]: "first_zero_loop bitmap r =
     (if bitmap AND push_bit r 1 \<noteq> 0 then first_zero_loop bitmap (r + 1) else Some r)"

definition first_zero_bit :: "int \<Rightarrow> nat option" where
  "first_zero_bit bitmap = first_zero_loop bitmap 0"

definition fm_phi :: real where "fm_phi = 77351 / 100000"

definition fm_group_estimate :: "nat \<Rightarrow> nat list \<Rightarrow> nat \<Rightarrow> real" where
  "fm_group_estimate gs rs g =
     2 powr (real (sum_list (take gs (drop (g * gs) rs))) / real gs) / fm_phi"

definition fm_estimate :: "fm \<Rightarrow> real option" where
  "fm_estimate f =
     (if fm_n_seen f = 0 then Some 0
      else map_option (\<lambda>rs.
             median_sorted (sort (map (fm_group_estimate (nat (group_size f)) rs)
                                   [0..<nat (num_groups f)])))
           (those (map first_zero_bit (bitmaps f))))"

definition fm_snapshot :: "fm \<Rightarrow> json" where
  "fm_snapshot f =
     JObj [(''num_hashes'', JInt (num_hashes f)), (''num_groups'', JInt (num_groups f)),
           (''seed'', JInt (fm_seed f)), (''bitmaps'', JArr (map JInt (bitmaps f))),
           (''n_seen'', JInt (fm_n_seen f))]"

definition fm_restore :: "json \<Rightarrow> fm \<Rightarrow> fm res" where
  "fm_restore j f =
     bindE (bindE (jget j ''num_hashes'') jint) (\<lambda>nh.
     bindE (bindE (jget j ''num_groups'') jint) (\<lambda>ng.
     bindE (bindE (jget j ''seed'') jint) (\<lambda>s.
     bindE (if ng = 0 then Inl ZeroDivisionError else Inr (nh div ng)) (\<lambda>gs.
     bindE (bindE (bindE (jget j ''bitmaps'') jlist) (mapE jint)) (\<lambda>bms.
     bindE (bindE (jget j ''n_seen'') jint) (\<lambda>n.
     Inr (f\<lparr>num_hashes := nh, num_groups := ng, fm_seed := s, group_size := gs,
            bitmaps := bms, fm_n_seen := n\<rparr>)))))))"

section \<open>The plugin\<close>

record fm_pair =
  sk_src :: fm
  sk_dst :: fm

record fm_analytic =
  fa_hashes :: int
  fa_groups :: int
  fa_seed :: int
  fa_window_len :: json
  window_sketches :: "(string, fm_pair) dict"

record fm_row =
  fr_window_start :: string
  fr_window_len :: json
  src_ips_fm :: int
  dst_ips_fm :: int

definition get_or_create_sketches :: "string \<Rightarrow> fm_analytic \<Rightarrow> (fm_pair \<times> fm_analytic) res" where
  "get_or_create_sketches ws a =
     (case dget (window_sketches a) ws of
        Some p \<Rightarrow> Inr (p, a)
      | None \<Rightarrow>
          bindE (fm_init (fa_hashes a) (fa_groups a) (fa_seed a)) (\<lambda>s.
          bindE (fm_init (fa_hashes a) (fa_groups a) (fa_seed a + 1)) (\<lambda>d.
          let p = \<lparr>sk_src = s, sk_dst = d\<rparr>
          in Inr (p, a\<lparr>window_sketches := dset ws p (window_sketches a)\<rparr>))))"

text \<open>
  A row is the window start and the two addresses, NULL already replaced by the empty
  string. A loop that does not return has no result to give, so it is the error
  \<open>RuntimeError\<close> here; \<open>fm_add_returns\<close> shows that it never happens.
\<close>

definition add_nonempty :: "sha \<Rightarrow> string \<Rightarrow> fm \<Rightarrow> fm res" where
  "add_nonempty sha ip f =
     (if ip = [] then Inr f
      else case fm_add sha ip f of None \<Rightarrow> Inl RuntimeError | Some f' \<Rightarrow> Inr f')"

definition fm_feed_row :: "sha \<Rightarrow> string \<times> string \<times> string \<Rightarrow> fm_analytic \<Rightarrow> fm_analytic res" where
  "fm_feed_row sha row a =
     (case row of (ws, src, dst) \<Rightarrow>
        bindE (get_or_create_sketches ws a) (\<lambda>(p, a1).
        bindE (add_nonempty sha src (sk_src p)) (\<lambda>s.
        bindE (add_nonempty sha dst (sk_dst p)) (\<lambda>d.
        Inr (a1\<lparr>window_sketches := dset ws \<lparr>sk_src = s, sk_dst = d\<rparr> (window_sketches a1)\<rparr>)))))"

definition fm_report :: "json \<Rightarrow> string \<times> fm_pair \<Rightarrow> fm_row res" where
  "fm_report len w =
     (case (fm_estimate (sk_src (snd w)), fm_estimate (sk_dst (snd w))) of
        (Some s, Some d) \<Rightarrow>
          Inr \<lparr>fr_window_start = fst w, fr_window_len = len,
               src_ips_fm = round_half_even s, dst_ips_fm = round_half_even d\<rparr>
      | _ \<Rightarrow> Inl RuntimeError)"

definition fm_expire :: "(string, fm_pair) dict \<Rightarrow> (string, fm_pair) dict" where
  "fm_expire ws =
     (if 10 < length ws
      then fold ddel (take (length ws - 10) (sort (dkeys ws))) ws
      else ws)"

definition fm_process_batch ::
  "sha \<Rightarrow> json \<Rightarrow> string list \<Rightarrow> (string \<times> string \<times> string) list \<Rightarrow> fm_analytic
     \<Rightarrow> (fm_analytic \<times> fm_row list) res" where
  "fm_process_batch sha cfg columns collected a =
     bindE (jget_or cfg ''spark'' (JObj [])) (\<lambda>spark_cfg.
     bindE (jget_or spark_cfg ''max_rows_per_batch'' (JInt 50000)) (\<lambda>max_rows.
     bindE (jget_or spark_cfg ''window_len_s'' (fa_window_len a)) (\<lambda>len.
     if ''event_time'' \<notin> set columns \<and> ''timestamp'' \<notin> set columns then Inr (a, [])
     else if collected = [] then Inr (a, [])
     else
       bindE (jcap max_rows collected) (\<lambda>rows.
       bindE (foldE (fm_feed_row sha) rows a) (\<lambda>a1.
       bindE (mapE (fm_report len) (window_sketches a1)) (\<lambda>out.
       Inr (a1\<lparr>window_sketches := fm_expire (window_sketches a1)\<rparr>, out)))))))"

definition fm_analytic_snapshot :: "fm_analytic \<Rightarrow> json" where
  "fm_analytic_snapshot a =
     JObj [(''windows'',
        JObj (map (\<lambda>(ws, p). (ws, JObj [(''src'', fm_snapshot (sk_src p)), (''dst'', fm_snapshot (sk_dst p))]))
                (window_sketches a)))]"

definition fm_restore_window :: "string \<times> json \<Rightarrow> fm_analytic \<Rightarrow> fm_analytic res" where
  "fm_restore_window w a =
     bindE (fm_init (fa_hashes a) (fa_groups a) (fa_seed a)) (\<lambda>s0.
     bindE (fm_init (fa_hashes a) (fa_groups a) (fa_seed a + 1)) (\<lambda>d0.
     bindE (bindE (jget (snd w) ''src'') (\<lambda>j. fm_restore j s0)) (\<lambda>s.
     bindE (bindE (jget (snd w) ''dst'') (\<lambda>j. fm_restore j d0)) (\<lambda>d.
     Inr (a\<lparr>window_sketches := dset (fst w) \<lparr>sk_src = s, sk_dst = d\<rparr> (window_sketches a)\<rparr>)))))"

definition fm_analytic_restore :: "json \<Rightarrow> fm_analytic \<Rightarrow> fm_analytic res" where
  "fm_analytic_restore j a =
     bindE (bindE (jget_or j ''windows'' (JObj [])) jitems) (\<lambda>ws.
     foldE fm_restore_window ws (a\<lparr>window_sketches := []\<rparr>))"

section \<open>The loops return\<close>

lemma bit_or_push: "bit (bm OR push_bit k (1 :: int)) j \<longleftrightarrow> bit bm j \<or> j = k"
  by (auto simp: bit_or_iff bit_push_bit_iff bit_1_iff simp del: push_bit_of_1)

lemma and_push_iff: "bm AND push_bit r (1 :: int) \<noteq> 0 \<longleftrightarrow> bit bm r"
  by (simp add: bit_iff_and_push_bit_not_eq_0 del: push_bit_of_1)

lemma tz_loop_returns:
  "v \<noteq> 0 \<Longrightarrow> \<exists>k. tz_loop v c = Some (c + int k) \<and> 2 ^ k dvd v \<and> \<not> 2 ^ Suc k dvd v"
proof (induction "nat \<bar>v\<bar>" arbitrary: v c rule: less_induct)
  case less
  show ?case
  proof (cases "even v")
    case False
    then show ?thesis
      by (intro exI [of _ 0]) (simp add: tz_loop.simps [of v c] and_one_eq odd_iff_mod_2_eq_one)
  next
    case True
    then obtain w where w: "v = 2 * w" by blast
    with less.prems have "w \<noteq> 0" "nat \<bar>w\<bar> < nat \<bar>v\<bar>" by auto
    from less.hyps [OF this(2,1), of "c + 1"] obtain k where
      k: "tz_loop w (c + 1) = Some (c + 1 + int k)" "2 ^ k dvd w" "\<not> 2 ^ Suc k dvd w" by blast
    have "tz_loop v c = tz_loop w (c + 1)"
      using w by (subst tz_loop.simps) (simp add: and_one_eq drop_bit_Suc)
    moreover have "2 * 2 ^ Suc k dvd 2 * w \<longleftrightarrow> 2 ^ Suc k dvd w" by (rule dvd_times_left_cancel_iff) simp
    ultimately show ?thesis using k by (intro exI [of _ "Suc k"]) (simp add: w)
  qed
qed

definition rank :: "sha \<Rightarrow> int \<Rightarrow> string \<Rightarrow> nat \<Rightarrow> nat" where
  "rank sha seed item i =
     nat (the (trailing_zeros (salted_hash_64 sha item (seed * 10000 + int i))))"

lemma trailing_zeros_returns: "\<exists>k. trailing_zeros v = Some (int k)"
  using tz_loop_returns [of v 0] by (auto simp: trailing_zeros_def intro: exI [of _ 64])

lemma set_bit_returns:
  "fm_set_bit sha item seed (int i) bm
   = Some (if rank sha seed item i < 64 then bm OR push_bit (rank sha seed item i) 1 else bm)"
  using trailing_zeros_returns [of "salted_hash_64 sha item (seed * 10000 + int i)"]
  by (auto simp: fm_set_bit_def rank_def)

lemma add_loop_returns:
  "fm_add_loop sha item seed (int i) bms
   = Some (map (\<lambda>(j, bm). if rank sha seed item j < 64 then bm OR push_bit (rank sha seed item j) 1
                        else bm) (enumerate i bms))"
proof (induction bms arbitrary: i)
  case (Cons bm bms)
  have "int i + 1 = int (Suc i)" by simp
  with Cons show ?case by (simp only: fm_add_loop.simps set_bit_returns) simp
qed simp

text \<open>The bits of a bitmap are the ranks seen.\<close>

definition fm_inv :: "sha \<Rightarrow> string set \<Rightarrow> fm \<Rightarrow> bool" where
  "fm_inv sha X f \<longleftrightarrow>
     0 < num_hashes f \<and> 0 < num_groups f \<and> num_hashes f = num_groups f * group_size f \<and>
     length (bitmaps f) = nat (num_hashes f) \<and>
     (\<forall>i < length (bitmaps f). \<forall>j. bit (bitmaps f ! i) j
        \<longleftrightarrow> j < 64 \<and> (\<exists>x \<in> X. rank sha (fm_seed f) x i = j))"

lemma fm_init_inv: "fm_init nh ng seed = Inr f \<Longrightarrow> fm_inv sha {} f \<and> fm_n_seen f = 0 \<and> fm_seed f = seed
    \<and> num_hashes f = nh \<and> num_groups f = ng"
  by (auto simp: fm_init_def fm_inv_def split: if_splits)

lemma fm_add_inv:
  assumes "fm_inv sha X f"
  shows "\<exists>g. fm_add sha x f = Some g \<and> fm_inv sha (insert x X) g \<and> fm_n_seen g = fm_n_seen f + 1
     \<and> fm_seed g = fm_seed f \<and> num_hashes g = num_hashes f \<and> num_groups g = num_groups f"
proof -
  let ?up = "\<lambda>i bm. if rank sha (fm_seed f) x i < 64
      then bm OR push_bit (rank sha (fm_seed f) x i) 1 else (bm :: int)"
  let ?bms = "map (\<lambda>(i, bm). ?up i bm) (enumerate 0 (bitmaps f))"
  have add: "fm_add sha x f = Some (f\<lparr>bitmaps := ?bms, fm_n_seen := fm_n_seen f + 1\<rparr>)"
    using add_loop_returns [of sha x "fm_seed f" 0] by (simp add: fm_add_def)
  have nth: "?bms ! i = ?up i (bitmaps f ! i)" if "i < length (bitmaps f)" for i
    using that by (simp add: nth_enumerate_eq)
  have "bit (?up i (bitmaps f ! i)) j \<longleftrightarrow> j < 64 \<and> (\<exists>y \<in> insert x X. rank sha (fm_seed f) y i = j)"
    if "i < length (bitmaps f)" for i j
    using assms that by (auto simp: fm_inv_def bit_or_push simp del: push_bit_of_1)
  with assms nth add show ?thesis by (auto simp: fm_inv_def)
qed

definition fm_add_all :: "sha \<Rightarrow> string list \<Rightarrow> fm \<Rightarrow> fm option" where
  "fm_add_all sha xs f = fold (\<lambda>x m. Option.bind m (fm_add sha x)) xs (Some f)"

lemma fm_add_all_inv:
  "fm_inv sha X f \<Longrightarrow> \<exists>g. fm_add_all sha xs f = Some g \<and> fm_inv sha (X \<union> set xs) g
     \<and> fm_n_seen g = fm_n_seen f + int (length xs)
     \<and> fm_seed g = fm_seed f \<and> num_hashes g = num_hashes f \<and> num_groups g = num_groups f"
proof (induction xs arbitrary: X f)
  case (Cons x xs)
  from fm_add_inv [OF Cons.prems, of x] obtain g where
    g: "fm_add sha x f = Some g" "fm_inv sha (insert x X) g" "fm_n_seen g = fm_n_seen f + 1"
    "fm_seed g = fm_seed f" "num_hashes g = num_hashes f" "num_groups g = num_groups f" by blast
  from Cons.IH [OF g(2)] g show ?case by (auto simp: fm_add_all_def)
qed (simp add: fm_add_all_def)

lemma first_zero_loop_returns:
  assumes "\<forall>j \<ge> 64. \<not> bit bm j" and "\<forall>j < r. bit bm j" and "r \<le> 64"
  shows "\<exists>s \<le> 64. first_zero_loop bm r = Some s \<and> \<not> bit bm s \<and> (\<forall>j < s. bit bm j)"
  using assms
proof (induction "64 - r" arbitrary: r rule: less_induct)
  case less
  show ?case
  proof (cases "bit bm r")
    case False
    with less.prems show ?thesis
      by (subst first_zero_loop.simps) (simp add: and_push_iff del: push_bit_of_1)
  next
    case True
    then have "r < 64" using less.prems by (meson not_le)
    then have "\<exists>s \<le> 64. first_zero_loop bm (r + 1) = Some s \<and> \<not> bit bm s \<and> (\<forall>j < s. bit bm j)"
      using less.prems True by (intro less.hyps) (auto simp: less_Suc_eq)
    with True show ?thesis
      by (subst first_zero_loop.simps) (simp add: and_push_iff del: push_bit_of_1)
  qed
qed

lemma first_zero_bit_returns:
  "\<forall>j \<ge> 64. \<not> bit bm j \<Longrightarrow> \<exists>s \<le> 64. first_zero_bit bm = Some s \<and> \<not> bit bm s \<and> (\<forall>j < s. bit bm j)"
  using first_zero_loop_returns [of bm 0] by (simp add: first_zero_bit_def)

lemma first_zero_mono:
  assumes "first_zero_bit a = Some r" "first_zero_bit b = Some s"
    and "\<forall>j \<ge> 64. \<not> bit a j" "\<forall>j \<ge> 64. \<not> bit b j" and "\<forall>j. bit a j \<longrightarrow> bit b j"
  shows "r \<le> s"
  using first_zero_bit_returns [OF assms(3)] first_zero_bit_returns [OF assms(4)] assms(1,2,5)
  by (metis not_le option.inject)

section \<open>The estimate\<close>

lemma those_map_returns:
  "\<forall>x \<in> set xs. \<exists>y. f x = Some y \<and> P x y \<Longrightarrow> \<exists>ys. those (map f xs) = Some ys \<and> list_all2 P xs ys"
  by (induction xs) auto

lemma bitmap_rows:
  assumes "fm_inv sha X f"
  shows "\<exists>rs. those (map first_zero_bit (bitmaps f)) = Some rs
    \<and> list_all2 (\<lambda>bm r. r \<le> 64 \<and> first_zero_bit bm = Some r) (bitmaps f) rs"
proof (rule those_map_returns, rule ballI)
  fix bm assume "bm \<in> set (bitmaps f)"
  then have "\<forall>j \<ge> 64. \<not> bit bm j"
    using assms by (auto simp: fm_inv_def in_set_conv_nth)
  from first_zero_bit_returns [OF this]
  show "\<exists>r. first_zero_bit bm = Some r \<and> r \<le> 64 \<and> first_zero_bit bm = Some r" by auto
qed

lemma sum_list_bounds:
  fixes rs :: "nat list"
  shows "\<forall>r \<in> set rs. r \<le> c \<Longrightarrow> sum_list rs \<le> c * length rs"
  by (induction rs) auto

lemma fm_group_estimate_bounds:
  assumes "\<forall>r \<in> set rs. r \<le> 64" and "0 < gs"
  shows "1 / fm_phi \<le> fm_group_estimate gs rs g \<and> fm_group_estimate gs rs g \<le> 2 ^ 64 / fm_phi"
proof -
  let ?s = "sum_list (take gs (drop (g * gs) rs))"
  have "?s \<le> 64 * length (take gs (drop (g * gs) rs))"
    using assms(1) by (intro sum_list_bounds) (auto dest!: in_set_takeD in_set_dropD)
  also have "\<dots> \<le> 64 * gs" by simp
  finally have "real ?s / real gs \<le> 64" using assms(2) by (simp add: field_simps flip: of_nat_mult)
  then have "2 powr (real ?s / real gs) \<le> 2 powr 64" by (intro powr_mono) simp_all
  moreover have "1 \<le> 2 powr (real ?s / real gs)" by (intro ge_one_powr_ge_zero) auto
  moreover have "(2 :: real) powr 64 = 2 ^ 64" using powr_realpow [of 2 64] by simp
  ultimately show ?thesis
    unfolding fm_group_estimate_def fm_phi_def by (intro conjI divide_right_mono) auto
qed

lemma fm_group_estimate_mono:
  assumes "list_all2 (\<le>) rs ss"
  shows "fm_group_estimate gs rs g \<le> fm_group_estimate gs ss g"
proof -
  have "sum_list (take gs (drop (g * gs) rs)) \<le> sum_list (take gs (drop (g * gs) ss))"
    using assms by (intro sum_list_mono2)
      (auto simp: list_all2_conv_all_nth)
  then show ?thesis unfolding fm_group_estimate_def fm_phi_def
    by (intro divide_right_mono powr_mono) auto
qed

lemma fm_estimate_returns:
  assumes "fm_inv sha X f" and "fm_n_seen f \<noteq> 0"
  shows "\<exists>e. fm_estimate f = Some e \<and> 1 / fm_phi \<le> e \<and> e \<le> 2 ^ 64 / fm_phi"
proof -
  from bitmap_rows [OF assms(1)] obtain rs where rs: "those (map first_zero_bit (bitmaps f)) = Some rs"
    "list_all2 (\<lambda>bm r. r \<le> 64 \<and> first_zero_bit bm = Some r) (bitmaps f) rs" by blast
  then have le: "\<forall>r \<in> set rs. r \<le> 64" by (auto simp: list_all2_conv_all_nth in_set_conv_nth)
  have "0 < num_hashes f" "num_hashes f = num_groups f * group_size f" "0 < num_groups f"
    using assms(1) by (auto simp: fm_inv_def)
  then have gs: "0 < nat (group_size f)" "0 < nat (num_groups f)"
    by (auto simp: zero_less_mult_iff)
  let ?es = "sort (map (fm_group_estimate (nat (group_size f)) rs) [0..<nat (num_groups f)])"
  have "?es \<noteq> []" using gs(2) by (metis length_0_conv length_map length_sort length_upt minus_nat.diff_0 not_less0)
  moreover have "\<forall>x \<in> set ?es. 1 / fm_phi \<le> x \<and> x \<le> 2 ^ 64 / fm_phi"
    using fm_group_estimate_bounds [OF le gs(1)] by auto
  ultimately have "1 / fm_phi \<le> median_sorted ?es \<and> median_sorted ?es \<le> 2 ^ 64 / fm_phi"
    by (rule median_bounds)
  with rs(1) assms(2) show ?thesis by (simp add: fm_estimate_def)
qed

lemma fm_estimate_mono:
  assumes f: "fm_inv sha X f" and g: "fm_inv sha Y g" and sub: "X \<subseteq> Y"
    and par: "fm_seed f = fm_seed g" "num_hashes f = num_hashes g" "num_groups f = num_groups g"
    and seen: "fm_n_seen g \<noteq> 0" and ef: "fm_estimate f = Some d" and eg: "fm_estimate g = Some e"
  shows "d \<le> e"
proof (cases "fm_n_seen f = 0")
  case True
  from fm_estimate_returns [OF g seen] eg have "1 / fm_phi \<le> e" by simp
  then have "0 \<le> e" by (rule order_trans [rotated]) (simp add: fm_phi_def)
  with True ef show ?thesis by (simp add: fm_estimate_def)
next
  case False
  from bitmap_rows [OF f] obtain rs where rs: "those (map first_zero_bit (bitmaps f)) = Some rs"
    "list_all2 (\<lambda>bm r. r \<le> 64 \<and> first_zero_bit bm = Some r) (bitmaps f) rs" by blast
  from bitmap_rows [OF g] obtain ss where ss: "those (map first_zero_bit (bitmaps g)) = Some ss"
    "list_all2 (\<lambda>bm r. r \<le> 64 \<and> first_zero_bit bm = Some r) (bitmaps g) ss" by blast
  have len: "length (bitmaps f) = length (bitmaps g)" using f g par by (auto simp: fm_inv_def)
  have le: "rs ! i \<le> ss ! i" if i: "i < length (bitmaps f)" for i
  proof (rule first_zero_mono)
    show "first_zero_bit (bitmaps f ! i) = Some (rs ! i)" using rs(2) i by (auto simp: list_all2_conv_all_nth)
    show "first_zero_bit (bitmaps g ! i) = Some (ss ! i)" using ss(2) i len by (auto simp: list_all2_conv_all_nth)
    show "\<forall>j \<ge> 64. \<not> bit (bitmaps f ! i) j" using f i by (auto simp: fm_inv_def)
    show "\<forall>j \<ge> 64. \<not> bit (bitmaps g ! i) j" using g i len by (auto simp: fm_inv_def)
    show "\<forall>j. bit (bitmaps f ! i) j \<longrightarrow> bit (bitmaps g ! i) j"
      using f g i len par sub unfolding fm_inv_def by (metis subsetD)
  qed
  have rsss: "list_all2 (\<le>) rs ss"
    using le len list_all2_lengthD [OF rs(2)] list_all2_lengthD [OF ss(2)]
    by (auto simp: list_all2_conv_all_nth)
  have gs: "group_size f = group_size g" "0 < num_groups g"
    using f g par by (auto simp: fm_inv_def)
  let ?es = "\<lambda>rs. map (fm_group_estimate (nat (group_size g)) rs) [0..<nat (num_groups g)]"
  have "list_all2 (\<le>) (?es rs) (?es ss)"
    using fm_group_estimate_mono [OF rsss] by (simp add: list_all2_conv_all_nth)
  then have "median_sorted (sort (?es rs)) \<le> median_sorted (sort (?es ss))"
    using gs(2) by (intro median_sorted_le sort_le) (simp_all flip: length_0_conv)
  with False seen ef eg rs(1) ss(1) gs par show ?thesis by (simp add: fm_estimate_def)
qed

text \<open>C22: Flajolet-Martin estimation. A stream of any items is absorbed without any of the loops
  failing to return; the estimate exists, lies between \<open>1 / phi\<close> and \<open>2 ^ 64 / phi\<close> (0 for
  the empty stream), and depends only on the set of distinct items, monotonically: a stream whose
  items include those of another never has a smaller estimate, whatever order and repetitions.\<close>

theorem fm_distinct_monotone:
  assumes "fm_init nh ng seed = Inr f0" and "set xs \<subseteq> set ys"
  shows "\<exists>f g d e. fm_add_all sha xs f0 = Some f \<and> fm_add_all sha ys f0 = Some g
    \<and> fm_estimate f = Some d \<and> fm_estimate g = Some e \<and> d \<le> e
    \<and> (xs = [] \<longrightarrow> d = 0) \<and> (xs \<noteq> [] \<longrightarrow> 1 / fm_phi \<le> d) \<and> e \<le> 2 ^ 64 / fm_phi
    \<and> (set xs = set ys \<longrightarrow> d = e)"
proof -
  from fm_init_inv [OF assms(1)] have f0: "fm_inv sha {} f0" "fm_n_seen f0 = 0" by auto
  from fm_add_all_inv [OF f0(1), of xs] f0(2) obtain f where f: "fm_add_all sha xs f0 = Some f"
    "fm_inv sha (set xs) f" "fm_n_seen f = int (length xs)"
    "fm_seed f = fm_seed f0" "num_hashes f = num_hashes f0" "num_groups f = num_groups f0" by auto
  from fm_add_all_inv [OF f0(1), of ys] f0(2) obtain g where g: "fm_add_all sha ys f0 = Some g"
    "fm_inv sha (set ys) g" "fm_n_seen g = int (length ys)"
    "fm_seed g = fm_seed f0" "num_hashes g = num_hashes f0" "num_groups g = num_groups f0" by auto
  have est: "\<exists>d. fm_estimate h = Some d \<and> (zs = [] \<longrightarrow> d = 0) \<and> (zs \<noteq> [] \<longrightarrow> 1 / fm_phi \<le> d)
      \<and> d \<le> 2 ^ 64 / fm_phi" if "fm_inv sha (set zs) h" "fm_n_seen h = int (length zs)" for h zs
    using fm_estimate_returns [OF that(1)] that(2)
    by (cases "zs = []") (auto simp: fm_estimate_def fm_phi_def)
  from est [OF f(2,3)] obtain d where d: "fm_estimate f = Some d" "xs = [] \<longrightarrow> d = 0"
    "xs \<noteq> [] \<longrightarrow> 1 / fm_phi \<le> d" by blast
  from est [OF g(2,3)] obtain e where e: "fm_estimate g = Some e" "ys = [] \<longrightarrow> e = 0"
    "e \<le> 2 ^ 64 / fm_phi" by blast
  have le: "d \<le> e"
  proof (cases "ys = []")
    case True
    with assms(2) d e show ?thesis by simp
  next
    case False
    with g(3) have "fm_n_seen g \<noteq> 0" by simp
    with fm_estimate_mono [OF f(2) g(2) assms(2)] f g d e show ?thesis by simp
  qed
  have ge: "e \<le> d" if eq: "set xs = set ys"
  proof (cases "xs = []")
    case True
    with eq d e show ?thesis by simp
  next
    case False
    with f(3) have "fm_n_seen f \<noteq> 0" by simp
    with fm_estimate_mono [OF g(2) f(2)] eq f g d e show ?thesis by simp
  qed
  from f g d e le ge show ?thesis by fastforce
qed

definition example_sha :: sha where
  "example_sha salt item = map (\<lambda>c. word_of_int (salt + of_char c)) (take 1 (item @ [CHR ''-'']))"

theorem fm_distinct_monotone_witness:
  "\<exists>f0 f g d e. fm_init 2 1 0 = Inr f0 \<and> fm_add_all example_sha [''a'', ''a''] f0 = Some f
    \<and> fm_add_all example_sha [''b'', ''a''] f0 = Some g
    \<and> fm_estimate f = Some d \<and> fm_estimate g = Some e \<and> d \<le> e"
  using fm_distinct_monotone [of 2 1 0 _ "[''a'', ''a'']" "[''b'', ''a'']" example_sha]
  by (auto simp: fm_init_def)

section \<open>The plugin keeps the ten newest windows\<close>

lemma fm_expire_spec:
  assumes "wf_dict ws"
  shows "wf_dict (fm_expire ws) \<and> length (fm_expire ws) = min 10 (length ws)
    \<and> set (fm_expire ws) \<subseteq> set ws
    \<and> (\<forall>k \<in> set (dkeys ws) - set (dkeys (fm_expire ws)). \<forall>k' \<in> set (dkeys (fm_expire ws)). k < k')"
proof (cases "10 < length ws")
  case True
  let ?ks = "sort (dkeys ws)"
  let ?old = "take (length ws - 10) ?ks"
  have e: "fm_expire ws = fold ddel ?old ws" using True by (simp add: fm_expire_def)
  have d: "distinct ?ks" "set ?ks = set (dkeys ws)" using assms by simp_all
  note ev = evict_keys [OF assms d e]
  have "k < k'" if "k \<in> set (dkeys ws) - set (dkeys (fm_expire ws))" "k' \<in> set (dkeys (fm_expire ws))"
    for k k'
  proof -
    have "set ?ks = set ?old \<union> set (drop (length ws - 10) ?ks)"
      by (metis append_take_drop_id set_append)
    then have "k \<in> set ?old" "k' \<in> set (drop (length ws - 10) ?ks)"
      using that d(2) unfolding ev(2) by auto
    then have "k \<le> k'" using sorted_take_drop [of "\<lambda>k. k" ?ks k _ k'] by simp
    moreover have "k \<noteq> k'" using that by auto
    ultimately show ?thesis by simp
  qed
  with ev(1,3,4) True show ?thesis by auto
qed (use assms in \<open>simp add: fm_expire_def\<close>)

lemma fm_feed_row_wf:
  "fm_feed_row sha row a = Inr a' \<Longrightarrow> wf_dict (window_sketches a) \<Longrightarrow> wf_dict (window_sketches a')"
  by (auto simp: fm_feed_row_def get_or_create_sketches_def Let_def res_simps split: prod.splits option.splits)

lemma fm_process_batch_cases:
  assumes "fm_process_batch sha cfg cols rows a = Inr (a', out)"
  shows "(a' = a \<and> out = []) \<or> (\<exists>rows' len b. foldE (fm_feed_row sha) rows' a = Inr b
    \<and> mapE (fm_report len) (window_sketches b) = Inr out
    \<and> a' = b\<lparr>window_sketches := fm_expire (window_sketches b)\<rparr>)"
  using assms by (fastforce simp: fm_process_batch_def res_simps split: if_splits)

lemma fm_reports:
  "mapE (fm_report len) ws = Inr out \<Longrightarrow> map fr_window_start out = dkeys ws"
  by (induction ws arbitrary: out) (auto simp: fm_report_def res_simps split: option.splits)

definition fm_step :: "sha \<Rightarrow> json \<times> string list \<times> (string \<times> string \<times> string) list \<Rightarrow> fm_analytic \<Rightarrow> fm_analytic res" where
  "fm_step sha b a =
     (case b of (cfg, cols, rows) \<Rightarrow> bindE (fm_process_batch sha cfg cols rows a) (\<lambda>r. Inr (fst r)))"

lemma fm_process_batch_wf:
  assumes "fm_process_batch sha cfg cols rows a = Inr (a', out)"
    and "wf_dict (window_sketches a)" and "length (window_sketches a) \<le> 10"
  shows "wf_dict (window_sketches a') \<and> length (window_sketches a') \<le> 10
    \<and> (\<forall>r \<in> set out. fr_window_start r \<in> set (dkeys (window_sketches a'))
         \<or> (\<forall>k \<in> set (dkeys (window_sketches a')). fr_window_start r < k))"
  using fm_process_batch_cases [OF assms(1)]
proof
  assume "\<exists>rows' len b. foldE (fm_feed_row sha) rows' a = Inr b
    \<and> mapE (fm_report len) (window_sketches b) = Inr out
    \<and> a' = b\<lparr>window_sketches := fm_expire (window_sketches b)\<rparr>"
  then obtain rows' len b where b: "foldE (fm_feed_row sha) rows' a = Inr b"
    "mapE (fm_report len) (window_sketches b) = Inr out"
    "a' = b\<lparr>window_sketches := fm_expire (window_sketches b)\<rparr>" by blast
  have wf: "wf_dict (window_sketches b)"
    using b(1) assms(2)
    by (rule foldE_invariant [where I = "\<lambda>a. wf_dict (window_sketches a)"]) (rule fm_feed_row_wf)
  have "fr_window_start ` set out = set (dkeys (window_sketches b))"
    using arg_cong [OF fm_reports [OF b(2)], of set] by simp
  then have "fr_window_start r \<in> set (dkeys (window_sketches b))" if "r \<in> set out" for r
    using that by blast
  with fm_expire_spec [OF wf] b(3) show ?thesis by auto
qed (use assms in auto)

text \<open>bounded memory. After any batches a new FM plugin holds at most ten windows, each once;
  a window it reports and then drops is older (its start string is smaller) than every window
  it keeps.\<close>

theorem fm_windows_bounded:
  assumes "window_sketches a0 = []" and "foldE (fm_step sha) batches a0 = Inr a"
    and "fm_process_batch sha cfg cols rows a = Inr (a', out)"
  shows "wf_dict (window_sketches a') \<and> length (window_sketches a') \<le> 10
    \<and> (\<forall>r \<in> set out. fr_window_start r \<in> set (dkeys (window_sketches a'))
         \<or> (\<forall>k \<in> set (dkeys (window_sketches a')). fr_window_start r < k))"
proof -
  have "wf_dict (window_sketches a) \<and> length (window_sketches a) \<le> 10"
    using assms(2)
    by (rule foldE_invariant) (use assms(1) in \<open>auto simp: fm_step_def res_simps dest: fm_process_batch_wf\<close>)
  with fm_process_batch_wf [OF assms(3)] show ?thesis by blast
qed

lemma fm_example_batch:
  "\<exists>a' out. fm_process_batch (\<lambda>_ _. [1]) (JObj []) [''event_time'']
       [(''w1'', ''a'', []), (''w2'', ''b'', ''c'')]
       \<lparr>fa_hashes = 2, fa_groups = 1, fa_seed = 0, fa_window_len = JInt 10, window_sketches = []\<rparr>
     = Inr (a', out)"
proof -
  have loop: "tz_loop 1 0 = Some 0" by (subst tz_loop.simps) simp
  have fz: "first_zero_bit 0 = Some 0" "first_zero_bit 1 = Some 1"
    by (simp_all add: first_zero_bit_def first_zero_loop.simps bit_1_iff
        bit_iff_and_push_bit_not_eq_0 [symmetric])
  show ?thesis
    by (simp add: fm_process_batch_def dget_or_def fm_feed_row_def get_or_create_sketches_def
        fm_init_def add_nonempty_def fm_add_def fm_set_bit_def salted_hash_64_def trailing_zeros_def
        loop fm_report_def fm_estimate_def fz numeral_2_eq_2 Let_def)
qed

theorem fm_windows_bounded_witness:
  "\<exists>a' out. fm_process_batch (\<lambda>_ _. [1]) (JObj []) [''event_time'']
       [(''w1'', ''a'', []), (''w2'', ''b'', ''c'')]
       \<lparr>fa_hashes = 2, fa_groups = 1, fa_seed = 0, fa_window_len = JInt 10, window_sketches = []\<rparr>
     = Inr (a', out) \<and> length (window_sketches a') \<le> 10"
  using fm_example_batch
    fm_windows_bounded [where batches = "[]" and sha = "\<lambda>_ _. [1]" and cfg = "JObj []"
      and cols = "[''event_time'']" and rows = "[(''w1'', ''a'', []), (''w2'', ''b'', ''c'')]"
      and a = "\<lparr>fa_hashes = 2, fa_groups = 1, fa_seed = 0, fa_window_len = JInt 10, window_sketches = []\<rparr>"
      and ?a0.0 = "\<lparr>fa_hashes = 2, fa_groups = 1, fa_seed = 0, fa_window_len = JInt 10, window_sketches = []\<rparr>"]
  by fastforce

section \<open>Restart\<close>

definition fm_ok :: "fm \<Rightarrow> bool" where
  "fm_ok f \<longleftrightarrow> num_groups f \<noteq> 0 \<and> group_size f = num_hashes f div num_groups f"

lemma fm_restore_snapshot: "fm_ok f \<Longrightarrow> fm_restore (fm_snapshot f) g = Inr f"
  by (simp add: fm_ok_def fm_restore_def fm_snapshot_def dlookup_def mapE_map_inverse)

definition fm_add_step :: "sha \<Rightarrow> string \<Rightarrow> fm \<Rightarrow> fm" where
  "fm_add_step sha x f = (case fm_add sha x f of None \<Rightarrow> f | Some g \<Rightarrow> g)"

interpretation fm_cp: checkpointed "fm_add_step sha" fm_snapshot fm_restore fm_ok for sha
proof unfold_locales
  fix s i assume "fm_ok s"
  then show "fm_ok (fm_add_step sha i s)"
    by (auto simp: fm_add_step_def fm_add_def fm_ok_def split: option.splits)
qed (rule fm_restore_snapshot)

definition fm_analytic_ok :: "fm_analytic \<Rightarrow> bool" where
  "fm_analytic_ok a \<longleftrightarrow> 0 < fa_hashes a \<and> 0 < fa_groups a \<and> fa_hashes a mod fa_groups a = 0
     \<and> wf_dict (window_sketches a)
     \<and> (\<forall>p \<in> snd ` set (window_sketches a). fm_ok (sk_src p) \<and> fm_ok (sk_dst p))"

lemma fm_restore_windows:
  assumes "0 < fa_hashes b" "0 < fa_groups b" "fa_hashes b mod fa_groups b = 0"
    and "distinct (dkeys (window_sketches b) @ dkeys ws)"
    and "\<forall>p \<in> snd ` set ws. fm_ok (sk_src p) \<and> fm_ok (sk_dst p)"
  shows "foldE fm_restore_window
      (map (\<lambda>(ws, p). (ws, JObj [(''src'', fm_snapshot (sk_src p)), (''dst'', fm_snapshot (sk_dst p))])) ws) b
    = Inr (b\<lparr>window_sketches := window_sketches b @ ws\<rparr>)"
  using assms
proof (induction ws arbitrary: b)
  case (Cons w ws)
  obtain k p where w: "w = (k, p)" by (cases w)
  have eta: "\<lparr>sk_src = sk_src p, sk_dst = sk_dst p\<rparr> = p" by (cases p) simp
  let ?b = "b\<lparr>window_sketches := window_sketches b @ [(k, p)]\<rparr>"
  have "AList.update k p (window_sketches b) = window_sketches b @ [(k, p)]"
    using Cons.prems(4) w by (intro dset_new) auto
  then have "fm_restore_window
      (k, JObj [(''src'', fm_snapshot (sk_src p)), (''dst'', fm_snapshot (sk_dst p))]) b = Inr ?b"
    using Cons.prems w
    by (simp add: fm_restore_window_def fm_init_def dlookup_def fm_restore_snapshot eta)
  moreover have "foldE fm_restore_window
      (map (\<lambda>(ws, p). (ws, JObj [(''src'', fm_snapshot (sk_src p)), (''dst'', fm_snapshot (sk_dst p))])) ws) ?b
    = Inr (?b\<lparr>window_sketches := window_sketches ?b @ ws\<rparr>)"
    using Cons.prems w by (intro Cons.IH) auto
  ultimately show ?case by (simp add: w)
qed simp

lemma fm_analytic_roundtrip:
  assumes "fm_analytic_ok a"
    and "fa_hashes b = fa_hashes a" "fa_groups b = fa_groups a"
  shows "fm_analytic_restore (fm_analytic_snapshot a) b = Inr (b\<lparr>window_sketches := window_sketches a\<rparr>)"
  using fm_restore_windows [of "b\<lparr>window_sketches := []\<rparr>" "window_sketches a"] assms
  by (simp add: fm_analytic_restore_def fm_analytic_snapshot_def fm_analytic_ok_def dget_or_def)

end
