(* ===== verification/Itemsets.thy ===== *)
theory Itemsets
  imports Pytext
begin

text \<open>
  Frequent itemsets over one-second baskets (\<open>streaming/analytics/itemsets.py\<close>): basket
  construction, the rolling buffer, A-Priori, PCY, the brute-force baseline and the plugin
  \<open>ItemsetsAnalytic\<close>.

  A \<open>frozenset\<close> is a set; the order in which Python iterates it is the parameter
  \<open>iter\<close> (hypothesis \<open>good_iter\<close>: each element once). \<open>crc\<close> is \<open>zlib.crc32\<close> of
  the encoded text, \<open>fromiso\<close> the timestamp of \<open>datetime.fromisoformat\<close> (\<open>None\<close>: it
  raises), \<open>now\<close> the clock.
\<close>

section \<open>Baskets\<close>

text \<open>The value of a time field of a row; rows come from a Spark row's \<open>asDict()\<close>.\<close>

datatype raw_time = Datetime real | Number real | Text string | Other_Time bool

fun time_truthy :: "raw_time option \<Rightarrow> bool" where
  "time_truthy None = False"
| "time_truthy (Some (Datetime _)) = True"
| "time_truthy (Some (Number x)) = (x \<noteq> 0)"
| "time_truthy (Some (Text s)) = (s \<noteq> [])"
| "time_truthy (Some (Other_Time b)) = b"

record basket_row =
  br_src_ip :: "string option"
  br_event_time :: "raw_time option"
  br_timestamp :: "raw_time option"
  br_protocol :: "string option"
  br_dst_port :: "int option"

type_synonym basket_key = "string \<times> int"

definition slice_start :: "(string \<Rightarrow> real option) \<Rightarrow> real \<Rightarrow> basket_row \<Rightarrow> int" where
  "slice_start fromiso now r =
     (case (if time_truthy (br_event_time r) then br_event_time r else br_timestamp r) of
        Some (Datetime t) \<Rightarrow> py_trunc t
      | Some (Number t) \<Rightarrow> py_trunc t
      | Some (Text s) \<Rightarrow>
          (case fromiso (replace_z s) of Some t \<Rightarrow> py_trunc t | None \<Rightarrow> py_trunc now)
      | _ \<Rightarrow> py_trunc now)"

definition basket_item :: "basket_row \<Rightarrow> string" where
  "basket_item r =
     (let raw = (case br_protocol r of Some p \<Rightarrow> if p = [] then ''UNKNOWN'' else p | None \<Rightarrow> ''UNKNOWN'');
          protocol = strip (upper raw)
      in case br_dst_port r of
           Some port \<Rightarrow> protocol @ '':'' @ int_str port
         | None \<Rightarrow> protocol)"

definition add_row ::
  "(string \<Rightarrow> real option) \<Rightarrow> real \<Rightarrow> basket_row \<Rightarrow> (basket_key, string set) dict
     \<Rightarrow> (basket_key, string set) dict" where
  "add_row fromiso now r m =
     (case br_src_ip r of
        None \<Rightarrow> m
      | Some ip \<Rightarrow>
          if ip = [] then m
          else let key = (ip, slice_start fromiso now r)
               in dset key (insert (basket_item r) (dget_or m key {})) m)"

definition make_baskets ::
  "(string \<Rightarrow> real option) \<Rightarrow> real \<Rightarrow> basket_row list \<Rightarrow> (basket_key, string set) dict" where
  "make_baskets fromiso now rows = fold (add_row fromiso now) rows []"

section \<open>The rolling buffer\<close>

record basket_buffer =
  buf_window_s :: int
  max_baskets :: int
  baskets :: "(basket_key, string set) dict"

definition buf_init :: "int \<Rightarrow> int \<Rightarrow> basket_buffer" where
  "buf_init w m = \<lparr>buf_window_s = w, max_baskets = m, baskets = []\<rparr>"

definition buf_add :: "basket_key \<Rightarrow> string set \<Rightarrow> basket_buffer \<Rightarrow> basket_buffer" where
  "buf_add key its b =
     b\<lparr>baskets := dset key (case dget (baskets b) key of Some old \<Rightarrow> old \<union> its | None \<Rightarrow> its) (baskets b)\<rparr>"

definition buf_add_baskets :: "(basket_key, string set) dict \<Rightarrow> basket_buffer \<Rightarrow> basket_buffer" where
  "buf_add_baskets d b = fold (\<lambda>(k, its). buf_add k its) d b"

text \<open>Returns the number of evicted baskets and the new buffer.\<close>

definition buf_evict :: "int \<Rightarrow> basket_buffer \<Rightarrow> int \<times> basket_buffer" where
  "buf_evict now_s b =
     (let cutoff = now_s - buf_window_s b;
          old = filter (\<lambda>k. snd k \<le> cutoff) (dkeys (baskets b));
          m = fold ddel old (baskets b);
          count = int (length old)
      in if int (length m) > max_baskets b
         then let excess = int (length m) - max_baskets b;
                  ks = slice_to (sort_key snd (dkeys m)) excess
              in (count + excess, b\<lparr>baskets := fold ddel ks m\<rparr>)
         else (count, b\<lparr>baskets := m\<rparr>))"

definition get_baskets :: "basket_buffer \<Rightarrow> string set list" where
  "get_baskets b = map snd (baskets b)"

definition buf_snapshot :: "basket_buffer \<Rightarrow> json" where
  "buf_snapshot b =
     JObj [(''window_s'', JInt (buf_window_s b)), (''max_baskets'', JInt (max_baskets b)),
           (''baskets'', JArr (map (\<lambda>(k, v).
              JObj [(''src_ip'', JStr (fst k)), (''slice_start_s'', JInt (snd k)),
                    (''items'', JArr (map JStr (sorted_list_of_set v)))]) (baskets b)))]"

definition restore_basket :: "json \<Rightarrow> basket_buffer \<Rightarrow> basket_buffer res" where
  "restore_basket j b =
     bindE (bindE (jget j ''src_ip'') jstring) (\<lambda>ip.
     bindE (bindE (jget j ''slice_start_s'') jint) (\<lambda>s.
     bindE (bindE (bindE (jget j ''items'') jlist) (mapE jstring)) (\<lambda>its.
     Inr (b\<lparr>baskets := dset (ip, s) (set its) (baskets b)\<rparr>))))"

definition buf_restore :: "json \<Rightarrow> basket_buffer \<Rightarrow> basket_buffer res" where
  "buf_restore j b =
     bindE (bindE (jget_or j ''window_s'' (JInt (buf_window_s b))) jint) (\<lambda>w.
     bindE (bindE (jget_or j ''max_baskets'' (JInt (max_baskets b))) jint) (\<lambda>m.
     bindE (bindE (jget_or j ''baskets'' (JArr [])) jlist) (\<lambda>bs.
     foldE restore_basket bs (b\<lparr>buf_window_s := w, max_baskets := m, baskets := []\<rparr>))))"

section \<open>Mining\<close>

definition format_itemset :: "string set \<Rightarrow> string" where
  "format_itemset s = join '' + '' (sorted_list_of_set s)"

definition hash_pair :: "(string \<Rightarrow> int) \<Rightarrow> string \<Rightarrow> string \<Rightarrow> int \<Rightarrow> int res" where
  "hash_pair crc i1 i2 num_buckets =
     (let (u, v) = (if i1 \<le> i2 then (i1, i2) else (i2, i1))
      in if num_buckets = 0 then Inl ZeroDivisionError
         else Inr (crc (u @ ''|'' @ v) mod num_buckets))"

type_synonym mined = "(string set, int) dict \<times> (int \<times> int)"

definition min_support_count :: "real \<Rightarrow> nat \<Rightarrow> int" where
  "min_support_count ratio n = max 1 \<lceil>ratio * real n\<rceil>"

definition count_candidates ::
  "(string set \<Rightarrow> string list) \<Rightarrow> string list \<Rightarrow> string set set \<Rightarrow> string set list
     \<Rightarrow> (string set, int) dict" where
  "count_candidates iter f1 cand bs =
     fold (\<lambda>b pc.
       let basket_f1 = filter (\<lambda>i. i \<in> set f1) (iter b)
       in if 2 \<le> length basket_f1
          then fold (\<lambda>(u, v) pc. if {u, v} \<in> cand then counter_inc {u, v} pc else pc)
                 (pairs2 basket_f1) pc
          else pc) bs []"

definition add_frequent ::
  "int \<Rightarrow> (string set, int) dict \<Rightarrow> (string set, int) dict \<Rightarrow> (string set, int) dict" where
  "add_frequent m pc r = fold (\<lambda>(p, c) r. if c \<ge> m then dset p c r else r) pc r"

definition apriori :: "(string set \<Rightarrow> string list) \<Rightarrow> string set list \<Rightarrow> real \<Rightarrow> int \<Rightarrow> mined" where
  "apriori iter bs ratio max_size =
     (if bs = [] then ([], 0, 0)
      else
        let m = min_support_count ratio (length bs);
            item_counts = fold (\<lambda>b c. fold counter_inc (iter b) c) bs [];
            frequent_1 = filter (\<lambda>(i, c). c \<ge> m) item_counts;
            results = dict_of (map (\<lambda>(i, c). ({i}, c)) frequent_1)
        in if max_size < 2 \<or> length frequent_1 < 2 then (results, 1, 0)
        else
          let f1_list = sort (dkeys frequent_1);
              candidate_pairs = pairs2 f1_list;
              candidate_set = set (map (\<lambda>(u, v). {u, v}) candidate_pairs);
              pair_counts = count_candidates iter f1_list candidate_set bs
          in (add_frequent m pair_counts results, 2, int (length candidate_pairs)))"

definition bucket_inc :: "int \<Rightarrow> int list \<Rightarrow> int list res" where
  "bucket_inc i bc =
     (if 0 \<le> i \<and> i < int (length bc) then Inr (bc[nat i := bc ! nat i + 1]) else Inl IndexError)"

definition bitmap_at :: "bool list \<Rightarrow> int \<Rightarrow> bool res" where
  "bitmap_at bm i = (if 0 \<le> i \<and> i < int (length bm) then Inr (bm ! nat i) else Inl IndexError)"

definition hash_pairs :: "(string \<Rightarrow> int) \<Rightarrow> int \<Rightarrow> (string \<times> string) list \<Rightarrow> int list \<Rightarrow> int list res" where
  "hash_pairs crc nb = foldE (\<lambda>(u, v) bc. bindE (hash_pair crc u v nb) (\<lambda>i. bucket_inc i bc))"

definition pcy_pass1 ::
  "(string set \<Rightarrow> string list) \<Rightarrow> (string \<Rightarrow> int) \<Rightarrow> int \<Rightarrow> string set list
     \<Rightarrow> ((string, int) dict \<times> int list) res" where
  "pcy_pass1 iter crc nb bs =
     foldE (\<lambda>b (ic, bc).
       let its = sort (iter b)
       in bindE (hash_pairs crc nb (pairs2 its) bc) (\<lambda>bc'. Inr (fold counter_inc its ic, bc')))
     bs ([], replicate (nat nb) 0)"

text \<open>
  A negative index reads from the end of a Python list, but \<open>crc % num_buckets\<close> is
  negative only for a negative \<open>num_buckets\<close>, when the list is empty.
\<close>

definition pcy ::
  "(string set \<Rightarrow> string list) \<Rightarrow> (string \<Rightarrow> int) \<Rightarrow> string set list \<Rightarrow> real \<Rightarrow> int \<Rightarrow> int \<Rightarrow> mined res" where
  "pcy iter crc bs ratio nb max_size =
     (if bs = [] then Inr ([], 0, 0)
      else
        let m = min_support_count ratio (length bs)
        in bindE (pcy_pass1 iter crc nb bs) (\<lambda>(item_counts, bucket_counts).
        let frequent_1 = filter (\<lambda>(i, c). c \<ge> m) item_counts;
            results = dict_of (map (\<lambda>(i, c). ({i}, c)) frequent_1)
        in if max_size < 2 \<or> length frequent_1 < 2 then Inr (results, 1, 0)
        else
          let bitmap = map (\<lambda>c. c \<ge> m) bucket_counts;
              f1_list = sort (dkeys frequent_1)
          in bindE (filterE (\<lambda>(u, v). bindE (hash_pair crc u v nb) (bitmap_at bitmap)) (pairs2 f1_list))
             (\<lambda>candidate_pairs.
          let candidate_set = set (map (\<lambda>(u, v). {u, v}) candidate_pairs);
              pair_counts = count_candidates iter f1_list candidate_set bs
          in Inr (add_frequent m pair_counts results, 2, int (length candidate_pairs)))))"

definition brute_force :: "(string set \<Rightarrow> string list) \<Rightarrow> string set list \<Rightarrow> real \<Rightarrow> int \<Rightarrow> mined" where
  "brute_force iter bs ratio max_size =
     (if bs = [] then ([], 1, 0)
      else
        let m = min_support_count ratio (length bs);
            counts = fold (\<lambda>b c.
              let c1 = fold (\<lambda>i. counter_inc {i}) (iter b) c
              in if max_size \<ge> 2 \<and> 2 \<le> length (iter b)
                 then fold (\<lambda>(u, v). counter_inc {u, v}) (pairs2 (sort (iter b))) c1 else c1) bs []
        in (filter (\<lambda>(s, c). c \<ge> m) counts, 1, 0))"

section \<open>The plugin\<close>

text \<open>
  \<open>buffer\<close> is \<open>None\<close> before the first batch. \<open>saved\<close> is the parsed state file, if
  there is one: its \<open>last_run_time\<close> and its buffer; a file that does not restore is
  logged and ignored, keeping the last run time it already took over.
\<close>

record itemsets =
  buffer :: "basket_buffer option"
  it_window_s :: int
  every_s :: int
  min_support :: real
  num_buckets :: int
  last_run_time :: "real option"

definition itemsets_init :: itemsets where
  "itemsets_init = \<lparr>buffer = None, it_window_s = 60, every_s = 10, min_support = 5 / 100,
                    num_buckets = 10007, last_run_time = None\<rparr>"

definition restore_state :: "json option \<Rightarrow> itemsets \<Rightarrow> itemsets" where
  "restore_state saved a =
     (case saved of
        None \<Rightarrow> a
      | Some payload \<Rightarrow>
          (case jget_or payload ''last_run_time'' JNull of
             Inl _ \<Rightarrow> a
           | Inr t \<Rightarrow>
               let a1 = a\<lparr>last_run_time := (case jreal t of Inr x \<Rightarrow> Some x | Inl _ \<Rightarrow> None)\<rparr>
               in case (jget payload ''buffer'', buffer a) of
                    (Inr j, Some b) \<Rightarrow>
                      (case buf_restore j b of Inr b' \<Rightarrow> a1\<lparr>buffer := Some b'\<rparr> | Inl _ \<Rightarrow> a1)
                  | _ \<Rightarrow> a1))"

definition ensure_initialized :: "json option \<Rightarrow> json \<Rightarrow> itemsets \<Rightarrow> itemsets res" where
  "ensure_initialized saved cfg a =
     (if buffer a \<noteq> None then Inr a
      else
        bindE (jget_or cfg ''itemsets'' (JObj [])) (\<lambda>c.
        bindE (bindE (jget_or c ''window_s'' (JInt 60)) jint) (\<lambda>w.
        bindE (bindE (jget_or c ''every_s'' (JInt 10)) jint) (\<lambda>e.
        bindE (bindE (jget_or c ''min_support'' (JReal (5 / 100))) jreal) (\<lambda>m.
        bindE (bindE (jget_or c ''num_buckets'' (JInt 10007)) jint) (\<lambda>nb.
        Inr (restore_state saved (a\<lparr>it_window_s := w, every_s := e, min_support := m, num_buckets := nb,
               buffer := Some (buf_init w 20000)\<rparr>))))))))"

record itemset_row =
  ir_window_start :: string
  ir_window_len :: int
  algorithm :: string
  itemset :: string
  ir_size :: int
  support_count :: int
  support_ratio :: real
  passes :: int

definition itemset_rows :: "string \<Rightarrow> int \<Rightarrow> string \<Rightarrow> nat \<Rightarrow> mined \<Rightarrow> itemset_row list" where
  "itemset_rows ws len alg n res =
     map (\<lambda>(s, cnt). \<lparr>ir_window_start = ws, ir_window_len = len, algorithm = alg,
            itemset = format_itemset s, ir_size = int (card s), support_count = cnt,
            support_ratio = py_round (of_int cnt / of_nat n) 4, passes = fst (snd res)\<rparr>)
       (fst res)"

text \<open>
  \<open>process_batch\<close>. \<open>fmt_ts t\<close> formats a Unix time; \<open>t\<close> is the batch clock; \<open>rows\<close>
  are the collected rows before the row cap. The result is the new state and the upserted
  rows.
\<close>

definition itemsets_process_batch ::
  "(string set \<Rightarrow> string list) \<Rightarrow> (string \<Rightarrow> int) \<Rightarrow> (string \<Rightarrow> real option) \<Rightarrow> (real \<Rightarrow> string)
     \<Rightarrow> json option \<Rightarrow> json \<Rightarrow> real \<Rightarrow> real \<Rightarrow> string list \<Rightarrow> basket_row list \<Rightarrow> itemsets
     \<Rightarrow> (itemsets \<times> itemset_row list) res" where
  "itemsets_process_batch iter crc fromiso fmt_ts saved cfg now t columns rows a0 =
     bindE (ensure_initialized saved cfg a0) (\<lambda>a.
     case buffer a of None \<Rightarrow> Inr (a, []) | Some b \<Rightarrow>
     if rows = [] then Inr (a, [])
     else
       bindE (jget_or cfg ''spark'' (JObj [])) (\<lambda>spark_cfg.
       bindE (bindE (jget_or spark_cfg ''max_rows_per_batch'' (JInt 50000)) jint) (\<lambda>max_rows.
       if ''src_ip'' \<notin> set columns then Inr (a, [])
       else
         let taken = take (nat max_rows) rows;
             b1 = buf_add_baskets (make_baskets fromiso now taken) b;
             b2 = snd (buf_evict (py_trunc t) b1);
             a1 = a\<lparr>buffer := Some b2\<rparr>;
             due = (case last_run_time a of None \<Rightarrow> True | Some l \<Rightarrow> t - l \<ge> of_int (every_s a))
         in if \<not> due then Inr (a1, [])
            else
              let bs = get_baskets b2; n = length bs; ws = fmt_ts (t - of_int (it_window_s a))
              in if bs = [] then Inr (a1\<lparr>last_run_time := Some t\<rparr>, [])
                 else
                   bindE (pcy iter crc bs (min_support a) (num_buckets a) 2) (\<lambda>p.
                   Inr (a1\<lparr>last_run_time := Some t\<rparr>,
                     itemset_rows ws (it_window_s a) ''apriori'' n (apriori iter bs (min_support a) 2)
                     @ itemset_rows ws (it_window_s a) ''pcy'' n p)))))"

section \<open>Counting the baskets that contain an itemset\<close>

definition support :: "string set list \<Rightarrow> string set \<Rightarrow> int" where
  "support bs s = int (length (filter (\<lambda>b. s \<subseteq> b) bs))"

text \<open>The reference: every one- or two-element itemset with enough support, and its support.\<close>

definition frequent :: "string set list \<Rightarrow> int \<Rightarrow> string set \<Rightarrow> int option" where
  "frequent bs m s =
     (if (card s = 1 \<or> card s = 2) \<and> m \<le> support bs s then Some (support bs s) else None)"

lemma support_anti: "s \<subseteq> t \<Longrightarrow> support bs t \<le> support bs s"
  unfolding support_def by (induction bs) auto

lemma min_support_pos: "1 \<le> min_support_count ratio n"
  by (simp add: min_support_count_def)

lemma fold_concat: "fold (\<lambda>b. fold f (g b)) bs s = fold f (concat (map g bs)) s"
  by (induction bs arbitrary: s) auto

lemma count_in_baskets:
  "\<forall>b \<in> set bs. distinct (g b) \<Longrightarrow>
     count_list (concat (map g bs)) k = length (filter (\<lambda>b. k \<in> set (g b)) bs)"
  by (induction bs) (auto simp: count_list_distinct)

lemma counter_baskets:
  assumes "\<forall>b \<in> set bs. distinct (g b)"
  shows "dget (fold counter_inc (concat (map g bs)) []) k
    = (let n = length (filter (\<lambda>b. k \<in> set (g b)) bs) in if n = 0 then None else Some (int n))"
  using count_in_baskets [OF assms, of k]
  by (auto simp: counter_of Let_def count_list_0_iff filter_empty_conv)

lemma dget_filter:
  "wf_dict d \<Longrightarrow> dget (filter (\<lambda>(k, c). P c) d) k
     = (case dget d k of None \<Rightarrow> None | Some c \<Rightarrow> if P c then Some c else None)"
  by (induction d) (auto simp: map_of_eq_None_iff split: option.splits)

lemma wf_filter: "wf_dict d \<Longrightarrow> wf_dict (filter P d)"
  by (rule distinct_map_filter)

lemma dget_singletons:
  "dget (map (\<lambda>(i, c). ({i}, c)) d) s = (if card s = 1 then dget d (the_elem s) else None)"
  by (induction d) (auto simp: card_1_singleton_iff)

lemma wf_singletons: "wf_dict d \<Longrightarrow> wf_dict (map (\<lambda>(i, c). ({i}, c)) d)"
  by (induction d) force+

lemma pairs2_sets:
  "distinct xs \<Longrightarrow> set (map (\<lambda>(u, v). {u, v}) (pairs2 xs)) = {s. card s = 2 \<and> s \<subseteq> set xs}"
proof
  assume d: "distinct xs"
  show "set (map (\<lambda>(u, v). {u, v}) (pairs2 xs)) \<subseteq> {s. card s = 2 \<and> s \<subseteq> set xs}"
  proof
    fix s assume "s \<in> set (map (\<lambda>(u, v). {u, v}) (pairs2 xs))"
    then obtain u v where uv: "(u, v) \<in> set (pairs2 xs)" "s = {u, v}" by auto
    then show "s \<in> {s. card s = 2 \<and> s \<subseteq> set xs}"
      using pairs2_distinct [OF d uv(1)] pairs2_set [OF uv(1)] by simp
  qed
  show "{s. card s = 2 \<and> s \<subseteq> set xs} \<subseteq> set (map (\<lambda>(u, v). {u, v}) (pairs2 xs))"
  proof
    fix s assume "s \<in> {s. card s = 2 \<and> s \<subseteq> set xs}"
    then obtain u v where "s = {u, v}" "u \<noteq> v" "u \<in> set xs" "v \<in> set xs" by (auto simp: card_2_iff)
    with pairs2_complete [of u xs v] show "s \<in> set (map (\<lambda>(u, v). {u, v}) (pairs2 xs))"
      by (force simp: image_iff insert_commute)
  qed
qed

text \<open>The pairs of one basket that the second pass counts.\<close>

definition basket_pairs :: "(string set \<Rightarrow> string list) \<Rightarrow> string list \<Rightarrow> string set set \<Rightarrow> string set \<Rightarrow> string set list" where
  "basket_pairs iter f1 cand b =
     filter (\<lambda>p. p \<in> cand) (map (\<lambda>(u, v). {u, v}) (pairs2 (filter (\<lambda>i. i \<in> set f1) (iter b))))"

lemma pairs2_short: "length xs < 2 \<Longrightarrow> pairs2 xs = []"
  by (cases xs) auto

lemma count_candidates_concat:
  "count_candidates iter f1 cand bs = fold counter_inc (concat (map (basket_pairs iter f1 cand) bs)) []"
proof -
  have inner: "fold (\<lambda>(u, v) pc. if {u, v} \<in> cand then counter_inc {u, v} pc else pc) ps c
      = fold counter_inc (filter (\<lambda>p. p \<in> cand) (map (\<lambda>(u, v). {u, v}) ps)) c" for ps c
    by (induction ps arbitrary: c) auto
  have "(let basket_f1 = filter (\<lambda>i. i \<in> set f1) (iter b)
       in if 2 \<le> length basket_f1
          then fold (\<lambda>(u, v) pc. if {u, v} \<in> cand then counter_inc {u, v} pc else pc)
                 (pairs2 basket_f1) pc
          else pc) = fold counter_inc (basket_pairs iter f1 cand b) pc" for b pc
    by (auto simp: Let_def inner basket_pairs_def pairs2_short not_le)
  then show ?thesis by (simp only: count_candidates_def fold_concat)
qed

lemma count_candidates_support:
  assumes it: "good_iter iter" and fin: "\<forall>b \<in> set bs. finite b"
    and cand: "cand \<subseteq> {s. card s = 2 \<and> s \<subseteq> set f1}"
  shows "wf_dict (count_candidates iter f1 cand bs)"
    and "dget (count_candidates iter f1 cand bs) s
      = (if s \<in> cand \<and> support bs s \<noteq> 0 then Some (support bs s) else None)"
proof -
  let ?g = "basket_pairs iter f1 cand"
  have d: "\<forall>b \<in> set bs. distinct (?g b)"
    using it fin unfolding basket_pairs_def good_iter_def
    by (intro ballI distinct_filter pairs2_once) auto
  have mem: "s \<in> set (?g b) \<longleftrightarrow> s \<in> cand \<and> s \<subseteq> b" if "b \<in> set bs" for b
  proof -
    have d: "distinct (filter (\<lambda>i. i \<in> set f1) (iter b))" and b: "set (iter b) = b"
      using it fin that by (auto simp: good_iter_def)
    have "s \<in> cand \<Longrightarrow> card s = 2 \<and> s \<subseteq> set f1" using cand by blast
    moreover have "set (?g b) = {p. (card p = 2 \<and> p \<subseteq> {i. i \<in> b \<and> i \<in> set f1}) \<and> p \<in> cand}"
      by (simp only: basket_pairs_def set_filter pairs2_sets [OF d] b mem_Collect_eq)
    ultimately show ?thesis by (simp only: mem_Collect_eq) blast
  qed
  have "filter (\<lambda>b. s \<in> set (?g b)) bs = (if s \<in> cand then filter (\<lambda>b. s \<subseteq> b) bs else [])"
    using mem by (auto intro!: filter_cong)
  with counter_baskets [OF d, of s]
  show "dget (count_candidates iter f1 cand bs) s
      = (if s \<in> cand \<and> support bs s \<noteq> 0 then Some (support bs s) else None)"
    by (simp add: count_candidates_concat support_def Let_def)
  show "wf_dict (count_candidates iter f1 cand bs)"
    by (simp add: count_candidates_concat)
qed

lemma add_frequent_lookup:
  "wf_dict pc \<Longrightarrow> dget (add_frequent m pc r) s
     = (case dget pc s of Some c \<Rightarrow> if m \<le> c then Some c else dget r s | None \<Rightarrow> dget r s)"
proof (induction pc arbitrary: r)
  case (Cons x pc)
  obtain p c where x: "x = (p, c)" by (cases x)
  with Cons.prems have p: "dget pc p = None" by (simp add: dget_None_iff)
  have "add_frequent m (x # pc) r = add_frequent m pc (if m \<le> c then dset p c r else r)"
    by (simp add: add_frequent_def x)
  with Cons p show ?case by (cases "s = p") (simp_all add: x split: option.split)
qed (simp add: add_frequent_def)

text \<open>
  The common part of A-Priori and PCY: exact counts of the single items, and any candidate
  set between the frequent pairs and all pairs of frequent items.
\<close>

lemma item_counts:
  assumes "good_iter iter" and "\<forall>b \<in> set bs. finite b" and g: "\<forall>b. set (g b) = set (iter b) \<and> distinct (g b) = distinct (iter b)"
    and m: "1 \<le> m"
  shows "wf_dict (filter (\<lambda>(i, c). c \<ge> m) (fold counter_inc (concat (map g bs)) []))"
    and "dget (filter (\<lambda>(i, c). c \<ge> m) (fold counter_inc (concat (map g bs)) [])) i
      = (if m \<le> support bs {i} then Some (support bs {i}) else None)"
proof -
  have d: "\<forall>b \<in> set bs. distinct (g b)" using assms by (auto simp: good_iter_def)
  have "filter (\<lambda>b. i \<in> set (g b)) bs = filter (\<lambda>b. {i} \<subseteq> b) bs"
    using assms by (intro filter_cong) (auto simp: good_iter_def)
  with counter_baskets [OF d, of i] m
  show "dget (filter (\<lambda>(i, c). c \<ge> m) (fold counter_inc (concat (map g bs)) [])) i
      = (if m \<le> support bs {i} then Some (support bs {i}) else None)"
    by (simp add: dget_filter support_def Let_def)
  show "wf_dict (filter (\<lambda>(i, c). c \<ge> m) (fold counter_inc (concat (map g bs)) []))"
    by (rule wf_filter) simp
qed

lemma singles_lookup:
  assumes "wf_dict f1" and "\<And>i. dget f1 i = (if m \<le> support bs {i} then Some (support bs {i}) else None)"
  shows "dget (dict_of (map (\<lambda>(i, c). ({i}, c)) f1)) s
    = (if card s = 1 \<and> m \<le> support bs s then Some (support bs s) else None)"
  unfolding dict_of_id [OF wf_singletons [OF assms(1)]]
  by (auto simp: assms(2) dget_singletons card_1_singleton_iff)

lemma two_frequent:
  assumes "wf_dict f1" and f1: "\<And>i. dget f1 i = (if m \<le> support bs {i} then Some (support bs {i}) else None)"
    and "card s = 2" and "m \<le> support bs s"
  shows "2 \<le> length f1 \<and> s \<subseteq> set (dkeys f1)"
proof -
  have sub: "s \<subseteq> set (dkeys f1)"
  proof
    fix i assume "i \<in> s"
    then have "support bs s \<le> support bs {i}" by (intro support_anti) simp
    with f1 [of i] assms(4) have "dget f1 i \<noteq> None" by simp
    then show "i \<in> set (dkeys f1)" by (simp add: dget_None_iff)
  qed
  have "card s \<le> card (set (dkeys f1))" by (rule card_mono [OF _ sub]) simp
  also have "\<dots> \<le> length f1" using card_length [of "dkeys f1"] by simp
  finally show ?thesis using sub assms(3) by simp
qed

lemma pairs_lookup:
  assumes it: "good_iter iter" and fin: "\<forall>b \<in> set bs. finite b" and m: "1 \<le> m"
    and "wf_dict f1" and "\<And>i. dget f1 i = (if m \<le> support bs {i} then Some (support bs {i}) else None)"
    and cand: "cand \<subseteq> {s. card s = 2 \<and> s \<subseteq> set (dkeys f1)}"
    and all: "\<And>s. card s = 2 \<Longrightarrow> m \<le> support bs s \<Longrightarrow> s \<in> cand"
  shows "dget (add_frequent m (count_candidates iter (sort (dkeys f1)) cand bs)
      (dict_of (map (\<lambda>(i, c). ({i}, c)) f1))) s = frequent bs m s"
proof -
  have c: "cand \<subseteq> {s. card s = 2 \<and> s \<subseteq> set (sort (dkeys f1))}" using cand by simp
  show ?thesis
    using m all [of s] cand
    by (auto simp: add_frequent_lookup count_candidates_support [OF it fin c]
        singles_lookup [OF assms(4,5)] frequent_def)
qed

lemma early_lookup:
  assumes "wf_dict f1" and "\<And>i. dget f1 i = (if m \<le> support bs {i} then Some (support bs {i}) else None)"
    and "length f1 < 2"
  shows "dget (dict_of (map (\<lambda>(i, c). ({i}, c)) f1)) s = frequent bs m s"
  using two_frequent [OF assms(1,2), of s] assms(3)
  by (auto simp: singles_lookup [OF assms(1,2)] frequent_def)

section \<open>A-Priori and the brute-force baseline\<close>

lemma apriori_lookup:
  assumes it: "good_iter iter" and fin: "\<forall>b \<in> set bs. finite b" and ne: "bs \<noteq> []" and "2 \<le> k"
  shows "dget (fst (apriori iter bs ratio k)) s = frequent bs (min_support_count ratio (length bs)) s"
proof -
  let ?m = "min_support_count ratio (length bs)"
  let ?f1 = "filter (\<lambda>(i, c). c \<ge> ?m) (fold counter_inc (concat (map iter bs)) [])"
  have wf: "wf_dict ?f1" by (rule wf_filter) simp
  have look: "dget ?f1 i = (if ?m \<le> support bs {i} then Some (support bs {i}) else None)" for i
    by (rule item_counts(2) [OF it fin _ min_support_pos]) simp
  let ?c = "set (map (\<lambda>(u, v). {u, v}) (pairs2 (sort (dkeys ?f1))))"
  have c: "?c = {s. card s = 2 \<and> s \<subseteq> set (dkeys ?f1)}"
    using pairs2_sets [of "sort (dkeys ?f1)"] wf by simp
  have res: "fst (apriori iter bs ratio k) = (if length ?f1 < 2 then dict_of (map (\<lambda>(i, c). ({i}, c)) ?f1)
      else add_frequent ?m (count_candidates iter (sort (dkeys ?f1)) ?c bs)
             (dict_of (map (\<lambda>(i, c). ({i}, c)) ?f1)))"
    using assms(4) ne by (simp add: apriori_def fold_concat Let_def)
  show ?thesis
  proof (cases "length ?f1 < 2")
    case True
    with res early_lookup [OF wf look] show ?thesis by simp
  next
    case False
    have "dget (add_frequent ?m (count_candidates iter (sort (dkeys ?f1)) ?c bs)
             (dict_of (map (\<lambda>(i, c). ({i}, c)) ?f1))) s = frequent bs ?m s"
      by (rule pairs_lookup [OF it fin min_support_pos wf look])
        (use c two_frequent [OF wf look] in auto)
    with res False show ?thesis by simp
  qed
qed

lemma brute_lookup:
  assumes it: "good_iter iter" and fin: "\<forall>b \<in> set bs. finite b" and ne: "bs \<noteq> []" and "2 \<le> k"
  shows "dget (fst (brute_force iter bs ratio k)) s = frequent bs (min_support_count ratio (length bs)) s"
proof -
  let ?m = "min_support_count ratio (length bs)"
  let ?g = "\<lambda>b. map (\<lambda>i. {i}) (iter b) @ map (\<lambda>(u, v). {u, v}) (pairs2 (sort (iter b)))"
  have body: "(let c1 = fold (\<lambda>i. counter_inc {i}) (iter b) c
      in if k \<ge> 2 \<and> 2 \<le> length (iter b)
         then fold (\<lambda>(u, v). counter_inc {u, v}) (pairs2 (sort (iter b))) c1 else c1)
      = fold counter_inc (?g b) c" for b and c :: "(string set, int) dict"
  proof -
    have "fold (\<lambda>(u, v). counter_inc {u, v}) ps c = fold counter_inc (map (\<lambda>(u, v). {u, v}) ps) c"
      for ps :: "(string \<times> string) list" and c :: "(string set, int) dict"
      by (simp add: fold_map comp_def case_prod_unfold)
    moreover have "fold (\<lambda>i. counter_inc {i}) is c = fold counter_inc (map (\<lambda>i. {i}) is) c"
      for "is" :: "string list" and c :: "(string set, int) dict"
      by (simp add: fold_map comp_def)
    ultimately show ?thesis using assms(4) pairs2_short [of "sort (iter b)"]
      by (auto simp: Let_def not_le)
  qed
  have iter: "distinct (iter b)" "set (iter b) = b" if "b \<in> set bs" for b
    using it fin that by (auto simp: good_iter_def)
  have d: "distinct (?g b)" if "b \<in> set bs" for b
  proof -
    have "distinct (sort (iter b))" using iter [OF that] by simp
    moreover have "distinct (map (\<lambda>i. {i}) (iter b))" using iter [OF that] by (simp add: distinct_map inj_on_def)
    ultimately show ?thesis using pairs2_once [of "sort (iter b)"] pairs2_sets [of "sort (iter b)"] by auto
  qed
  have mem: "s \<in> set (?g b) \<longleftrightarrow> (card s = 1 \<or> card s = 2) \<and> s \<subseteq> b" if "b \<in> set bs" for b
  proof -
    have "set (map (\<lambda>(u, v). {u, v}) (pairs2 (sort (iter b)))) = {s. card s = 2 \<and> s \<subseteq> b}"
      using pairs2_sets [of "sort (iter b)"] iter [OF that] by simp
    moreover have "s \<in> set (map (\<lambda>i. {i}) (iter b)) \<longleftrightarrow> card s = 1 \<and> s \<subseteq> b"
      using iter [OF that] by (auto simp: card_1_singleton_iff)
    ultimately show ?thesis by (simp only: set_append) blast
  qed
  have eq: "filter (\<lambda>b. s \<in> set (?g b)) bs
      = (if card s = 1 \<or> card s = 2 then filter (\<lambda>b. s \<subseteq> b) bs else [])"
    using mem by (auto intro!: filter_cong)
  have "fst (brute_force iter bs ratio k) = filter (\<lambda>(s, c). c \<ge> ?m)
      (fold (\<lambda>b c. let c1 = fold (\<lambda>i. counter_inc {i}) (iter b) c
        in if k \<ge> 2 \<and> 2 \<le> length (iter b)
           then fold (\<lambda>(u, v). counter_inc {u, v}) (pairs2 (sort (iter b))) c1 else c1) bs [])"
    using ne by (simp add: brute_force_def Let_def)
  also have "\<dots> = filter (\<lambda>(s, c). c \<ge> ?m) (fold counter_inc (concat (map ?g bs)) [])"
    by (simp only: body fold_concat)
  finally have "fst (brute_force iter bs ratio k)
      = filter (\<lambda>(s, c). c \<ge> ?m) (fold counter_inc (concat (map ?g bs)) [])" .
  then have "dget (fst (brute_force iter bs ratio k)) s
      = (case dget (fold counter_inc (concat (map ?g bs)) []) s of
           None \<Rightarrow> None | Some c \<Rightarrow> if c \<ge> ?m then Some c else None)"
    using dget_filter [of "fold counter_inc (concat (map ?g bs)) []" "\<lambda>c. c \<ge> ?m" s] by simp
  also have "\<dots> = frequent bs ?m s"
    using counter_baskets [of bs ?g s] d eq min_support_pos [of ratio "length bs"]
    by (auto simp: frequent_def support_def Let_def)
  finally show ?thesis .
qed

section \<open>PCY\<close>

definition bucket_of :: "(string \<Rightarrow> int) \<Rightarrow> int \<Rightarrow> string \<times> string \<Rightarrow> int" where
  "bucket_of crc nb p = crc (min (fst p) (snd p) @ ''|'' @ max (fst p) (snd p)) mod nb"

lemma hash_pair_bucket: "0 < nb \<Longrightarrow> hash_pair crc u v nb = Inr (bucket_of crc nb (u, v))"
  by (auto simp: hash_pair_def bucket_of_def min_def max_def)

lemma bucket_of_range: "0 < nb \<Longrightarrow> 0 \<le> bucket_of crc nb p \<and> bucket_of crc nb p < nb"
  by (simp add: bucket_of_def)

lemma bucket_of_sym: "bucket_of crc nb (u, v) = bucket_of crc nb (v, u)"
  by (simp add: bucket_of_def min.commute max.commute)

lemma hash_pairs_count:
  assumes "0 < nb" and "length bc = nat nb"
  shows "\<exists>bc'. hash_pairs crc nb ps bc = Inr bc' \<and> length bc' = nat nb
    \<and> (\<forall>j < nat nb. bc' ! j = bc ! j + int (length (filter (\<lambda>p. bucket_of crc nb p = int j) ps)))"
  using assms(2)
proof (induction ps arbitrary: bc)
  case (Cons p ps)
  let ?i = "bucket_of crc nb p"
  let ?bc = "bc[nat ?i := bc ! nat ?i + 1]"
  have r: "0 \<le> ?i" "?i < nb" using bucket_of_range [OF assms(1)] by auto
  from Cons.IH [of ?bc] Cons.prems obtain bc' where bc': "hash_pairs crc nb ps ?bc = Inr bc'"
    "length bc' = nat nb"
    "\<forall>j < nat nb. bc' ! j = ?bc ! j + int (length (filter (\<lambda>p. bucket_of crc nb p = int j) ps))" by auto
  have "hash_pairs crc nb (p # ps) bc = Inr bc'"
    using bc'(1) r Cons.prems assms(1) by (cases p) (simp add: hash_pairs_def hash_pair_bucket bucket_inc_def)
  moreover have "bc' ! j = bc ! j + int (length (filter (\<lambda>p. bucket_of crc nb p = int j) (p # ps)))"
    if "j < nat nb" for j
    using bc'(3) that r Cons.prems by (cases "j = nat ?i") auto
  ultimately show ?case using bc'(2) by blast
qed (simp add: hash_pairs_def)

lemma pcy_pass1_count:
  assumes "0 < nb"
  shows "\<exists>bc. pcy_pass1 iter crc nb bs = Inr (fold counter_inc (concat (map (\<lambda>b. sort (iter b)) bs)) [], bc)
    \<and> length bc = nat nb
    \<and> (\<forall>j < nat nb. bc ! j = int (length (filter (\<lambda>p. bucket_of crc nb p = int j)
          (concat (map (\<lambda>b. pairs2 (sort (iter b))) bs)))))"
proof -
  let ?f = "\<lambda>b (ic, bc). let its = sort (iter b)
       in bindE (hash_pairs crc nb (pairs2 its) bc) (\<lambda>bc'. Inr (fold counter_inc its ic, bc'))"
  have "length bc = nat nb \<Longrightarrow> \<exists>bc'. foldE ?f bs (ic, bc)
      = Inr (fold counter_inc (concat (map (\<lambda>b. sort (iter b)) bs)) ic, bc')
    \<and> length bc' = nat nb
    \<and> (\<forall>j < nat nb. bc' ! j = bc ! j + int (length (filter (\<lambda>p. bucket_of crc nb p = int j)
          (concat (map (\<lambda>b. pairs2 (sort (iter b))) bs)))))" for ic bc
  proof (induction bs arbitrary: ic bc)
    case (Cons b bs)
    from hash_pairs_count [OF assms Cons.prems, of crc "pairs2 (sort (iter b))"] obtain bc1 where
      bc1: "hash_pairs crc nb (pairs2 (sort (iter b))) bc = Inr bc1" "length bc1 = nat nb"
      "\<forall>j < nat nb. bc1 ! j = bc ! j + int (length (filter (\<lambda>p. bucket_of crc nb p = int j)
          (pairs2 (sort (iter b)))))" by blast
    from Cons.IH [OF bc1(2), of "fold counter_inc (sort (iter b)) ic"] bc1 show ?case
      by (auto simp: Let_def)
  qed simp
  from this [of "replicate (nat nb) 0" "[]"] show ?thesis by (auto simp: pcy_pass1_def)
qed

lemma filter_concat_ge:
  "length (filter (\<lambda>b. \<exists>x \<in> set (g b). P x) bs) \<le> length (filter P (concat (map g bs)))"
proof (induction bs)
  case (Cons b bs)
  have "\<exists>x \<in> set (g b). P x \<Longrightarrow> 1 \<le> length (filter P (g b))"
    by (cases "filter P (g b)") (auto simp: filter_empty_conv)
  with Cons show ?case by (cases "\<exists>x \<in> set (g b). P x") auto
qed simp

lemma length_filter_mono:
  "(\<And>x. x \<in> set xs \<Longrightarrow> P x \<Longrightarrow> Q x) \<Longrightarrow> length (filter P xs) \<le> length (filter Q xs)"
  by (induction xs) auto

lemma bucket_support:
  assumes it: "good_iter iter" and fin: "\<forall>b \<in> set bs. finite b" and "u \<noteq> v"
  shows "support bs {u, v} \<le> int (length (filter (\<lambda>p. bucket_of crc nb p = bucket_of crc nb (u, v))
      (concat (map (\<lambda>b. pairs2 (sort (iter b))) bs))))"
proof -
  let ?P = "\<lambda>p. bucket_of crc nb p = bucket_of crc nb (u, v)"
  have "\<exists>p \<in> set (pairs2 (sort (iter b))). ?P p" if "b \<in> set bs" "{u, v} \<subseteq> b" for b
  proof -
    have "u \<in> set (sort (iter b))" "v \<in> set (sort (iter b))"
      using it fin that by (auto simp: good_iter_def)
    from pairs2_complete [OF this \<open>u \<noteq> v\<close>] show ?thesis
      using bucket_of_sym [of crc nb u v] by auto
  qed
  then have "length (filter (\<lambda>b. {u, v} \<subseteq> b) bs)
      \<le> length (filter (\<lambda>b. \<exists>p \<in> set (pairs2 (sort (iter b))). ?P p) bs)"
    by (rule length_filter_mono)
  with filter_concat_ge [of "\<lambda>b. pairs2 (sort (iter b))" ?P bs] show ?thesis
    unfolding support_def by linarith
qed

lemma pcy_lookup:
  assumes it: "good_iter iter" and fin: "\<forall>b \<in> set bs. finite b" and ne: "bs \<noteq> []" and k: "2 \<le> k"
    and nb: "0 < nb"
  shows "\<exists>r ps cs. pcy iter crc bs ratio nb k = Inr (r, ps, cs)
    \<and> (\<forall>s. dget r s = frequent bs (min_support_count ratio (length bs)) s)
    \<and> ps = fst (snd (apriori iter bs ratio k)) \<and> cs \<le> snd (snd (apriori iter bs ratio k))"
proof -
  let ?m = "min_support_count ratio (length bs)"
  from pcy_pass1_count [OF nb, of iter crc bs] obtain bc where
    bc: "pcy_pass1 iter crc nb bs = Inr (fold counter_inc (concat (map (\<lambda>b. sort (iter b)) bs)) [], bc)"
    "length bc = nat nb"
    "\<forall>j < nat nb. bc ! j = int (length (filter (\<lambda>p. bucket_of crc nb p = int j)
          (concat (map (\<lambda>b. pairs2 (sort (iter b))) bs))))" by blast
  define f1 where "f1 = filter (\<lambda>(i, c). c \<ge> ?m) (fold counter_inc (concat (map (\<lambda>b. sort (iter b)) bs)) [])"
  define g1 where "g1 = filter (\<lambda>(i, c). c \<ge> ?m) (fold counter_inc (concat (map iter bs)) [])"
  have wf: "wf_dict f1" "wf_dict g1" unfolding f1_def g1_def by (rule wf_filter, simp)+
  have look: "dget f1 i = (if ?m \<le> support bs {i} then Some (support bs {i}) else None)"
    "dget g1 i = (if ?m \<le> support bs {i} then Some (support bs {i}) else None)" for i
    unfolding f1_def g1_def by (rule item_counts(2) [OF it fin _ min_support_pos]; simp)+
  have "i \<in> set (dkeys f1) \<longleftrightarrow> i \<in> set (dkeys g1)" for i
    using look [of i] dget_None_iff [of f1 i] dget_None_iff [of g1 i] by simp
  then have "sort (dkeys f1) = sort (dkeys g1)"
    using wf by (intro sorted_distinct_set_unique) auto
  then have l: "sort (dkeys f1) = sort (dkeys g1)" "length f1 = length g1"
    by (auto dest: arg_cong [of _ _ length])
  let ?l = "sort (dkeys f1)"
  let ?P = "\<lambda>(u, v). ?m \<le> bc ! nat (bucket_of crc nb (u, v))"
  let ?cand = "set (map (\<lambda>(u, v). {u, v}) (filter ?P (pairs2 ?l)))"
  have fil: "filterE (\<lambda>(u, v). bindE (hash_pair crc u v nb) (bitmap_at (map (\<lambda>c. c \<ge> ?m) bc))) (pairs2 ?l)
      = Inr (filter ?P (pairs2 ?l))"
  proof (rule filterE_all)
    fix p
    show "(case p of (u, v) \<Rightarrow> bindE (hash_pair crc u v nb) (bitmap_at (map (\<lambda>c. c \<ge> ?m) bc))) = Inr (?P p)"
      using bucket_of_range [OF nb, of crc p] bc(2)
      by (cases p) (simp add: hash_pair_bucket [OF nb] bitmap_at_def nat_less_iff)
  qed
  have ap: "snd (apriori iter bs ratio k) = (if length f1 < 2 then (1, 0) else (2, int (length (pairs2 ?l))))"
    using k ne l by (simp add: apriori_def fold_concat Let_def g1_def [symmetric])
  show ?thesis
  proof (cases "length f1 < 2")
    case True
    then have "pcy iter crc bs ratio nb k = Inr (dict_of (map (\<lambda>(i, c). ({i}, c)) f1), 1, 0)"
      using ne by (simp add: pcy_def bc(1) Let_def f1_def [symmetric])
    with True ap early_lookup [OF wf(1) look(1)] show ?thesis by simp
  next
    case False
    then have run: "pcy iter crc bs ratio nb k
        = Inr (add_frequent ?m (count_candidates iter ?l ?cand bs) (dict_of (map (\<lambda>(i, c). ({i}, c)) f1)),
               2, int (length (filter ?P (pairs2 ?l))))"
      using ne k by (simp add: pcy_def bc(1) Let_def f1_def [symmetric] fil del: set_map set_filter)
    have all: "s \<in> ?cand" if s: "card s = 2" "?m \<le> support bs s" for s
    proof -
      have "s \<in> set (map (\<lambda>(u, v). {u, v}) (pairs2 ?l))"
        using pairs2_sets [of ?l] wf(1) two_frequent [OF wf(1) look(1) s] s(1) by simp
      then obtain u v where uv: "(u, v) \<in> set (pairs2 ?l)" "s = {u, v}" by auto
      have "u \<noteq> v" using uv s(1) by auto
      from bucket_support [OF it fin this, of crc nb] bc(3) bucket_of_range [OF nb, of crc "(u, v)"]
      have "support bs {u, v} \<le> bc ! nat (bucket_of crc nb (u, v))" by (simp add: nat_less_iff)
      with s(2) uv have "(u, v) \<in> set (filter ?P (pairs2 ?l))" by simp
      from imageI [OF this, of "\<lambda>(u, v). {u, v}"] uv(2) show ?thesis by simp
    qed
    have "?cand \<subseteq> set (map (\<lambda>(u, v). {u, v}) (pairs2 ?l))" by auto
    also have "\<dots> = {s. card s = 2 \<and> s \<subseteq> set (dkeys f1)}"
      using pairs2_sets [of ?l] wf(1) by simp
    finally have sub: "?cand \<subseteq> {s. card s = 2 \<and> s \<subseteq> set (dkeys f1)}" .
    have "dget (add_frequent ?m (count_candidates iter ?l ?cand bs)
             (dict_of (map (\<lambda>(i, c). ({i}, c)) f1))) s = frequent bs ?m s" for s
      by (rule pairs_lookup [OF it fin min_support_pos wf(1) look(1) sub all])
    with run ap False show ?thesis by simp
  qed
qed

section \<open>The buffer\<close>

definition buf_ok :: "basket_buffer \<Rightarrow> bool" where
  "buf_ok b \<longleftrightarrow> wf_dict (baskets b) \<and> (\<forall>s \<in> snd ` set (baskets b). finite s)"

lemma buf_add_ok: "buf_ok b \<Longrightarrow> finite its \<Longrightarrow> buf_ok (buf_add k its b)"
proof -
  assume b: "buf_ok b" and f: "finite its"
  let ?v = "case dget (baskets b) k of Some old \<Rightarrow> old \<union> its | None \<Rightarrow> its"
  have "finite ?v" using b f by (auto simp: buf_ok_def dest!: map_of_SomeD split: option.splits)
  then have "finite (snd x)" if "x \<in> set (dset k ?v (baskets b))" for x
    using set_dset_cases [OF that] b by (auto simp: buf_ok_def)
  then show ?thesis using b by (auto simp: buf_ok_def buf_add_def)
qed

text \<open>eviction.  After \<open>evict\<close> every basket left is younger than the window and keeps its
  items, at most \<open>max_baskets\<close> are left, the baskets dropped for capacity are the oldest, and
  the returned number is how many were dropped.\<close>

theorem basket_evict:
  assumes "wf_dict (baskets b)" and "0 \<le> max_baskets b" and "buf_evict now_s b = (n, b')"
  shows "wf_dict (baskets b')
    \<and> (\<forall>k \<in> set (dkeys (baskets b')). now_s - buf_window_s b < snd k
          \<and> dget (baskets b') k = dget (baskets b) k)
    \<and> int (length (baskets b')) \<le> max_baskets b
    \<and> (\<forall>k \<in> set (dkeys (baskets b)) - set (dkeys (baskets b')). now_s - buf_window_s b < snd k
          \<longrightarrow> (\<forall>k' \<in> set (dkeys (baskets b')). snd k \<le> snd k'))
    \<and> n = int (length (baskets b)) - int (length (baskets b'))"
proof -
  let ?d = "baskets b" and ?old = "\<lambda>k. snd k \<le> now_s - buf_window_s b"
  define m where "m = fold ddel (filter ?old (dkeys ?d)) ?d"
  have old_set: "fst p \<notin> set (filter ?old (dkeys ?d)) \<longleftrightarrow> \<not> ?old (fst p)" if "p \<in> set ?d" for p
    using that by auto
  have mf: "m = filter (\<lambda>p. \<not> ?old (fst p)) ?d"
    unfolding m_def ddel_all using old_set by (intro filter_cong refl)
  have wfm: "wf_dict m" unfolding mf by (rule distinct_map_filter [OF assms(1)])
  have keysm: "set (dkeys m) = {k \<in> set (dkeys ?d). \<not> ?old k}" unfolding mf by auto
  have lookm: "dget m k = dget ?d k" if "\<not> ?old k" for k
    using that unfolding mf dget_filter_key [of "\<lambda>k. \<not> ?old k"] by simp
  have lenm: "int (length m) = int (length ?d) - int (length (filter ?old (dkeys ?d)))"
    using sum_length_filter_compl [of "\<lambda>p. ?old (fst p)" ?d] unfolding mf
    by (simp add: filter_map comp_def)
  show ?thesis
  proof (cases "int (length m) > max_baskets b")
    case False
    then have "n = int (length (filter ?old (dkeys ?d)))" "baskets b' = m"
      using assms(3) by (auto simp: buf_evict_def Let_def m_def [symmetric])
    with False wfm keysm lookm lenm show ?thesis by auto
  next
    case True
    let ?e = "nat (int (length m) - max_baskets b)"
    let ?ks = "sort_key snd (dkeys m)"
    have e: "int ?e = int (length m) - max_baskets b" using True by simp
    have n: "n = int (length (filter ?old (dkeys ?d))) + int ?e"
      and b': "baskets b' = fold ddel (take ?e ?ks) m"
      using assms(3) True by (auto simp: buf_evict_def Let_def m_def [symmetric] slice_to_def)
    have ks: "distinct ?ks" "set ?ks = set (dkeys m)" using wfm by simp_all
    note ev = evict_keys [OF wfm ks b']
    have split: "set ?ks = set (take ?e ?ks) \<union> set (drop ?e ?ks)"
      by (metis append_take_drop_id set_append)
    have le: "snd k \<le> snd k'" if "k \<in> set (take ?e ?ks)" "k' \<in> set (drop ?e ?ks)" for k k'
      by (rule sorted_take_drop [OF sorted_sort_key that])
    have "snd k \<le> snd k'" if "k \<in> set (dkeys ?d)" "k \<notin> set (dkeys (baskets b'))" "\<not> ?old k"
      "k' \<in> set (dkeys (baskets b'))" for k k'
    proof -
      have "k \<in> set ?ks" unfolding ks(2) keysm using that by simp
      then have "k \<in> set (take ?e ?ks)" using that(2) unfolding split ev(2) Un_iff by simp
      with le that(4) show ?thesis unfolding ev(2) by simp
    qed
    then have dropped: "\<forall>k \<in> set (dkeys ?d) - set (dkeys (baskets b')). \<not> ?old k
          \<longrightarrow> (\<forall>k' \<in> set (dkeys (baskets b')). snd k \<le> snd k')" 
      by (meson DiffD1 DiffD2)
    have kept: "\<forall>k \<in> set (dkeys (baskets b')). \<not> ?old k \<and> dget (baskets b') k = dget ?d k"
    proof
      fix k assume k: "k \<in> set (dkeys (baskets b'))"
      then have "k \<in> set ?ks" unfolding split ev(2) by simp
      then have "\<not> ?old k" unfolding ks(2) keysm by simp
      moreover have "k \<notin> set (take ?e ?ks)"
        using k ev(5) [of k] dget_None_iff [of "baskets b'" k] by auto
      ultimately show "\<not> ?old k \<and> dget (baskets b') k = dget ?d k"
        using ev(5) lookm by simp
    qed
    have len: "int (length (baskets b')) = max_baskets b" using ev(3) e assms(2) by simp
    have "n = int (length ?d) - int (length (baskets b'))" using n e len lenm by simp
    then show ?thesis
      using ev(1) kept [unfolded not_le] dropped [unfolded not_le] len
      by (intro conjI) (assumption | simp only: order_refl)+
  qed
qed

theorem basket_evict_witness:
  "let b = \<lparr>buf_window_s = 10, max_baskets = 1,
            baskets = [((''a'', 1), {''TCP''}), ((''a'', 22), {''UDP''}), ((''b'', 21), {''TCP:80''})]\<rparr>
   in int (length (baskets (snd (buf_evict 30 b)))) \<le> max_baskets b \<and> fst (buf_evict 30 b) = 2"
proof -
  let ?b = "\<lparr>buf_window_s = 10, max_baskets = 1,
      baskets = [((''a'', 1), {''TCP''}), ((''a'', 22), {''UDP''}), ((''b'', 21), {''TCP:80''})]\<rparr>"
  have run: "buf_evict 30 ?b = (2, \<lparr>buf_window_s = 10, max_baskets = 1, baskets = [((''a'', 22), {''UDP''})]\<rparr>)"
    by (simp add: buf_evict_def slice_to_def Let_def)
  from basket_evict [OF _ _ run] run show ?thesis by (simp add: Let_def)
qed

section \<open>Basket construction\<close>

lemma make_baskets_lookup:
  "dget (make_baskets fromiso now rows) key
   = (let its = basket_item ` {r \<in> set rows. br_src_ip r = Some (fst key) \<and> fst key \<noteq> []
                                 \<and> slice_start fromiso now r = snd key}
      in if its = {} then None else Some its)"
proof (induction rows rule: rev_induct)
  case (snoc r rows)
  let ?R = "\<lambda>rows. {r \<in> set rows. br_src_ip r = Some (fst key) \<and> fst key \<noteq> []
      \<and> slice_start fromiso now r = snd key}"
  have step: "make_baskets fromiso now (rows @ [r]) = add_row fromiso now r (make_baskets fromiso now rows)"
    by (simp add: make_baskets_def)
  show ?case
  proof (cases "br_src_ip r = Some (fst key) \<and> fst key \<noteq> [] \<and> slice_start fromiso now r = snd key")
    case True
    then have R: "?R (rows @ [r]) = insert r (?R rows)" by auto
    have "dget (make_baskets fromiso now (rows @ [r])) key
        = Some (insert (basket_item r) (dget_or (make_baskets fromiso now rows) key {}))"
      unfolding step using True by (cases key) (auto simp: add_row_def Let_def)
    also have "dget_or (make_baskets fromiso now rows) key {} = basket_item ` ?R rows"
      using snoc by (simp add: dget_or_def Let_def)
    finally show ?thesis unfolding R by (simp add: Let_def)
  next
    case False
    then have R: "?R (rows @ [r]) = ?R rows" by auto
    have "dget (make_baskets fromiso now (rows @ [r])) key = dget (make_baskets fromiso now rows) key"
      unfolding step using False by (cases key) (auto simp: add_row_def Let_def split: option.splits)
    with snoc show ?thesis unfolding R by simp
  qed
qed (simp add: make_baskets_def)

lemma make_baskets_wf: "wf_dict (make_baskets fromiso now rows)"
proof -
  have "wf_dict m \<Longrightarrow> wf_dict (fold (add_row fromiso now) rows m)" for m
    by (induction rows arbitrary: m) (auto simp: add_row_def Let_def split: option.splits)
  then show ?thesis by (simp add: make_baskets_def)
qed

lemma make_baskets_finite: "(k, its) \<in> set (make_baskets fromiso now rows) \<Longrightarrow> finite its"
  using make_baskets_lookup [of fromiso now rows k] make_baskets_wf [of fromiso now rows]
  by (auto simp: Let_def split: if_splits)

text \<open>baskets.  \<open>make_baskets\<close> puts into the basket of a source address and a second exactly
  the items of the rows with that (non-empty) address in that second, creates no empty basket
  and no basket twice.\<close>

theorem make_baskets_spec:
  "wf_dict (make_baskets fromiso now rows)
   \<and> dget (make_baskets fromiso now rows) (ip, sec)
     = (let its = basket_item ` {r \<in> set rows. br_src_ip r = Some ip \<and> ip \<noteq> []
                                   \<and> slice_start fromiso now r = sec}
        in if its = {} then None else Some its)"
  using make_baskets_wf make_baskets_lookup [of fromiso now rows "(ip, sec)"] by simp

lemma buf_add_baskets_ok:
  "buf_ok b \<Longrightarrow> \<forall>x \<in> set d. finite (snd x) \<Longrightarrow> buf_ok (buf_add_baskets d b)"
  unfolding buf_add_baskets_def by (induction d arbitrary: b) (auto simp: buf_add_ok)

lemma buf_evict_subset: "set (baskets (snd (buf_evict t b))) \<subseteq> set (baskets b)"
  by (auto simp: buf_evict_def Let_def ddel_all)

lemma buf_evict_ok: "buf_ok b \<Longrightarrow> buf_ok (snd (buf_evict t b))"
proof -
  assume b: "buf_ok b"
  then have "wf_dict (baskets (snd (buf_evict t b)))"
    by (auto simp: buf_ok_def buf_evict_def Let_def ddel_all intro!: distinct_map_filter)
  with b buf_evict_subset [of t b] show ?thesis unfolding buf_ok_def by blast
qed

section \<open>Restart\<close>

lemma restore_basket_all:
  assumes "\<forall>x \<in> set d. finite (snd x)" and "distinct (dkeys (baskets b) @ dkeys d)"
  shows "foldE restore_basket (map (\<lambda>(k, v).
              JObj [(''src_ip'', JStr (fst k)), (''slice_start_s'', JInt (snd k)),
                    (''items'', JArr (map JStr (sorted_list_of_set v)))]) d) b
         = Inr (b\<lparr>baskets := baskets b @ d\<rparr>)"
  using assms
proof (induction d arbitrary: b)
  case (Cons x d)
  obtain ip sec v where x: "x = ((ip, sec), v)" by (metis prod.exhaust)
  have new: "dset (ip, sec) v (baskets b) = baskets b @ [((ip, sec), v)]"
    using Cons.prems x by (intro dset_new) auto
  have v: "set (sorted_list_of_set v) = v" using Cons.prems x by simp
  show ?case
    using Cons.IH [of "b\<lparr>baskets := baskets b @ [((ip, sec), v)]\<rparr>"] Cons.prems x
    by (simp add: restore_basket_def dlookup_def mapE_map_inverse new v)
qed simp

lemma buf_restore_snapshot: "buf_ok b \<Longrightarrow> buf_restore (buf_snapshot b) b' = Inr b"
  using restore_basket_all [of "baskets b" "b'\<lparr>buf_window_s := buf_window_s b, max_baskets := max_baskets b, baskets := []\<rparr>"]
  by (auto simp: buf_restore_def buf_snapshot_def dget_or_def buf_ok_def)

text \<open>What one batch does to the buffer: the rows and the clocks.\<close>

definition buf_step :: "(string \<Rightarrow> real option) \<Rightarrow> real \<times> int \<times> basket_row list \<Rightarrow> basket_buffer \<Rightarrow> basket_buffer" where
  "buf_step fromiso i b =
     (case i of (now, t, rows) \<Rightarrow> snd (buf_evict t (buf_add_baskets (make_baskets fromiso now rows) b)))"

interpretation buf_cp: checkpointed "buf_step fromiso" buf_snapshot buf_restore buf_ok for fromiso
proof unfold_locales
  fix s i assume s: "buf_ok s"
  have "\<forall>x \<in> set (make_baskets fromiso now rows). finite (snd x)" for now rows
    using make_baskets_finite by force
  then show "buf_ok (buf_step fromiso i s)"
    by (cases i) (simp add: buf_step_def buf_evict_ok buf_add_baskets_ok s)
qed (rule buf_restore_snapshot)

text \<open>restart.  A basket buffer that is saved and restored into another buffer after every
  batch goes through the same states as one that is never restarted.\<close>

theorem basket_buffer_restart:
  assumes "buf_ok b"
  shows "buf_cp.crashy_run fromiso batches fresh b = Inr (fold (buf_step fromiso) batches b)"
  by (rule buf_cp.crashy_run_eq [OF assms])

theorem basket_buffer_restart_witness:
  "buf_cp.crashy_run (\<lambda>_. None) [(0, 5, [])] (buf_init 1 1) (buf_init 60 20000)
   = Inr (fold (buf_step (\<lambda>_. None)) [(0, 5, [])] (buf_init 60 20000))"
  by (rule basket_buffer_restart) (simp add: buf_ok_def buf_init_def)

section \<open>Properties of the miners\<close>

text \<open>C16: A-Priori is exact.  Its result holds exactly the one- and two-element itemsets contained
  in at least \<open>max(1, ceil(ratio * n))\<close> baskets, each with the number of baskets that contain it;
  the brute-force baseline finds the same.\<close>

theorem apriori_exact:
  assumes "good_iter iter" and "\<forall>b \<in> set bs. finite b" and "bs \<noteq> []" and "2 \<le> k"
  shows "dget (fst (apriori iter bs ratio k)) s
       = (if (card s = 1 \<or> card s = 2) \<and> max 1 \<lceil>ratio * real (length bs)\<rceil> \<le> support bs s
          then Some (support bs s) else None)
    \<and> dget (fst (brute_force iter bs ratio k)) s = dget (fst (apriori iter bs ratio k)) s"
  using apriori_lookup [OF assms, of ratio s] brute_lookup [OF assms, of ratio s]
  by (simp add: frequent_def min_support_count_def)

definition example_baskets :: "string set list" where
  "example_baskets = [{''TCP:443'', ''UDP:53''}, {''TCP:443''}, {''UDP:53'', ''TCP:443'', ''ICMP''}]"

theorem apriori_exact_witness:
  "dget (fst (apriori sorted_list_of_set example_baskets (1 / 2) 2)) {''TCP:443'', ''UDP:53''} = Some 2"
proof -
  have fin: "\<forall>b \<in> set example_baskets. finite b" and ne: "example_baskets \<noteq> []"
    by (simp_all add: example_baskets_def)
  have sup: "support example_baskets {''TCP:443'', ''UDP:53''} = 2"
    "max 1 \<lceil>(1 / 2) * real (length example_baskets)\<rceil> \<le> 2"
    by (simp_all add: support_def example_baskets_def)
  show ?thesis
    using apriori_exact [OF sorted_iter fin ne order_refl, of "1 / 2" "{''TCP:443'', ''UDP:53''}"] sup
    by (simp del: max_def)
qed

text \<open>C10: PCY is correct for every hash.  With at least one bucket PCY raises nothing and returns the
  itemsets and counts that A-Priori and the brute-force baseline return, in as many passes as A-Priori,
  and never counts more candidate pairs than A-Priori, whatever \<open>crc32\<close> computes.\<close>

theorem pcy_equals_apriori:
  assumes "good_iter iter" and "\<forall>b \<in> set bs. finite b" and "bs \<noteq> []" and "2 \<le> k" and "0 < nb"
  shows "\<exists>r ps cs. pcy iter crc bs ratio nb k = Inr (r, ps, cs)
    \<and> (\<forall>s. dget r s = dget (fst (apriori iter bs ratio k)) s
           \<and> dget r s = dget (fst (brute_force iter bs ratio k)) s)
    \<and> ps = fst (snd (apriori iter bs ratio k)) \<and> cs \<le> snd (snd (apriori iter bs ratio k))"
  using pcy_lookup [OF assms, of crc ratio] apriori_lookup [OF assms(1-4), of ratio] brute_lookup [OF assms(1-4), of ratio]
  by simp

theorem pcy_equals_apriori_witness:
  "\<exists>r ps cs. pcy sorted_list_of_set (\<lambda>s. int (length s)) example_baskets (1 / 2) 7 2 = Inr (r, ps, cs)
    \<and> (\<forall>s. dget r s = dget (fst (apriori sorted_list_of_set example_baskets (1 / 2) 2)) s)"
  using pcy_equals_apriori [OF sorted_iter, of example_baskets 2 7 "\<lambda>s. int (length s)" "1 / 2"]
  by (auto simp: example_baskets_def)

end
