(* ===== verification/Moments.thy ===== *)
theory Moments
  imports Pytext
begin

text \<open>
  The second frequency moment (\<open>streaming/analytics/moments.py\<close>): the exact value, the
  Alon-Matias-Szegedy estimator \<open>AMSF2\<close>, inter-arrival times, and the plugin
  \<open>MomentsAnalytic\<close>.

  The generator state is a type parameter with \<open>randint\<close> (see the prelude); time parsing
  and formatting (\<open>datetime.fromisoformat\<close>, \<open>strptime\<close>, \<open>strftime\<close>) are
  parameters.
\<close>

section \<open>Exact moment and inter-arrival times\<close>

definition exact_f2 :: "('k, int) dict \<Rightarrow> int" where
  "exact_f2 c = sum_list (map (\<lambda>p. (snd p)\<^sup>2) c)"

datatype timestamp = TNone | TNum real | TDatetime real | TText string

text \<open>
  One iteration: the milliseconds appended, if any. \<open>iso_ts\<close>, \<open>p1\<close> and \<open>p2\<close> are the
  three parsers tried in turn (\<open>None\<close>: \<open>ValueError\<close>), each giving seconds.
\<close>

definition ts_millis ::
  "(string \<Rightarrow> real option) \<Rightarrow> (string \<Rightarrow> real option) \<Rightarrow> (string \<Rightarrow> real option)
     \<Rightarrow> timestamp \<Rightarrow> real list" where
  "ts_millis iso_ts p1 p2 ts =
     (case ts of
        TNone \<Rightarrow> []
      | TNum t \<Rightarrow> [if t < 10 ^ 11 then t * 1000 else t]
      | TDatetime t \<Rightarrow> [t * 1000]
      | TText s \<Rightarrow>
          (let c = strip s
           in if c = [] then []
              else case iso_ts (replace_z c) of Some t \<Rightarrow> [t * 1000]
                 | None \<Rightarrow> (case p1 c of Some t \<Rightarrow> [t * 1000]
                     | None \<Rightarrow> (case p2 c of Some t \<Rightarrow> [t * 1000] | None \<Rightarrow> []))))"

definition compute_iat ::
  "(string \<Rightarrow> real option) \<Rightarrow> (string \<Rightarrow> real option) \<Rightarrow> (string \<Rightarrow> real option)
     \<Rightarrow> timestamp list \<Rightarrow> real list" where
  "compute_iat iso_ts p1 p2 tss =
     (let ms = concat (map (ts_millis iso_ts p1 p2) tss)
      in if length ms < 2 then []
         else let s = sort ms in map (\<lambda>i. py_round (s ! i - s ! (i - 1)) 3) [1..<length s])"

section \<open>The AMS estimator\<close>

record 'g ams =
  num_estimators :: int
  ams_groups :: int
  ams_seed :: int
  ams_rng :: 'g
  ams_n :: int
  tracked :: "string option list"
  counts :: "int list"
  positions :: "int list"

definition ams_init :: "(int option \<Rightarrow> 'g) \<Rightarrow> int \<Rightarrow> int \<Rightarrow> int \<Rightarrow> 'g ams res" where
  "ams_init seeded ne ng seed =
     (if ne \<le> 0 then Inl ValueError
      else Inr \<lparr>num_estimators = ne,
                ams_groups = (if ng \<le> 0 \<or> ng > ne then max 1 (min 6 ne) else ng),
                ams_seed = seed, ams_rng = seeded (Some seed), ams_n = 0,
                tracked = replicate (nat ne) None, counts = replicate (nat ne) 0,
                positions = replicate (nat ne) 0\<rparr>)"

text \<open>One iteration of the loop of \<open>add\<close>, and the loop over \<open>range(num_estimators)\<close>.\<close>

definition ams_slot :: "('g \<Rightarrow> int \<Rightarrow> int \<Rightarrow> int \<times> 'g) \<Rightarrow> string \<Rightarrow> nat \<Rightarrow> 'g ams \<Rightarrow> 'g ams" where
  "ams_slot randint item i a =
     (let (j, g) = randint (ams_rng a) 1 (ams_n a)
      in if j = 1
         then a\<lparr>ams_rng := g, tracked := (tracked a)[i := Some item], counts := (counts a)[i := 1],
                positions := (positions a)[i := ams_n a]\<rparr>
         else if tracked a ! i = Some item
         then a\<lparr>ams_rng := g, counts := (counts a)[i := counts a ! i + 1]\<rparr>
         else a\<lparr>ams_rng := g\<rparr>)"

definition ams_add :: "('g \<Rightarrow> int \<Rightarrow> int \<Rightarrow> int \<times> 'g) \<Rightarrow> string \<Rightarrow> 'g ams \<Rightarrow> 'g ams" where
  "ams_add randint item a =
     fold (ams_slot randint item) [0..<nat (num_estimators a)] (a\<lparr>ams_n := ams_n a + 1\<rparr>)"

definition ams_add_many :: "('g \<Rightarrow> int \<Rightarrow> int \<Rightarrow> int \<times> 'g) \<Rightarrow> string list \<Rightarrow> 'g ams \<Rightarrow> 'g ams" where
  "ams_add_many randint xs a = fold (ams_add randint) xs a"

text \<open>\<open>X = n * (2 r - 1)\<close> of one estimator.\<close>

definition ams_value :: "'g ams \<Rightarrow> int \<Rightarrow> int" where
  "ams_value a r = ams_n a * (2 * r - 1)"

definition ams_group :: "int list \<Rightarrow> nat \<Rightarrow> nat \<Rightarrow> nat \<Rightarrow> real list" where
  "ams_group vs gs ng g =
     (let s = take ((if g < ng - 1 then (g + 1) * gs else length vs) - g * gs) (drop (g * gs) vs)
      in if s = [] then [] else [of_int (sum_list s) / real (length s)])"

definition ams_estimate :: "'g ams \<Rightarrow> real" where
  "ams_estimate a =
     (if ams_n a = 0 then 0
      else let vs = map (\<lambda>r. max 0 (ams_value a r)) (counts a);
               gs = max 1 (num_estimators a div ams_groups a);
               ng = nat (ams_groups a);
               means = concat (map (ams_group vs (nat gs) ng) [0..<ng])
           in if means = [] then 0 else py_round (median_sorted (sort means)) 2)"

fun opt_json :: "string option \<Rightarrow> json" where
  "opt_json None = JNull"
| "opt_json (Some s) = JStr s"

fun json_opt :: "json \<Rightarrow> string option res" where
  "json_opt JNull = Inr None"
| "json_opt (JStr s) = Inr (Some s)"
| "json_opt _ = Inl TypeError"

text \<open>\<open>rng_json\<close> and \<open>json_rng\<close> are \<open>getstate\<close> and \<open>setstate\<close> of \<open>random.Random\<close>.\<close>

definition ams_snapshot :: "('g \<Rightarrow> json) \<Rightarrow> 'g ams \<Rightarrow> json" where
  "ams_snapshot rng_json a =
     JObj [(''num_estimators'', JInt (num_estimators a)), (''num_groups'', JInt (ams_groups a)),
           (''seed'', JInt (ams_seed a)), (''n'', JInt (ams_n a)),
           (''tracked'', JArr (map opt_json (tracked a))), (''counts'', JArr (map JInt (counts a))),
           (''positions'', JArr (map JInt (positions a))), (''rng_state'', rng_json (ams_rng a))]"

definition ams_restore :: "(int option \<Rightarrow> 'g) \<Rightarrow> (json \<Rightarrow> 'g res) \<Rightarrow> json \<Rightarrow> 'g ams \<Rightarrow> 'g ams res" where
  "ams_restore seeded json_rng j a =
     bindE (bindE (jget j ''num_estimators'') jint) (\<lambda>ne.
     bindE (bindE (jget j ''num_groups'') jint) (\<lambda>ng.
     bindE (bindE (jget j ''seed'') jint) (\<lambda>s.
     bindE (bindE (jget j ''n'') jint) (\<lambda>n.
     bindE (bindE (bindE (jget j ''tracked'') jlist) (mapE json_opt)) (\<lambda>ts.
     bindE (bindE (bindE (jget j ''counts'') jlist) (mapE jint)) (\<lambda>cs.
     bindE (bindE (bindE (jget j ''positions'') jlist) (mapE jint)) (\<lambda>ps.
     bindE (if jhas j ''rng_state'' then bindE (jget j ''rng_state'') json_rng
            else Inr (seeded (Some (s + n)))) (\<lambda>g.
     Inr (a\<lparr>num_estimators := ne, ams_groups := ng, ams_seed := s, ams_n := n, tracked := ts,
            counts := cs, positions := ps, ams_rng := g\<rparr>)))))))))"

section \<open>The plugin\<close>

record 'g moments =
  mo_window_len_s :: int
  window_exact :: "(string, (string, int) dict) dict"
  window_ams :: "(string, 'g ams) dict"
  initialized :: bool

record moments_row =
  mr_window_start :: string
  mr_window_len :: int
  f2_exact :: real
  f2_ams :: real

definition moments_new :: "'g moments" where
  "moments_new = \<lparr>mo_window_len_s = 10, window_exact = [], window_ams = [], initialized = False\<rparr>"

definition moments_state_json :: "('g \<Rightarrow> json) \<Rightarrow> 'g moments \<Rightarrow> json" where
  "moments_state_json rng_json a =
     JObj [(''window_len_s'', JInt (mo_window_len_s a)),
           (''window_exact'', JObj (map (\<lambda>(w, c). (w, JObj (map (\<lambda>(k, n). (k, JInt n)) c))) (window_exact a))),
           (''window_ams'', JObj (map (\<lambda>(w, e). (w, ams_snapshot rng_json e)) (window_ams a)))]"

definition json_counter :: "json \<Rightarrow> (string, int) dict res" where
  "json_counter j = bindE (jitems j) (mapE (\<lambda>(k, v). bindE (jint v) (\<lambda>n. Inr (k, n))))"

text \<open>
  Restoring the parsed state file. An exception is logged and the fields assigned before it
  keep their new values.
\<close>

definition moments_restore_state ::
  "(int option \<Rightarrow> 'g) \<Rightarrow> (json \<Rightarrow> 'g res) \<Rightarrow> json option \<Rightarrow> 'g moments \<Rightarrow> 'g moments" where
  "moments_restore_state seeded json_rng saved a =
     (case saved of None \<Rightarrow> a | Some j \<Rightarrow>
       case bindE (jget_or j ''window_len_s'' (JInt 10)) jint of Inl _ \<Rightarrow> a | Inr n \<Rightarrow>
       (let a1 = a\<lparr>mo_window_len_s := n\<rparr>
        in case bindE (bindE (jget_or j ''window_exact'' (JObj [])) jitems)
                  (mapE (\<lambda>(w, c). bindE (json_counter c) (\<lambda>d. Inr (w, d)))) of
             Inl _ \<Rightarrow> a1
           | Inr ex \<Rightarrow>
             (let a2 = a1\<lparr>window_exact := ex, window_ams := []\<rparr>
              in case bindE (bindE (jget_or j ''window_ams'' (JObj [])) jitems)
                  (mapE (\<lambda>(w, c). bindE (ams_init seeded 60 6 42) (\<lambda>e0.
                      bindE (ams_restore seeded json_rng c e0) (\<lambda>e. Inr (w, e))))) of
                   Inl _ \<Rightarrow> a2
                 | Inr es \<Rightarrow> a2\<lparr>window_ams := es\<rparr>)))"

definition moments_ensure_initialized ::
  "(int option \<Rightarrow> 'g) \<Rightarrow> (json \<Rightarrow> 'g res) \<Rightarrow> json option \<Rightarrow> json \<Rightarrow> 'g moments \<Rightarrow> 'g moments res" where
  "moments_ensure_initialized seeded json_rng saved cfg a =
     (if initialized a then Inr a
      else
        bindE (jget_or cfg ''spark'' (JObj [])) (\<lambda>spark_cfg.
        bindE (jget_or spark_cfg ''windows_s'' (JArr [JInt 10])) (\<lambda>ws.
        bindE (if jtruthy ws then bindE (jlist ws) (\<lambda>xs. jint (hd xs)) else Inr 10) (\<lambda>n.
        Inr ((moments_restore_state seeded json_rng saved (a\<lparr>mo_window_len_s := n\<rparr>))
               \<lparr>initialized := True\<rparr>)))))"

text \<open>The window key of an event time, in seconds; \<open>%\<close> by zero raises.\<close>

definition window_key :: "(int \<Rightarrow> string) \<Rightarrow> int \<Rightarrow> real \<Rightarrow> string res" where
  "window_key fmt_ts len t =
     (if len = 0 then Inl ZeroDivisionError
      else let e = py_trunc t in Inr (fmt_ts (e - e mod len)))"

text \<open>
  One collected row, with the windows updated so far (in order of first update: the set of
  the code is only iterated to build the upserted rows).
\<close>

definition moments_feed_row ::
  "(int option \<Rightarrow> 'g) \<Rightarrow> ('g \<Rightarrow> int \<Rightarrow> int \<Rightarrow> int \<times> 'g) \<Rightarrow> (int \<Rightarrow> string) \<Rightarrow> real option \<times> string
     \<Rightarrow> 'g moments \<times> string list \<Rightarrow> ('g moments \<times> string list) res" where
  "moments_feed_row seeded randint fmt_ts row s =
     (case row of (None, _) \<Rightarrow> Inr s | (Some t, dst) \<Rightarrow>
      case s of (a, upd) \<Rightarrow>
        bindE (window_key fmt_ts (mo_window_len_s a) t) (\<lambda>ws.
        bindE (if ws \<in> set (dkeys (window_exact a)) then Inr a
               else bindE (ams_init seeded 64 8 42) (\<lambda>e.
                    Inr (a\<lparr>window_exact := dset ws [] (window_exact a),
                           window_ams := dset ws e (window_ams a)\<rparr>))) (\<lambda>a1.
        bindE (dlookup (window_exact a1) ws) (\<lambda>c.
        bindE (dlookup (window_ams a1) ws) (\<lambda>e.
        Inr (a1\<lparr>window_exact := dset ws (counter_inc dst c) (window_exact a1),
                window_ams := dset ws (ams_add randint dst e) (window_ams a1)\<rparr>,
             if ws \<in> set upd then upd else upd @ [ws]))))))"

definition moments_evict :: "'g moments \<Rightarrow> 'g moments" where
  "moments_evict a =
     (if length (window_exact a) > 60
      then let stale = slice_to (sort (dkeys (window_exact a))) (- 60)
           in a\<lparr>window_exact := fold ddel stale (window_exact a),
                window_ams := fold ddel stale (window_ams a)\<rparr>
      else a)"

definition moments_report :: "'g moments \<Rightarrow> string \<Rightarrow> moments_row res" where
  "moments_report a ws =
     bindE (dlookup (window_exact a) ws) (\<lambda>c.
     bindE (dlookup (window_ams a) ws) (\<lambda>e.
     Inr \<lparr>mr_window_start = ws, mr_window_len = mo_window_len_s a,
          f2_exact = of_int (exact_f2 c), f2_ams = ams_estimate e\<rparr>))"

definition moments_consume ::
  "(int option \<Rightarrow> 'g) \<Rightarrow> ('g \<Rightarrow> int \<Rightarrow> int \<Rightarrow> int \<times> 'g) \<Rightarrow> (int \<Rightarrow> string) \<Rightarrow> (real option \<times> string) list
     \<Rightarrow> 'g moments \<Rightarrow> ('g moments \<times> moments_row list) res" where
  "moments_consume seeded randint fmt_ts rows a =
     bindE (foldE (moments_feed_row seeded randint fmt_ts) rows (a, [])) (\<lambda>(a1, upd).
     let a2 = moments_evict a1
     in bindE (mapE (moments_report a2) upd) (\<lambda>out. Inr (a2, out)))"

text \<open>
  \<open>process_batch\<close>: \<open>count\<close> is the size of the batch, \<open>rows\<close> its event times and
  destinations with a destination. The rows are upserted when the context has a connection.
\<close>

definition moments_process_batch ::
  "(int option \<Rightarrow> 'g) \<Rightarrow> ('g \<Rightarrow> int \<Rightarrow> int \<Rightarrow> int \<times> 'g) \<Rightarrow> (json \<Rightarrow> 'g res) \<Rightarrow> (int \<Rightarrow> string)
     \<Rightarrow> json option \<Rightarrow> json \<Rightarrow> nat \<Rightarrow> (real option \<times> string) list \<Rightarrow> 'g moments
     \<Rightarrow> ('g moments \<times> moments_row list) res" where
  "moments_process_batch seeded randint json_rng fmt_ts saved cfg count rows a0 =
     bindE (moments_ensure_initialized seeded json_rng saved cfg a0) (\<lambda>a.
     if count = 0 then Inr (a, [])
     else
       bindE (jget_or cfg ''spark'' (JObj [])) (\<lambda>spark_cfg.
       bindE (bindE (jget_or spark_cfg ''max_rows_per_batch'' (JInt 50000)) jint) (\<lambda>max_rows.
       if take (nat max_rows) rows = [] then Inr (a, [])
       else moments_consume seeded randint fmt_ts (take (nat max_rows) rows) a)))"

section \<open>What a slot of the estimator counts\<close>

text \<open>
  A slot that chose position \<open>p\<close> of the stream tracks the item there and has counted its
  occurrences from there on.
\<close>

definition slot_ok :: "string list \<Rightarrow> string option \<Rightarrow> int \<Rightarrow> int \<Rightarrow> bool" where
  "slot_ok xs t r p \<longleftrightarrow>
     (if xs = [] then t = None
      else 1 \<le> p \<and> p \<le> int (length xs) \<and> t = Some (xs ! (nat p - 1))
         \<and> r = int (count_list (drop (nat p - 1) xs) (xs ! (nat p - 1))))"

definition ams_inv :: "string list \<Rightarrow> 'g ams \<Rightarrow> bool" where
  "ams_inv xs a \<longleftrightarrow>
     0 < num_estimators a \<and> 1 \<le> ams_groups a \<and> ams_groups a \<le> num_estimators a
     \<and> ams_n a = int (length xs)
     \<and> length (tracked a) = nat (num_estimators a) \<and> length (counts a) = nat (num_estimators a)
     \<and> length (positions a) = nat (num_estimators a)
     \<and> (\<forall>i < nat (num_estimators a). slot_ok xs (tracked a ! i) (counts a ! i) (positions a ! i))"

lemma slot_ok_new: "slot_ok (xs @ [x]) (Some x) 1 (int (length xs) + 1)"
proof -
  have "nat (int (length xs) + 1) - 1 = length xs" by simp
  then show ?thesis by (simp add: slot_ok_def)
qed

lemma slot_ok_keep:
  assumes "slot_ok xs t r p" and "xs \<noteq> []"
  shows "slot_ok (xs @ [x]) t (if t = Some x then r + 1 else r) p"
proof -
  from assms have p: "1 \<le> p" "p \<le> int (length xs)" "t = Some (xs ! (nat p - 1))"
    "r = int (count_list (drop (nat p - 1) xs) (xs ! (nat p - 1)))" by (auto simp: slot_ok_def)
  have "nat p - 1 < length xs" using p by linarith
  then show ?thesis using p by (auto simp: slot_ok_def nth_append)
qed

lemma ams_init_inv: "ams_init seeded ne ng seed = Inr a \<Longrightarrow> ams_inv [] a"
  by (auto simp: ams_init_def ams_inv_def slot_ok_def split: if_splits)

lemma ams_slot_step:
  assumes good: "good_randint randint" and i: "i < length (tracked a)"
    and len: "length (counts a) = length (tracked a)" "length (positions a) = length (tracked a)"
    and n: "ams_n a = int (length xs) + 1"
    and ok: "slot_ok xs (tracked a ! i) (counts a ! i) (positions a ! i)"
    and b_def: "b = ams_slot randint x i a"
  shows "slot_ok (xs @ [x]) (tracked b ! i) (counts b ! i) (positions b ! i)"
    and "j \<noteq> i \<Longrightarrow> tracked b ! j = tracked a ! j \<and> counts b ! j = counts a ! j \<and> positions b ! j = positions a ! j"
    and "length (tracked b) = length (tracked a)" "length (counts b) = length (counts a)"
        "length (positions b) = length (positions a)"
    and "ams_n b = ams_n a" "num_estimators b = num_estimators a" "ams_groups b = ams_groups a"
proof -
  obtain d g where d: "randint (ams_rng a) 1 (ams_n a) = (d, g)" by fastforce
  have one: "d = 1" if "xs = []"
    using good that n d unfolding good_randint_def by (metis fst_conv add_0 antisym list.size(3) of_nat_0 order_refl)
  show "slot_ok (xs @ [x]) (tracked b ! i) (counts b ! i) (positions b ! i)"
  proof (cases "d = 1")
    case True
    with slot_ok_new [of xs x] show ?thesis using i len n d by (simp add: b_def ams_slot_def)
  next
    case False
    with one have "xs \<noteq> []" by blast
    from slot_ok_keep [OF ok this, of x] False show ?thesis
      using i len n d by (auto simp: b_def ams_slot_def)
  qed
  show "j \<noteq> i \<Longrightarrow> tracked b ! j = tracked a ! j \<and> counts b ! j = counts a ! j \<and> positions b ! j = positions a ! j"
    by (simp add: b_def ams_slot_def d)
qed (simp_all add: b_def ams_slot_def split: prod.split)

lemma ams_slots:
  assumes good: "good_randint randint" and "m \<le> length (tracked a)"
    and "length (counts a) = length (tracked a)" "length (positions a) = length (tracked a)"
    and "ams_n a = int (length xs) + 1"
    and "\<forall>i < length (tracked a). slot_ok xs (tracked a ! i) (counts a ! i) (positions a ! i)"
  shows "let b = fold (ams_slot randint x) [0..<m] a
    in length (tracked b) = length (tracked a) \<and> length (counts b) = length (counts a)
     \<and> length (positions b) = length (positions a) \<and> ams_n b = ams_n a
     \<and> num_estimators b = num_estimators a \<and> ams_groups b = ams_groups a
     \<and> (\<forall>i < length (tracked a). slot_ok (if i < m then xs @ [x] else xs)
           (tracked b ! i) (counts b ! i) (positions b ! i))"
  using assms(2)
proof (induction m)
  case 0
  with assms show ?case by simp
next
  case (Suc m)
  let ?b = "fold (ams_slot randint x) [0..<m] a"
  have b: "length (tracked ?b) = length (tracked a)" "length (counts ?b) = length (counts a)"
    "length (positions ?b) = length (positions a)" "ams_n ?b = ams_n a"
    "num_estimators ?b = num_estimators a" "ams_groups ?b = ams_groups a"
    "\<forall>i < length (tracked a). slot_ok (if i < m then xs @ [x] else xs)
           (tracked ?b ! i) (counts ?b ! i) (positions ?b ! i)"
    using Suc by (simp_all add: Let_def)
  have prem: "m < length (tracked ?b)" "length (counts ?b) = length (tracked ?b)"
    "length (positions ?b) = length (tracked ?b)" "ams_n ?b = int (length xs) + 1"
    "slot_ok xs (tracked ?b ! m) (counts ?b ! m) (positions ?b ! m)"
    using b(1-6) b(7) [rule_format, of m] assms(3-5) Suc.prems by simp_all
  note st = ams_slot_step [OF good prem refl, where x = x]
  have c: "fold (ams_slot randint x) [0..<Suc m] a = ams_slot randint x m ?b" by simp
  have new: "slot_ok (if i < Suc m then xs @ [x] else xs) (tracked (ams_slot randint x m ?b) ! i)
      (counts (ams_slot randint x m ?b) ! i) (positions (ams_slot randint x m ?b) ! i)"
    if "i < length (tracked a)" for i
  proof (cases "i = m")
    case True
    with st(1) show ?thesis by simp
  next
    case False
    with st(2) [OF False] b(7) that show ?thesis by (auto simp: less_Suc_eq)
  qed
  show ?case unfolding c Let_def
    by (intro conjI allI impI) (simp_all only: st(3-8) b(1-6) new)
qed

lemma ams_add_inv:
  assumes "good_randint randint" and "ams_inv xs a"
  shows "ams_inv (xs @ [x]) (ams_add randint x a)"
proof -
  let ?a = "a\<lparr>ams_n := ams_n a + 1\<rparr>"
  have len: "length (tracked a) = nat (num_estimators a)" using assms(2) by (simp add: ams_inv_def)
  show ?thesis
    using ams_slots [OF assms(1), of "nat (num_estimators a)" ?a xs x] assms(2) len
    by (simp add: ams_inv_def ams_add_def Let_def)
qed

lemma ams_add_many_inv:
  assumes "good_randint randint"
  shows "ams_inv xs a \<Longrightarrow> ams_inv (xs @ ys) (ams_add_many randint ys a)"
proof (induction ys arbitrary: xs a)
  case (Cons y ys)
  from Cons.IH [OF ams_add_inv [OF assms Cons.prems, of y]] show ?case
    by (simp add: ams_add_many_def)
qed (simp add: ams_add_many_def)

section \<open>Bounds of the estimate\<close>

lemma group_mean_bounds:
  assumes "\<forall>v \<in> set vs. lo \<le> v \<and> v \<le> hi" and "m \<in> set (ams_group vs gs ng g)"
  shows "of_int lo \<le> m \<and> m \<le> (of_int hi :: real)"
proof -
  let ?s = "take ((if g < ng - 1 then (g + 1) * gs else length vs) - g * gs) (drop (g * gs) vs)"
  from assms(2) have ne: "?s \<noteq> []" and m: "m = of_int (sum_list ?s) / real (length ?s)"
    by (auto simp: ams_group_def Let_def split: if_splits)
  have "\<forall>v \<in> set ?s. lo \<le> v \<and> v \<le> hi" using assms(1) by (auto dest!: in_set_takeD in_set_dropD)
  moreover have "\<forall>v \<in> set s. lo \<le> v \<and> v \<le> hi \<Longrightarrow>
      int (length s) * lo \<le> sum_list s \<and> sum_list s \<le> int (length s) * hi" for s
    by (induction s) (auto simp: algebra_simps)
  ultimately have "int (length ?s) * lo \<le> sum_list ?s \<and> sum_list ?s \<le> int (length ?s) * hi" by blast
  then have "real_of_int (int (length ?s) * lo) \<le> of_int (sum_list ?s)"
    "of_int (sum_list ?s) \<le> real_of_int (int (length ?s) * hi)" by (simp_all only: of_int_le_iff)
  moreover have "0 < real (length ?s)" using ne
    unfolding length_greater_0_conv [symmetric] by (simp only: of_nat_0_less_iff)
  ultimately show ?thesis unfolding m by (simp add: field_simps)
qed

lemma ams_group_0: "vs \<noteq> [] \<Longrightarrow> 0 < gs \<Longrightarrow> ams_group vs gs ng 0 \<noteq> []"
  by (auto simp: ams_group_def Let_def)

lemma ams_estimate_range:
  assumes inv: "ams_inv xs a" and ne: "xs \<noteq> []" and n_def: "n = int (length xs)"
  shows "of_int n \<le> ams_estimate a \<and> ams_estimate a \<le> of_int (n * (2 * n - 1))"
proof -
  let ?vs = "map (\<lambda>r. max 0 (ams_value a r)) (counts a)"
  let ?gs = "max 1 (num_estimators a div ams_groups a)" and ?ng = "nat (ams_groups a)"
  let ?means = "concat (map (ams_group ?vs (nat ?gs) ?ng) [0..<?ng])"
  have n: "ams_n a = n" "1 \<le> n" using inv ne by (cases xs; auto simp: ams_inv_def n_def)+
  have r: "1 \<le> c \<and> c \<le> n" if "c \<in> set (counts a)" for c
  proof -
    from that obtain i where i: "i < length (counts a)" "c = counts a ! i" by (auto simp: in_set_conv_nth)
    with inv have "slot_ok xs (tracked a ! i) (counts a ! i) (positions a ! i)" by (auto simp: ams_inv_def)
    with ne i(2) have q: "1 \<le> positions a ! i" "positions a ! i \<le> int (length xs)"
      "c = int (count_list (drop (nat (positions a ! i) - 1) xs) (xs ! (nat (positions a ! i) - 1)))"
      by (auto simp: slot_ok_def)
    define p where "p = nat (positions a ! i) - 1"
    have p: "p < length xs" "c = int (count_list (drop p xs) (xs ! p))"
      using q unfolding p_def by linarith+
    have "drop p xs = xs ! p # drop (Suc p) xs" using p(1) by (rule Cons_nth_drop_Suc [symmetric])
    then have "1 \<le> count_list (drop p xs) (xs ! p)" by simp
    moreover have "count_list (drop p xs) (xs ! p) \<le> length (drop p xs)" by (rule count_le_length)
    ultimately show ?thesis using p by (simp add: n_def)
  qed
  have vs: "\<forall>v \<in> set ?vs. n \<le> v \<and> v \<le> n * (2 * n - 1)"
  proof
    fix v assume "v \<in> set ?vs"
    then obtain c where "c \<in> set (counts a)" "v = max 0 (n * (2 * c - 1))"
      by (auto simp: ams_value_def n(1) [symmetric])
    with r have c: "1 \<le> c" "c \<le> n" "v = max 0 (n * (2 * c - 1))" by blast+
    have "n * 1 \<le> n * (2 * c - 1)" "n * (2 * c - 1) \<le> n * (2 * n - 1)"
      using c n by (intro mult_left_mono; simp)+
    then show "n \<le> v \<and> v \<le> n * (2 * n - 1)" using c n by simp
  qed
  have means: "\<forall>m \<in> set (sort ?means). of_int n \<le> m \<and> m \<le> of_int (n * (2 * n - 1))"
    using group_mean_bounds [OF vs] by auto
  have lens: "length ?vs = nat (num_estimators a)" "0 < nat (num_estimators a)" "0 < ?ng"
    using inv by (auto simp: ams_inv_def)
  have "?vs \<noteq> []" using lens(1,2) by (metis length_greater_0_conv)
  then have "ams_group ?vs (nat ?gs) ?ng 0 \<noteq> []" by (rule ams_group_0) simp
  moreover have "0 \<in> set [0..<?ng]" using lens(3) by simp
  ultimately have "?means \<noteq> []" unfolding concat_eq_Nil_conv set_map by blast
  then have ne': "sort ?means \<noteq> []" by (metis length_0_conv length_sort)
  have b: "of_int n \<le> median_sorted (sort ?means)" "median_sorted (sort ?means) \<le> of_int (n * (2 * n - 1))"
    using median_bounds [OF ne' means] by auto
  have "ams_estimate a = py_round (median_sorted (sort ?means)) 2"
  proof -
    have "ams_n a \<noteq> 0" using n by simp
    with \<open>?means \<noteq> []\<close> show ?thesis unfolding ams_estimate_def Let_def by (simp only: if_False)
  qed
  with py_round_mono [OF b(1), of 2] py_round_mono [OF b(2), of 2] show ?thesis
    by (simp only: py_round_of_int)
qed

section \<open>The estimator is unbiased\<close>

text \<open>
  All sequences of draws of one slot over \<open>n\<close> items (the \<open>i\<close>-th is any of
  \<open>{1..i}\<close>, equally likely), and the slot as a function of items and draws.
\<close>

fun ams_draws :: "nat \<Rightarrow> int list list" where
  "ams_draws 0 = [[]]"
| "ams_draws (Suc n) = concat (map (\<lambda>ds. map (\<lambda>j. ds @ [int j]) [1..<n + 2]) (ams_draws n))"

definition one_slot :: "int list \<Rightarrow> int list ams" where
  "one_slot ds = \<lparr>num_estimators = 1, ams_groups = 1, ams_seed = 42, ams_rng = ds, ams_n = 0,
                  tracked = [None], counts = [0], positions = [0]\<rparr>"

fun slot_ref :: "string list \<Rightarrow> int list \<Rightarrow> string option \<times> int" where
  "slot_ref (x # xs) (j # ds) =
     (let (t, r) = slot_ref xs ds
      in if j = 1 then (Some x, 1) else if t = Some x then (t, r + 1) else (t, r))"
| "slot_ref _ _ = (None, 0)"

lemma ams_run_ref:
  assumes "length ds = length xs" and "\<forall>i < length ds. 1 \<le> ds ! i \<and> ds ! i \<le> int i + 1"
  shows "\<exists>p. ams_add_many replay_randint xs (one_slot (ds @ es))
    = (one_slot es)\<lparr>ams_n := int (length xs), tracked := [fst (slot_ref (rev xs) (rev ds))],
         counts := [snd (slot_ref (rev xs) (rev ds))], positions := [p]\<rparr>"
  using assms
proof (induction xs arbitrary: ds es rule: rev_induct)
  case Nil
  then show ?case by (simp add: ams_add_many_def one_slot_def)
next
  case (snoc x xs)
  then obtain ds' j where ds: "ds = ds' @ [j]" "length ds' = length xs"
    by (metis length_append_singleton length_Suc_conv_rev)
  have j: "1 \<le> j" "j \<le> int (length xs) + 1"
    using snoc.prems(2) ds by (metis length_append_singleton lessI nth_append_length)+
  have ds': "\<forall>i < length ds'. 1 \<le> ds' ! i \<and> ds' ! i \<le> int i + 1"
    using snoc.prems(2) ds(1) by (metis length_append_singleton less_SucI nth_append)
  from snoc.IH [OF ds(2) ds', of "j # es"] obtain p where
    p: "ams_add_many replay_randint xs (one_slot (ds' @ j # es))
    = (one_slot (j # es))\<lparr>ams_n := int (length xs), tracked := [fst (slot_ref (rev xs) (rev ds'))],
         counts := [snd (slot_ref (rev xs) (rev ds'))], positions := [p]\<rparr>" by blast
  have m: "1 + (j - 1) mod (int (length xs) + 1) = j" using j by (subst mod_pos_pos_trivial) auto
  have "ams_add_many replay_randint (xs @ [x]) (one_slot (ds @ es))
      = ams_add replay_randint x (ams_add_many replay_randint xs (one_slot (ds' @ j # es)))"
    by (simp add: ams_add_many_def ds(1))
  then show ?case unfolding p
    using m by (cases "slot_ref (rev xs) (rev ds')")
      (auto simp: ams_add_def ams_slot_def one_slot_def ds(1) Let_def)
qed

lemma length_ams_draws_Suc: "length (ams_draws (Suc n)) = (n + 1) * length (ams_draws n)"
  by (simp add: length_concat comp_def sum_list_triv del: upt_Suc)

lemma ams_draws_range:
  "ds \<in> set (ams_draws n) \<Longrightarrow> length ds = n \<and> (\<forall>i < length ds. 1 \<le> ds ! i \<and> ds ! i \<le> int i + 1)"
proof (induction n arbitrary: ds)
  case (Suc n)
  then obtain es j where e: "es \<in> set (ams_draws n)" "ds = es @ [int j]" "1 \<le> j" "j < n + 2"
    by (auto simp del: upt_Suc)
  with Suc.IH [OF e(1)] show ?case by (auto simp: nth_append less_Suc_eq)
qed simp

lemma sum_list_concat_map: "sum_list (concat xss) = sum_list (map sum_list xss)"
  by (induction xss) auto

lemma sum_draws_Suc:
  fixes f :: "int list \<Rightarrow> int"
  assumes "\<And>ds j. ds \<in> set (ams_draws n) \<Longrightarrow> 1 < j \<Longrightarrow> f (ds @ [int j]) = g ds"
    and "\<And>ds. ds \<in> set (ams_draws n) \<Longrightarrow> f (ds @ [1]) = h ds"
  shows "sum_list (map f (ams_draws (Suc n)))
    = sum_list (map h (ams_draws n)) + int n * sum_list (map g (ams_draws n))"
proof -
  have split: "[1..<n + 2] = 1 # [2..<n + 2]" by (simp add: upt_conv_Cons numeral_2_eq_2)
  have "sum_list (map (\<lambda>j. f (ds @ [int j])) [1..<n + 2]) = h ds + int n * g ds"
    if "ds \<in> set (ams_draws n)" for ds
  proof -
    have eq: "map (\<lambda>j. f (ds @ [int j])) [2..<n + 2] = map (\<lambda>j. g ds) [2..<n + 2]"
      by (intro map_cong refl assms(1) [OF that]) auto
    have "sum_list (map (\<lambda>j. f (ds @ [int j])) [1..<n + 2])
        = f (ds @ [int 1]) + sum_list (map (\<lambda>j. g ds) [2..<n + 2])"
      by (simp only: split list.map sum_list.Cons eq)
    then show ?thesis by (simp add: assms(2) [OF that] sum_list_triv del: upt_Suc)
  qed
  then have "sum_list (map f (ams_draws (Suc n))) = sum_list (map (\<lambda>ds. h ds + int n * g ds) (ams_draws n))"
    by (simp add: map_concat comp_def sum_list_concat_map del: upt_Suc cong: map_cong)
  then show ?thesis by (simp add: sum_list_addf sum_list_const_mult)
qed

lemma exact_f2_snoc:
  "exact_f2 (fold counter_inc (xs @ [x]) []) = exact_f2 (fold counter_inc xs []) + 2 * int (count_list xs x) + 1"
proof -
  let ?c = "fold counter_inc xs ([] :: ('a, int) dict)"
  have wf: "wf_dict ?c" by simp
  have c: "dget_or ?c x 0 = int (count_list xs x)"
    by (simp add: dget_or_def counter_of count_list_0_iff)
  then have old: "(case dget ?c x of None \<Rightarrow> 0 | Some y \<Rightarrow> y\<^sup>2) = (int (count_list xs x))\<^sup>2"
    unfolding counter_of by (simp add: count_list_0_iff)
  have "exact_f2 (fold counter_inc (xs @ [x]) []) = exact_f2 (dset x (int (count_list xs x) + 1) ?c)"
    by (simp add: counter_inc_def c)
  also have "\<dots> = exact_f2 ?c - (int (count_list xs x))\<^sup>2 + (int (count_list xs x) + 1)\<^sup>2"
    unfolding exact_f2_def using sum_dset_map [OF wf, of "\<lambda>v. v\<^sup>2" x] old by simp
  finally show ?thesis by (simp add: power2_eq_square algebra_simps)
qed

lemma tracked_uniform:
  "int (length xs) * sum_list (map (\<lambda>ds. of_bool (fst (slot_ref (rev xs) (rev ds)) = Some y)) (ams_draws (length xs)))
   = int (length (ams_draws (length xs))) * int (count_list xs y)"
proof (induction xs rule: rev_induct)
  case (snoc x xs)
  let ?n = "length xs"
  let ?K = "\<lambda>ds. of_bool (fst (slot_ref (rev xs) (rev ds)) = Some y) :: int"
  have len: "length ds = ?n" if "ds \<in> set (ams_draws ?n)" for ds using ams_draws_range [OF that] by simp
  have "sum_list (map (\<lambda>ds. of_bool (fst (slot_ref (rev (xs @ [x])) (rev ds)) = Some y)) (ams_draws (Suc ?n)))
      = sum_list (map (\<lambda>ds. of_bool (x = y)) (ams_draws ?n)) + int ?n * sum_list (map ?K (ams_draws ?n))"
    by (rule sum_draws_Suc) (auto simp: Let_def split: prod.split)
  also have "\<dots> = int (length (ams_draws ?n)) * (of_bool (x = y) + int (count_list xs y))"
    using snoc by (simp add: sum_list_triv algebra_simps)
  finally show ?case by (simp add: length_ams_draws_Suc algebra_simps del: ams_draws.simps)
qed simp

lemma value_unbiased:
  "int (length xs) * sum_list (map (\<lambda>ds. 2 * snd (slot_ref (rev xs) (rev ds)) - 1) (ams_draws (length xs)))
   = int (length (ams_draws (length xs))) * exact_f2 (fold counter_inc xs [])"
proof (induction xs rule: rev_induct)
  case Nil
  then show ?case by (simp add: exact_f2_def)
next
  case (snoc x xs)
  let ?n = "length xs"
  let ?T = "\<lambda>ds. 2 * snd (slot_ref (rev xs) (rev ds)) - 1"
  let ?K = "\<lambda>ds. of_bool (fst (slot_ref (rev xs) (rev ds)) = Some x) :: int"
  have "sum_list (map (\<lambda>ds. 2 * snd (slot_ref (rev (xs @ [x])) (rev ds)) - 1) (ams_draws (Suc ?n)))
      = sum_list (map (\<lambda>ds. 1) (ams_draws ?n)) + int ?n * sum_list (map (\<lambda>ds. ?T ds + 2 * ?K ds) (ams_draws ?n))"
    by (rule sum_draws_Suc) (auto simp: Let_def split: prod.split)
  also have "\<dots> = int (length (ams_draws ?n)) + (int ?n * sum_list (map ?T (ams_draws ?n)))
      + 2 * (int ?n * sum_list (map ?K (ams_draws ?n)))"
    by (simp only: sum_list_addf sum_list_const_mult) (simp add: sum_list_triv algebra_simps)
  also have "\<dots> = int (length (ams_draws ?n)) * exact_f2 (fold counter_inc (xs @ [x]) [])"
    unfolding snoc tracked_uniform exact_f2_snoc by (simp add: algebra_simps)
  finally show ?case by (simp add: length_ams_draws_Suc algebra_simps del: ams_draws.simps)
qed

section \<open>Properties\<close>

text \<open>C9: the AMS estimator is unbiased.  Run one estimator over a stream once for each possible
  sequence of draws of its generator: the values \<open>X = n (2 r - 1)\<close> it computes average exactly to
  the second moment that \<open>exact_f2\<close> computes from the frequency counter of the stream.\<close>

theorem ams_unbiased:
  "sum_list (map (\<lambda>ds. let a = ams_add_many replay_randint xs (one_slot ds)
                      in ams_value a (counts a ! 0)) (ams_draws (length xs)))
   = int (length (ams_draws (length xs))) * exact_f2 (fold counter_inc xs [])"
proof -
  have "(let a = ams_add_many replay_randint xs (one_slot ds) in ams_value a (counts a ! 0))
      = int (length xs) * (2 * snd (slot_ref (rev xs) (rev ds)) - 1)"
    if "ds \<in> set (ams_draws (length xs))" for ds
    using ams_run_ref [of ds xs "[]"] ams_draws_range [OF that] by (auto simp: ams_value_def Let_def)
  then have "sum_list (map (\<lambda>ds. let a = ams_add_many replay_randint xs (one_slot ds)
                      in ams_value a (counts a ! 0)) (ams_draws (length xs)))
      = sum_list (map (\<lambda>ds. int (length xs) * (2 * snd (slot_ref (rev xs) (rev ds)) - 1)) (ams_draws (length xs)))"
    by (simp cong: map_cong)
  also have "\<dots> = int (length (ams_draws (length xs))) * exact_f2 (fold counter_inc xs [])"
    using value_unbiased [of xs] by (simp only: sum_list_const_mult)
  finally show ?thesis .
qed

text \<open>what the estimator keeps and returns.  After any stream, with any generator, each slot
  tracks the item of some stream position and has counted exactly its occurrences from there on;
  the median-of-means estimate of a stream of \<open>n > 0\<close> items lies between \<open>n\<close> and
  \<open>n (2 n - 1)\<close>.\<close>

theorem ams_stream:
  assumes "good_randint randint" and "ams_init seeded ne ng seed = Inr a0" and "xs \<noteq> []"
  defines "a \<equiv> ams_add_many randint xs a0"
  shows "(\<forall>i < nat ne. \<exists>p < length xs. positions a ! i = int p + 1 \<and> tracked a ! i = Some (xs ! p)
            \<and> counts a ! i = int (count_list (drop p xs) (xs ! p)))
    \<and> real (length xs) \<le> ams_estimate a
    \<and> ams_estimate a \<le> real (length xs) * (2 * real (length xs) - 1)"
proof -
  have inv: "ams_inv xs a"
    unfolding a_def using ams_add_many_inv [OF assms(1) ams_init_inv [OF assms(2)], of xs] by simp
  have "num_estimators a = ne"
  proof -
    have "num_estimators (fold (ams_slot randint x) is b) = num_estimators b" for x "is" b
      by (induction "is" arbitrary: b) (auto simp: ams_slot_def split: prod.split)
    then have "num_estimators (ams_add_many randint ys b) = num_estimators b" for ys b
      unfolding ams_add_many_def by (induction ys arbitrary: b) (auto simp: ams_add_def)
    with assms(2) show ?thesis by (auto simp: a_def ams_init_def split: if_splits)
  qed
  then have slots: "slot_ok xs (tracked a ! i) (counts a ! i) (positions a ! i)" if "i < nat ne" for i
    using inv that by (simp add: ams_inv_def)
  have "\<exists>p < length xs. positions a ! i = int p + 1 \<and> tracked a ! i = Some (xs ! p)
            \<and> counts a ! i = int (count_list (drop p xs) (xs ! p))" if "i < nat ne" for i
  proof (intro exI conjI)
    note sl = slots [OF that] assms(3)
    have p: "1 \<le> positions a ! i" "positions a ! i \<le> int (length xs)"
      using sl by (auto simp: slot_ok_def)
    show "nat (positions a ! i) - 1 < length xs" "positions a ! i = int (nat (positions a ! i) - 1) + 1"
      using p by linarith+
    show "tracked a ! i = Some (xs ! (nat (positions a ! i) - 1))"
      "counts a ! i = int (count_list (drop (nat (positions a ! i) - 1) xs) (xs ! (nat (positions a ! i) - 1)))"
      using sl by (auto simp: slot_ok_def)
  qed
  with ams_estimate_range [OF inv assms(3) refl] show ?thesis by simp
qed

definition first_randint :: "int \<Rightarrow> int \<Rightarrow> int \<Rightarrow> int \<times> int" where
  "first_randint g a b = (b, g)"

theorem ams_stream_witness:
  "\<exists>a0. ams_init (\<lambda>_. 0) 4 2 42 = Inr a0
    \<and> 3 \<le> ams_estimate (ams_add_many first_randint [''x'', ''y'', ''x''] a0)"
proof -
  have init: "\<exists>a0. ams_init (\<lambda>_. 0 :: int) 4 2 42 = Inr a0" by (simp add: ams_init_def)
  then obtain a0 where a0: "ams_init (\<lambda>_. 0 :: int) 4 2 42 = Inr a0" ..
  have "good_randint first_randint" by (simp add: good_randint_def first_randint_def)
  from ams_stream [OF this a0, of "[''x'', ''y'', ''x'']"] a0 show ?thesis by auto
qed

section \<open>The window table\<close>

definition mo_ok :: "'g moments \<Rightarrow> bool" where
  "mo_ok a \<longleftrightarrow> wf_dict (window_exact a) \<and> wf_dict (window_ams a)
     \<and> set (dkeys (window_ams a)) = set (dkeys (window_exact a))"

lemma ams_init_64: "\<exists>e. ams_init seeded 64 8 42 = Inr e"
  by (simp add: ams_init_def)

lemma feed_row_ok:
  assumes "mo_ok a" and "mo_window_len_s a \<noteq> 0" and "set upd \<subseteq> set (dkeys (window_exact a))"
  shows "\<exists>a' upd'. moments_feed_row seeded randint fmt_ts row (a, upd) = Inr (a', upd')
    \<and> mo_ok a' \<and> mo_window_len_s a' = mo_window_len_s a \<and> set upd' \<subseteq> set (dkeys (window_exact a'))
    \<and> distinct upd = distinct upd'"
proof (cases "fst row")
  case None
  with assms show ?thesis by (cases row) (auto simp: moments_feed_row_def)
next
  case (Some t)
  obtain dst where row: "row = (Some t, dst)" using Some by (cases row) auto
  from ams_init_64 [of seeded] obtain e0 where e0: "ams_init seeded 64 8 42 = Inr e0" ..
  let ?e = "py_trunc t"
  define ws where "ws = fmt_ts (?e - ?e mod mo_window_len_s a)"
  have key: "window_key fmt_ts (mo_window_len_s a) t = Inr ws"
    using assms(2) by (simp add: window_key_def Let_def ws_def)
  define a1 where "a1 = (if ws \<in> set (dkeys (window_exact a)) then a
      else a\<lparr>window_exact := dset ws [] (window_exact a), window_ams := dset ws e0 (window_ams a)\<rparr>)"
  have a1: "mo_ok a1" "ws \<in> set (dkeys (window_exact a1))" "mo_window_len_s a1 = mo_window_len_s a"
    "set (dkeys (window_exact a)) \<subseteq> set (dkeys (window_exact a1))"
    using assms(1) by (auto simp: a1_def mo_ok_def dkeys_dset simp del: set_map)
  obtain c e where ce: "dget (window_exact a1) ws = Some c" "dget (window_ams a1) ws = Some e"
    using a1(1,2) dget_None_iff [of "window_exact a1" ws] dget_None_iff [of "window_ams a1" ws]
    unfolding mo_ok_def by (metis option.exhaust)
  let ?a2 = "a1\<lparr>window_exact := dset ws (counter_inc dst c) (window_exact a1),
                window_ams := dset ws (ams_add randint dst e) (window_ams a1)\<rparr>"
  have run: "moments_feed_row seeded randint fmt_ts row (a, upd)
      = Inr (?a2, if ws \<in> set upd then upd else upd @ [ws])"
    using key ce e0 by (cases "ws \<in> set (dkeys (window_exact a))")
      (auto simp: moments_feed_row_def row a1_def dlookup_def)
  have "mo_ok ?a2" using a1(1,2) unfolding mo_ok_def by (simp add: dkeys_dset del: set_map)
  moreover have "set (if ws \<in> set upd then upd else upd @ [ws]) \<subseteq> set (dkeys (window_exact ?a2))"
    using assms(3) a1(2,4) by (auto simp: dkeys_dset simp del: set_map)
  ultimately show ?thesis using run a1(3) by auto
qed

lemma feed_rows_ok:
  assumes "mo_ok a" and "mo_window_len_s a \<noteq> 0" and "set upd \<subseteq> set (dkeys (window_exact a))"
  shows "\<exists>a' upd'. foldE (moments_feed_row seeded randint fmt_ts) rows (a, upd) = Inr (a', upd')
    \<and> mo_ok a' \<and> mo_window_len_s a' = mo_window_len_s a \<and> set upd' \<subseteq> set (dkeys (window_exact a'))"
  using assms
proof (induction rows arbitrary: a upd)
  case (Cons r rows)
  from feed_row_ok [OF Cons.prems, of seeded randint fmt_ts r] obtain b u where
    b: "moments_feed_row seeded randint fmt_ts r (a, upd) = Inr (b, u)" "mo_ok b"
    "mo_window_len_s b = mo_window_len_s a" "set u \<subseteq> set (dkeys (window_exact b))" by blast
  from Cons.IH [OF b(2) _ b(4)] b(1,3) Cons.prems(2) show ?case by simp
qed simp

lemma slice_drop_last: "60 < length xs \<Longrightarrow> slice_to xs (- 60) = take (length xs - 60) xs"
  by (simp add: slice_to_def nat_diff_distrib)

lemma moments_evict_spec:
  assumes "mo_ok a"
  shows "mo_ok (moments_evict a)" and "length (window_exact (moments_evict a)) = min 60 (length (window_exact a))"
    and "\<And>k. k \<in> set (dkeys (window_exact (moments_evict a))) \<Longrightarrow>
          dget (window_exact (moments_evict a)) k = dget (window_exact a) k
          \<and> dget (window_ams (moments_evict a)) k = dget (window_ams a) k"
    and "\<And>k k'. k \<in> set (dkeys (window_exact a)) \<Longrightarrow> k \<notin> set (dkeys (window_exact (moments_evict a))) \<Longrightarrow>
          k' \<in> set (dkeys (window_exact (moments_evict a))) \<Longrightarrow> k < k'"
proof -
  have "mo_ok (moments_evict a) \<and> length (window_exact (moments_evict a)) = min 60 (length (window_exact a))
    \<and> (\<forall>k. k \<in> set (dkeys (window_exact (moments_evict a))) \<longrightarrow>
          dget (window_exact (moments_evict a)) k = dget (window_exact a) k
          \<and> dget (window_ams (moments_evict a)) k = dget (window_ams a) k)
    \<and> (\<forall>k k'. k \<in> set (dkeys (window_exact a)) \<longrightarrow> k \<notin> set (dkeys (window_exact (moments_evict a))) \<longrightarrow>
          k' \<in> set (dkeys (window_exact (moments_evict a))) \<longrightarrow> k < k')"
  proof (cases "length (window_exact a) > 60")
    case False
    with assms show ?thesis by (simp add: moments_evict_def)
  next
    case True
    let ?ks = "sort (dkeys (window_exact a))" and ?n = "length (window_exact a) - 60"
    have wf: "wf_dict (window_exact a)" "wf_dict (window_ams a)" using assms by (auto simp: mo_ok_def)
    have ks: "distinct ?ks" "set ?ks = set (dkeys (window_exact a))" using wf by simp_all
    have ks2: "set ?ks = set (dkeys (window_ams a))" using assms ks(2) by (simp add: mo_ok_def)
    have ev: "window_exact (moments_evict a) = fold ddel (take ?n ?ks) (window_exact a)"
      "window_ams (moments_evict a) = fold ddel (take ?n ?ks) (window_ams a)"
      using True by (simp_all add: moments_evict_def slice_drop_last Let_def)
    note e1 = evict_keys [OF wf(1) ks ev(1)] and e2 = evict_keys [OF wf(2) ks(1) ks2 ev(2)]
    have ok: "mo_ok (moments_evict a)" unfolding mo_ok_def using e1(1,2) e2(1,2) by simp
    have look: "k \<notin> set (take ?n ?ks)" if "k \<in> set (dkeys (window_exact (moments_evict a)))" for k
      using that e1(5) [of k] dget_None_iff [of "window_exact (moments_evict a)" k] by auto
    have "k < k'" if "k \<in> set (dkeys (window_exact a))" "k \<notin> set (dkeys (window_exact (moments_evict a)))"
      "k' \<in> set (dkeys (window_exact (moments_evict a)))" for k k'
    proof -
      have "set ?ks = set (take ?n ?ks) \<union> set (drop ?n ?ks)" by (metis append_take_drop_id set_append)
      then have "k \<in> set (take ?n ?ks)" "k' \<in> set (drop ?n ?ks)"
        using that ks(2) unfolding e1(2) by auto
      then have "k \<le> k'" using sorted_take_drop [of "\<lambda>k. k" ?ks k _ k'] by simp
      moreover have "k \<noteq> k'" using that by auto
      ultimately show ?thesis by simp
    qed
    with ok look e1(3,5) e2(5) True show ?thesis by auto
  qed
  then show "mo_ok (moments_evict a)"
    "length (window_exact (moments_evict a)) = min 60 (length (window_exact a))"
    "\<And>k. k \<in> set (dkeys (window_exact (moments_evict a))) \<Longrightarrow>
          dget (window_exact (moments_evict a)) k = dget (window_exact a) k
          \<and> dget (window_ams (moments_evict a)) k = dget (window_ams a) k"
    "\<And>k k'. k \<in> set (dkeys (window_exact a)) \<Longrightarrow> k \<notin> set (dkeys (window_exact (moments_evict a))) \<Longrightarrow>
          k' \<in> set (dkeys (window_exact (moments_evict a))) \<Longrightarrow> k < k'" by blast+
qed

lemma report_lookup:
  assumes "mo_ok a"
  shows "ws \<in> set (dkeys (window_exact a)) \<Longrightarrow> \<exists>r. moments_report a ws = Inr r \<and> mr_window_start r = ws"
    and "ws \<notin> set (dkeys (window_exact a)) \<Longrightarrow> moments_report a ws = Inl KeyError"
proof -
  show "ws \<notin> set (dkeys (window_exact a)) \<Longrightarrow> moments_report a ws = Inl KeyError"
    using dget_None_iff [of "window_exact a" ws] by (simp add: moments_report_def dlookup_def)
  assume ws: "ws \<in> set (dkeys (window_exact a))"
  with assms obtain c e where "dget (window_exact a) ws = Some c" "dget (window_ams a) ws = Some e"
    using dget_None_iff [of "window_exact a" ws] dget_None_iff [of "window_ams a" ws]
    unfolding mo_ok_def by (metis option.exhaust)
  then show "\<exists>r. moments_report a ws = Inr r \<and> mr_window_start r = ws"
    by (simp add: moments_report_def dlookup_def)
qed

lemma reports:
  assumes "mo_ok a"
  shows "mapE (moments_report a) upd =
    (if set upd \<subseteq> set (dkeys (window_exact a)) then mapE (moments_report a) upd else Inl KeyError)"
    and "set upd \<subseteq> set (dkeys (window_exact a)) \<Longrightarrow>
      \<exists>out. mapE (moments_report a) upd = Inr out \<and> map mr_window_start out = upd"
proof -
  show b: "set upd \<subseteq> set (dkeys (window_exact a)) \<Longrightarrow>
      \<exists>out. mapE (moments_report a) upd = Inr out \<and> map mr_window_start out = upd" for upd
  proof (induction upd)
    case (Cons w upd)
    with report_lookup(1) [OF assms, of w] show ?case by fastforce
  qed simp
  show "mapE (moments_report a) upd =
    (if set upd \<subseteq> set (dkeys (window_exact a)) then mapE (moments_report a) upd else Inl KeyError)"
  proof (induction upd)
    case (Cons w upd)
    show ?case
    proof (cases "w \<in> set (dkeys (window_exact a))")
      case False
      with report_lookup(2) [OF assms, of w] show ?thesis by simp
    next
      case True
      with report_lookup(1) [OF assms, of w] obtain r where "moments_report a w = Inr r" by blast
      with Cons True show ?thesis by (auto split: if_splits)
    qed
  qed simp
qed

lemma feed_window_table:
  assumes "mo_ok a" and "mo_window_len_s a \<noteq> 0"
  shows "\<exists>b upd. foldE (moments_feed_row seeded randint fmt_ts) rows (a, []) = Inr (b, upd)
    \<and> length (window_exact (moments_evict b)) \<le> 60
    \<and> (if set upd \<subseteq> set (dkeys (window_exact (moments_evict b)))
       then \<exists>out. moments_consume seeded randint fmt_ts rows a = Inr (moments_evict b, out)
              \<and> map mr_window_start out = upd
       else moments_consume seeded randint fmt_ts rows a = Inl KeyError
              \<and> (\<exists>w \<in> set upd. \<forall>k \<in> set (dkeys (window_exact (moments_evict b))). w < k))"
proof -
  from feed_rows_ok [OF assms, of "[]" seeded randint fmt_ts rows] obtain b upd where
    b: "foldE (moments_feed_row seeded randint fmt_ts) rows (a, []) = Inr (b, upd)" "mo_ok b"
    "set upd \<subseteq> set (dkeys (window_exact b))" by auto
  note ev = moments_evict_spec [OF b(2)]
  have run: "moments_consume seeded randint fmt_ts rows a
      = bindE (mapE (moments_report (moments_evict b)) upd) (\<lambda>out. Inr (moments_evict b, out))"
    by (simp add: moments_consume_def b(1) Let_def)
  show ?thesis
  proof (cases "set upd \<subseteq> set (dkeys (window_exact (moments_evict b)))")
    case True
    with reports(2) [OF ev(1) True] run b(1) ev(2) show ?thesis by fastforce
  next
    case False
    then obtain w where w: "w \<in> set upd" "w \<notin> set (dkeys (window_exact (moments_evict b)))" by blast
    have "mapE (moments_report (moments_evict b)) upd = Inl KeyError"
      using reports(1) [OF ev(1), of upd] False by simp
    then have "moments_consume seeded randint fmt_ts rows a = Inl KeyError" by (simp add: run)
    moreover have "\<forall>k \<in> set (dkeys (window_exact (moments_evict b))). w < k"
      using ev(4) [OF _ w(2)] w(1) b(3) by blast
    ultimately show ?thesis using False w(1) b(1) ev(2) by (intro exI [of _ b] exI [of _ upd]) auto
  qed
qed

text \<open>The destinations of the rows that fall into a window, and what feeding them does to its counter and estimator.\<close>

definition window_rows :: "(int \<Rightarrow> string) \<Rightarrow> int \<Rightarrow> (real option \<times> string) list \<Rightarrow> string \<Rightarrow> string list" where
  "window_rows fmt_ts len rows w =
     map snd (filter (\<lambda>(t, _). case t of None \<Rightarrow> False | Some x \<Rightarrow> window_key fmt_ts len x = Inr w) rows)"

lemma window_rows_simps [simp]:
  "window_rows fmt_ts len [] w = []"
  "window_rows fmt_ts len ((None, d) # rows) w = window_rows fmt_ts len rows w"
  "window_rows fmt_ts len ((Some t, d) # rows) w
     = (if window_key fmt_ts len t = Inr w then d # window_rows fmt_ts len rows w else window_rows fmt_ts len rows w)"
  by (simp_all add: window_rows_def)

definition fed :: "(string, 'a) dict \<Rightarrow> ('b \<Rightarrow> 'a \<Rightarrow> 'a) \<Rightarrow> 'a \<Rightarrow> 'b list \<Rightarrow> string \<Rightarrow> 'a option" where
  "fed d f x0 xs w = (if xs = [] then dget d w else Some (fold f xs (dget_or d w x0)))"

lemma fed_simps:
  "fed d f x0 [] w = dget d w"
  "fed d f x0 (x # xs) w = Some (fold f xs (f x (dget_or d w x0)))"
  by (simp_all add: fed_def)

lemma feed_row_spec:
  assumes "mo_ok a" and "moments_feed_row seeded randint fmt_ts row (a, upd) = Inr (b, upd')"
    and "ams_init seeded 64 8 42 = Inr e0"
  shows "dget (window_exact b) w = fed (window_exact a) counter_inc [] (window_rows fmt_ts (mo_window_len_s a) [row] w) w
    \<and> dget (window_ams b) w = fed (window_ams a) (ams_add randint) e0 (window_rows fmt_ts (mo_window_len_s a) [row] w) w
    \<and> (w \<in> set upd' \<longleftrightarrow> w \<in> set upd \<or> window_rows fmt_ts (mo_window_len_s a) [row] w \<noteq> [])"
proof (cases "fst row")
  case None
  with assms(2) show ?thesis by (cases row) (auto simp: moments_feed_row_def fed_simps)
next
  case (Some t)
  obtain dst where row: "row = (Some t, dst)" using Some by (cases row) auto
  from assms(2) obtain ws where ws: "window_key fmt_ts (mo_window_len_s a) t = Inr ws"
    by (auto simp: moments_feed_row_def row res_simps)
  show ?thesis
  proof (cases "ws \<in> set (dkeys (window_exact a))")
    case True
    moreover from this assms(1) have "ws \<in> set (dkeys (window_ams a))" by (simp add: mo_ok_def)
    ultimately obtain c e where ce: "dget (window_exact a) ws = Some c" "dget (window_ams a) ws = Some e"
      using dget_None_iff [of "window_exact a" ws] dget_None_iff [of "window_ams a" ws] by (metis option.exhaust)
    with True assms(2) ws show ?thesis
      by (auto simp: moments_feed_row_def row dlookup_def fed_simps dget_or_def split: if_splits)
  next
    case False
    moreover from this assms(1) have "ws \<notin> set (dkeys (window_ams a))" by (simp add: mo_ok_def)
    ultimately have "dget (window_exact a) ws = None" "dget (window_ams a) ws = None"
      using dget_None_iff [of "window_exact a" ws] dget_None_iff [of "window_ams a" ws] by blast+
    with False assms(2,3) ws show ?thesis
      by (auto simp: moments_feed_row_def row dlookup_def fed_simps dget_or_def split: if_splits)
  qed
qed

lemma fed_cons: "fed d f x0 (xs @ ys) w = (if ys = [] then fed d f x0 xs w
    else Some (fold f ys (case fed d f x0 xs w of None \<Rightarrow> x0 | Some x \<Rightarrow> x)))"
  by (auto simp: fed_def dget_or_def)

lemma feed_rows_spec:
  assumes "mo_ok a" and "mo_window_len_s a \<noteq> 0" and "set upd \<subseteq> set (dkeys (window_exact a))"
    and "foldE (moments_feed_row seeded randint fmt_ts) rows (a, upd) = Inr (b, upd')"
    and "ams_init seeded 64 8 42 = Inr e0"
  shows "dget (window_exact b) w = fed (window_exact a) counter_inc [] (window_rows fmt_ts (mo_window_len_s a) rows w) w
    \<and> dget (window_ams b) w = fed (window_ams a) (ams_add randint) e0 (window_rows fmt_ts (mo_window_len_s a) rows w) w
    \<and> (w \<in> set upd' \<longleftrightarrow> w \<in> set upd \<or> window_rows fmt_ts (mo_window_len_s a) rows w \<noteq> [])"
  using assms(1-4)
proof (induction rows arbitrary: a upd)
  case Nil
  then show ?case by (simp add: fed_simps)
next
  case (Cons r rows)
  let ?len = "mo_window_len_s a"
  from feed_row_ok [OF Cons.prems(1-3), of seeded randint fmt_ts r] obtain a1 u where
    a1: "moments_feed_row seeded randint fmt_ts r (a, upd) = Inr (a1, u)" "mo_ok a1"
    "mo_window_len_s a1 = ?len" "set u \<subseteq> set (dkeys (window_exact a1))" by blast
  have rest: "foldE (moments_feed_row seeded randint fmt_ts) rows (a1, u) = Inr (b, upd')"
    using Cons.prems(4) a1(1) by simp
  note one = feed_row_spec [OF Cons.prems(1) a1(1) assms(5), of w]
  note ih = Cons.IH [OF a1(2) _ a1(4) rest, unfolded a1(3), OF Cons.prems(2)]
  have app: "window_rows fmt_ts ?len (r # rows) w = window_rows fmt_ts ?len [r] w @ window_rows fmt_ts ?len rows w"
    by (simp add: window_rows_def)
  show ?case using one ih unfolding app fed_cons by (simp add: fed_def dget_or_def)
qed

lemma report_row:
  assumes "moments_report a ws = Inr r"
  shows "\<exists>c e. dget (window_exact a) (mr_window_start r) = Some c \<and> dget (window_ams a) (mr_window_start r) = Some e
    \<and> mr_window_len r = mo_window_len_s a \<and> f2_exact r = of_int (exact_f2 c) \<and> f2_ams r = ams_estimate e"
  using assms by (auto simp: moments_report_def dlookup_def res_simps split: option.splits)

lemma evict_len [simp]: "mo_window_len_s (moments_evict a) = mo_window_len_s a"
  by (simp add: moments_evict_def Let_def)

text \<open>What a batch reports, once it has been fed.\<close>

lemma consume_outcome:
  assumes "mo_ok a" and "mo_window_len_s a \<noteq> 0"
    and fed: "foldE (moments_feed_row seeded randint fmt_ts) rows (a, []) = Inr (b, upd)"
      "mo_window_len_s b = mo_window_len_s a"
  shows "if set upd \<subseteq> set (dkeys (window_exact (moments_evict b)))
       then \<exists>out. moments_consume seeded randint fmt_ts rows a = Inr (moments_evict b, out) \<and> map mr_window_start out = upd
         \<and> (\<forall>r \<in> set out. \<exists>x e. dget (window_exact (moments_evict b)) (mr_window_start r) = Some x
              \<and> dget (window_ams (moments_evict b)) (mr_window_start r) = Some e \<and> mr_window_len r = mo_window_len_s a
              \<and> f2_exact r = of_int (exact_f2 x) \<and> f2_ams r = ams_estimate e)
       else moments_consume seeded randint fmt_ts rows a = Inl KeyError
              \<and> (\<exists>w \<in> set upd. \<forall>k \<in> set (dkeys (window_exact (moments_evict b))). w < k)"
proof -
  let ?c = "moments_evict b"
  from feed_window_table [OF assms(1,2), of seeded randint fmt_ts rows] obtain b2 upd2 where
    t: "foldE (moments_feed_row seeded randint fmt_ts) rows (a, []) = Inr (b2, upd2)"
    "if set upd2 \<subseteq> set (dkeys (window_exact (moments_evict b2)))
     then \<exists>out. moments_consume seeded randint fmt_ts rows a = Inr (moments_evict b2, out) \<and> map mr_window_start out = upd2
     else moments_consume seeded randint fmt_ts rows a = Inl KeyError
            \<and> (\<exists>w \<in> set upd2. \<forall>k \<in> set (dkeys (window_exact (moments_evict b2))). w < k)" by blast
  have eq: "b2 = b" "upd2 = upd" using t(1) fed(1) by simp_all
  have rows: "\<exists>x e. dget (window_exact ?c) (mr_window_start r) = Some x
      \<and> dget (window_ams ?c) (mr_window_start r) = Some e \<and> mr_window_len r = mo_window_len_s a
      \<and> f2_exact r = of_int (exact_f2 x) \<and> f2_ams r = ams_estimate e"
    if "moments_consume seeded randint fmt_ts rows a = Inr (?c, out)" "r \<in> set out" for r out
  proof -
    have "mapE (moments_report ?c) upd = Inr out" using that(1) fed(1) by (auto simp: moments_consume_def Let_def res_simps)
    from mapE_in [OF this that(2)] report_row [where a = ?c] show ?thesis using fed(2) by fastforce
  qed
  show ?thesis using t(2) [unfolded eq] rows
    by (cases "set upd \<subseteq> set (dkeys (window_exact ?c))") (simp_all only: if_True if_False, blast+)
qed

lemma evicted_subset: "mo_ok b \<Longrightarrow> set (dkeys (window_exact (moments_evict b))) \<subseteq> set (dkeys (window_exact b))"
  using moments_evict_spec(3) [of b] dget_None_iff [of "window_exact b"] dget_None_iff [of "window_exact (moments_evict b)"]
  by (metis subsetI)

lemma window_count: "mo_ok d \<Longrightarrow> card (set (dkeys (window_exact d))) = length (window_exact d)"
  using distinct_card [of "dkeys (window_exact d)"] by (simp add: mo_ok_def)

text \<open>C26: the window table.  The counters and the estimators have the same windows, at first and after every
  batch.  Feeding a batch never fails, the window length being non-zero: the counter of a window has counted the
  destinations of the batch's rows in it, and its estimator, a new one for a new window, has been given the same.
  Of the windows, the sixty latest are kept as they are, and the others are removed.  The batch then reports, for each
  window that it updated, the exact second moment of its counter and the estimate of its estimator; unless it has
  updated a window that has just been removed as too old: then, and only then, it raises \<open>KeyError\<close> and reports
  nothing.\<close>

theorem moments_window_table:
  assumes "mo_ok a" and "mo_window_len_s a \<noteq> 0" and "ams_init seeded 64 8 42 = Inr e0"
  shows "\<exists>b upd. foldE (moments_feed_row seeded randint fmt_ts) rows (a, []) = Inr (b, upd)
    \<and> (\<forall>w. let xs = window_rows fmt_ts (mo_window_len_s a) rows w in
          dget (window_exact b) w
            = (if xs = [] then dget (window_exact a) w else Some (fold counter_inc xs (dget_or (window_exact a) w [])))
        \<and> dget (window_ams b) w
            = (if xs = [] then dget (window_ams a) w else Some (fold (ams_add randint) xs (dget_or (window_ams a) w e0)))
        \<and> (w \<in> set upd \<longleftrightarrow> xs \<noteq> []))
    \<and> (let c = moments_evict b; kept = set (dkeys (window_exact c)) in
        mo_ok c \<and> card kept = min 60 (card (set (dkeys (window_exact b)))) \<and> kept \<subseteq> set (dkeys (window_exact b))
      \<and> (\<forall>k \<in> kept. dget (window_exact c) k = dget (window_exact b) k \<and> dget (window_ams c) k = dget (window_ams b) k
           \<and> (\<forall>old \<in> set (dkeys (window_exact b)) - kept. old < k))
      \<and> (if set upd \<subseteq> kept
         then \<exists>out. moments_consume seeded randint fmt_ts rows a = Inr (c, out) \<and> map mr_window_start out = upd
           \<and> (\<forall>r \<in> set out. \<exists>x e. dget (window_exact c) (mr_window_start r) = Some x
                \<and> dget (window_ams c) (mr_window_start r) = Some e \<and> mr_window_len r = mo_window_len_s a
                \<and> f2_exact r = of_int (exact_f2 x) \<and> f2_ams r = ams_estimate e)
         else moments_consume seeded randint fmt_ts rows a = Inl KeyError
           \<and> (\<exists>w \<in> set upd. \<forall>k \<in> kept. w < k)))"
proof -
  from feed_rows_ok [OF assms(1,2), of "[]" seeded randint fmt_ts rows] obtain b upd where
    b: "foldE (moments_feed_row seeded randint fmt_ts) rows (a, []) = Inr (b, upd)" "mo_ok b"
    "mo_window_len_s b = mo_window_len_s a" by auto
  let ?c = "moments_evict b"
  note ev = moments_evict_spec [OF b(2)]
  note sp = feed_rows_spec [OF assms(1,2) _ b(1) assms(3), simplified]
  note out = consume_outcome [OF assms(1,2) b(1,3)] and sub = evicted_subset [OF b(2)]
  have table: "mo_ok ?c \<and> card (set (dkeys (window_exact ?c))) = min 60 (card (set (dkeys (window_exact b))))"
    using ev(1,2) window_count [OF b(2)] window_count [OF ev(1)] by simp
  have kept: "\<forall>k \<in> set (dkeys (window_exact ?c)). dget (window_exact ?c) k = dget (window_exact b) k
      \<and> dget (window_ams ?c) k = dget (window_ams b) k
      \<and> (\<forall>old \<in> set (dkeys (window_exact b)) - set (dkeys (window_exact ?c)). old < k)"
    using ev(3,4) by blast
  have feed: "\<forall>w. let xs = window_rows fmt_ts (mo_window_len_s a) rows w in
        dget (window_exact b) w
          = (if xs = [] then dget (window_exact a) w else Some (fold counter_inc xs (dget_or (window_exact a) w [])))
      \<and> dget (window_ams b) w
          = (if xs = [] then dget (window_ams a) w else Some (fold (ams_add randint) xs (dget_or (window_ams a) w e0)))
      \<and> (w \<in> set upd \<longleftrightarrow> xs \<noteq> [])"
    using sp unfolding Let_def fed_def by simp
  show ?thesis
    by (rule exI [of _ b], rule exI [of _ upd]) (simp only: b(1) Let_def [of "moments_evict b"] Let_def [of "set _"],
      use feed sub table kept out in blast)
qed

theorem moments_window_table_witness:
  "\<exists>b upd. foldE (moments_feed_row (\<lambda>_. 0) first_randint int_str) [(Some 12, ''d'')] (moments_new, []) = Inr (b, upd)
    \<and> dget (window_exact b) (int_str 10) = Some [(''d'', 1)]"
proof -
  from ams_init_64 [of "\<lambda>_. 0 :: int"] obtain e0 where e0: "ams_init (\<lambda>_. 0 :: int) 64 8 42 = Inr e0" ..
  have k: "window_rows int_str 10 [(Some 12, ''d'')] (int_str 10) = [''d'']"
    by (simp add: window_rows_def window_key_def py_trunc_def)
  show ?thesis
    using moments_window_table [OF _ _ e0, of moments_new first_randint int_str "[(Some 12, ''d'')]"] k
    by (auto simp: mo_ok_def moments_new_def Let_def counter_inc_def dget_or_def)
qed

text \<open>a late packet stops the batch.  When sixty newer windows are held, a batch whose only row
  belongs to an older window raises \<open>KeyError\<close>, so nothing is upserted or persisted.\<close>

theorem moments_late_window:
  assumes "mo_ok a" and "60 \<le> length (window_exact a)" and "window_key fmt_ts (mo_window_len_s a) t = Inr ws"
    and "\<forall>k \<in> set (dkeys (window_exact a)). ws < k"
  shows "moments_consume seeded randint fmt_ts [(Some t, dst)] a = Inl KeyError"
proof -
  have len: "mo_window_len_s a \<noteq> 0" using assms(3) by (auto simp: window_key_def)
  have new: "ws \<notin> set (dkeys (window_exact a))" using assms(4) by blast
  from ams_init_64 [of seeded] obtain e0 where e0: "ams_init seeded 64 8 42 = Inr e0" ..
  from feed_window_table [OF assms(1) len, of seeded randint fmt_ts "[(Some t, dst)]"] obtain b upd where
    b: "foldE (moments_feed_row seeded randint fmt_ts) [(Some t, dst)] (a, []) = Inr (b, upd)"
    "if set upd \<subseteq> set (dkeys (window_exact (moments_evict b)))
       then \<exists>out. moments_consume seeded randint fmt_ts [(Some t, dst)] a = Inr (moments_evict b, out)
              \<and> map mr_window_start out = upd
       else moments_consume seeded randint fmt_ts [(Some t, dst)] a = Inl KeyError
              \<and> (\<exists>w \<in> set upd. \<forall>k \<in> set (dkeys (window_exact (moments_evict b))). w < k)" by blast
  from b(1) new have u: "upd = [ws]" and k: "dkeys (window_exact b) = dkeys (window_exact a) @ [ws]"
    by (auto simp: moments_feed_row_def assms(3) e0 dlookup_def dkeys_dset_list res_simps simp del: set_map)
  have "mo_ok b" using feed_rows_ok [OF assms(1) len, of "[]" seeded randint fmt_ts "[(Some t, dst)]"] b(1) by auto
  note ev = moments_evict_spec [OF this]
  have big: "length (window_exact b) > 60" using arg_cong [OF k, of length] assms(2) by simp
  have "ws \<notin> set (dkeys (window_exact (moments_evict b)))"
  proof
    assume ws: "ws \<in> set (dkeys (window_exact (moments_evict b)))"
    have "set (dkeys (window_exact b)) \<subseteq> set (dkeys (window_exact (moments_evict b)))"
    proof
      fix k' assume k': "k' \<in> set (dkeys (window_exact b))"
      show "k' \<in> set (dkeys (window_exact (moments_evict b)))"
      proof (rule ccontr)
        assume "k' \<notin> set (dkeys (window_exact (moments_evict b)))"
        from ev(4) [OF k' this ws] have "k' < ws" .
        with k' k assms(4) show False by auto
      qed
    qed
    then have "card (set (dkeys (window_exact b))) \<le> card (set (dkeys (window_exact (moments_evict b))))"
      by (intro card_mono) auto
    moreover have "card (set (dkeys (window_exact b))) = length (window_exact b)"
      using distinct_card [of "dkeys (window_exact b)"] \<open>mo_ok b\<close> by (simp add: mo_ok_def)
    moreover have "card (set (dkeys (window_exact (moments_evict b)))) \<le> length (window_exact (moments_evict b))"
      using card_length [of "dkeys (window_exact (moments_evict b))"] by simp
    ultimately show False using ev(2) big by simp
  qed
  with b(2) u show ?thesis by (simp split: if_splits)
qed

definition sixty_windows :: "int moments" where
  "sixty_windows = \<lparr>mo_window_len_s = 10,
     window_exact = map (\<lambda>i. (replicate (i + 2) CHR ''1'', [])) [0..<60],
     window_ams = map (\<lambda>i. (replicate (i + 2) CHR ''1'', \<lparr>num_estimators = 1, ams_groups = 1,
        ams_seed = 42, ams_rng = 0, ams_n = 0, tracked = [None], counts = [0], positions = [0]\<rparr>)) [0..<60],
     initialized = True\<rparr>"

theorem moments_late_window_witness:
  "moments_consume (\<lambda>_. 0) first_randint int_str [(Some 5, ''d'')] sixty_windows = Inl KeyError"
proof (rule moments_late_window)
  have inj: "inj_on (\<lambda>i. replicate (i + 2) CHR ''1'') A" for A :: "nat set"
    by (rule inj_onI) (metis add_right_cancel length_replicate)
  have keys: "dkeys (window_exact sixty_windows) = map (\<lambda>i. replicate (i + 2) CHR ''1'') [0..<60]"
    "dkeys (window_ams sixty_windows) = map (\<lambda>i. replicate (i + 2) CHR ''1'') [0..<60]"
    by (simp_all add: sixty_windows_def comp_def del: upt_rec_numeral)
  show "mo_ok sixty_windows"
    unfolding mo_ok_def keys using inj by (simp add: distinct_map del: upt_rec_numeral)
  show "60 \<le> length (window_exact sixty_windows)"
    by (simp add: sixty_windows_def del: upt_rec_numeral)
  show "window_key int_str (mo_window_len_s sixty_windows) 5 = Inr ''0''"
  proof -
    have "int_str 0 = ''0''" by code_simp
    then show ?thesis by (simp add: window_key_def py_trunc_def sixty_windows_def)
  qed
  show "\<forall>k \<in> set (dkeys (window_exact sixty_windows)). ''0'' < k"
    unfolding keys by (auto simp: less_char_def simp del: upt_rec_numeral)
qed

section \<open>Restart\<close>

lemma json_opt_inverse [simp]: "json_opt (opt_json x) = Inr x"
  by (cases x) simp_all

lemma ams_restore_snapshot:
  assumes "\<And>g. json_rng (rng_json g) = Inr g"
  shows "ams_restore seeded json_rng (ams_snapshot rng_json a) b = Inr a"
  using assms by (simp add: ams_restore_def ams_snapshot_def dlookup_def mapE_map_inverse)

lemma json_counter_inverse: "json_counter (JObj (map (\<lambda>(k, n). (k, JInt n)) c)) = Inr c"
  unfolding json_counter_def by (simp add: mapE_map_inverse case_prod_beta)

text \<open>restart.  A plugin that starts from the state file written by another one has the same
  windows, counters and estimators, generator states included, provided \<open>setstate\<close> undoes
  \<open>getstate\<close>.\<close>

theorem moments_restart:
  assumes "\<And>g. json_rng (rng_json g) = Inr g"
  shows "moments_restore_state seeded json_rng (Some (moments_state_json rng_json a)) b
    = b\<lparr>mo_window_len_s := mo_window_len_s a, window_exact := window_exact a, window_ams := window_ams a\<rparr>"
proof -
  from ams_init_64 have "\<exists>e0. ams_init seeded 60 6 42 = Inr e0" by (simp add: ams_init_def)
  then obtain e0 where e0: "ams_init seeded 60 6 42 = Inr e0" ..
  have ex: "mapE (\<lambda>(w, c). bindE (json_counter c) (\<lambda>d. Inr (w, d)))
      (map (\<lambda>(w, c). (w, JObj (map (\<lambda>(k, n). (k, JInt n)) c))) d) = Inr d" for d :: "(string, (string, int) dict) dict"
    by (rule mapE_map_inverse) (auto simp: json_counter_inverse)
  have es: "mapE (\<lambda>(w, c). bindE (ams_init seeded 60 6 42) (\<lambda>e0.
                      bindE (ams_restore seeded json_rng c e0) (\<lambda>e. Inr (w, e))))
      (map (\<lambda>(w, e). (w, ams_snapshot rng_json e)) d) = Inr d" for d :: "(string, 'a ams) dict"
    by (rule mapE_map_inverse) (auto simp: e0 ams_restore_snapshot [OF assms])
  show ?thesis
    by (simp add: moments_restore_state_def moments_state_json_def dget_or_def ex es)
qed

theorem moments_restart_witness:
  "moments_restore_state (\<lambda>_. 0) jint (Some (moments_state_json JInt sixty_windows)) moments_new
   = moments_new\<lparr>mo_window_len_s := mo_window_len_s sixty_windows, window_exact := window_exact sixty_windows,
       window_ams := window_ams sixty_windows\<rparr>"
  by (rule moments_restart) simp

end
