(* ===== verification/Decay.thy ===== *)
theory Decay
  imports Pytext
begin

text \<open>
  Exponentially decaying windows (\<open>streaming/analytics/decay.py\<close>): \<open>DecayingCounter\<close>,
  \<open>DecayingKeyTable\<close> and the plugin \<open>DecayAnalytic\<close>. Floats are reals, so
  \<open>2.0 ** x\<close> is \<open>2 powr x\<close>.
\<close>

section \<open>Counters\<close>

record decay_counter =
  half_life_s :: real
  score :: real
  last_t :: "real option"

definition counter_init :: "real \<Rightarrow> decay_counter res" where
  "counter_init h = (if h \<le> 0 then Inl ValueError
                     else Inr \<lparr>half_life_s = h, score = 0, last_t = None\<rparr>)"

definition counter_add :: "real \<Rightarrow> real \<Rightarrow> decay_counter \<Rightarrow> decay_counter" where
  "counter_add v t c =
     (case last_t c of
        None \<Rightarrow> c\<lparr>score := v, last_t := Some t\<rparr>
      | Some l \<Rightarrow>
          if t - l > 0
          then c\<lparr>score := score c * 2 powr (- (t - l) / half_life_s c) + v, last_t := Some t\<rparr>
          else c\<lparr>score := score c + v\<rparr>)"

definition counter_value :: "real \<Rightarrow> decay_counter \<Rightarrow> real" where
  "counter_value t c =
     (case last_t c of
        None \<Rightarrow> 0
      | Some l \<Rightarrow> if t - l \<le> 0 then score c else score c * 2 powr (- (t - l) / half_life_s c))"

definition counter_snapshot :: "decay_counter \<Rightarrow> json" where
  "counter_snapshot c =
     JObj [(''half_life_s'', JReal (half_life_s c)), (''score'', JReal (score c)),
           (''last_t'', case last_t c of None \<Rightarrow> JNull | Some t \<Rightarrow> JReal t)]"

definition counter_restore :: "json \<Rightarrow> decay_counter \<Rightarrow> decay_counter res" where
  "counter_restore j c =
     bindE (bindE (jget j ''half_life_s'') jreal) (\<lambda>h.
     bindE (bindE (jget j ''score'') jreal) (\<lambda>s.
     bindE (jget_or j ''last_t'' JNull) (\<lambda>l.
     bindE (if l = JNull then Inr None else bindE (jreal l) (\<lambda>t. Inr (Some t))) (\<lambda>lt.
     Inr (c\<lparr>half_life_s := h, score := s, last_t := lt\<rparr>)))))"

section \<open>Key tables\<close>

record key_table =
  kt_half_life_s :: real
  epsilon :: real
  max_keys :: int
  counters :: "(string, decay_counter) dict"

definition table_init :: "real \<Rightarrow> key_table" where
  "table_init h = \<lparr>kt_half_life_s = h, epsilon = 1 / 10000, max_keys = 1000, counters = []\<rparr>"

definition table_prune :: "real \<Rightarrow> key_table \<Rightarrow> key_table" where
  "table_prune t tb =
     (let dead = map fst (filter (\<lambda>(k, c). counter_value t c < epsilon tb) (counters tb))
      in tb\<lparr>counters := fold ddel dead (counters tb)\<rparr>)"

definition table_add :: "string \<Rightarrow> real \<Rightarrow> real \<Rightarrow> key_table \<Rightarrow> key_table res" where
  "table_add key v t tb =
     bindE (case dget (counters tb) key of
              Some c \<Rightarrow> Inr c
            | None \<Rightarrow> counter_init (kt_half_life_s tb)) (\<lambda>c.
     let tb1 = tb\<lparr>counters := dset key (counter_add v t c) (counters tb)\<rparr>
     in Inr (if int (length (counters tb1)) > max_keys tb1 then table_prune t tb1 else tb1))"

definition table_top_k :: "int \<Rightarrow> real \<Rightarrow> key_table \<Rightarrow> (string \<times> real) list" where
  "table_top_k k t tb =
     slice_to (sort_desc snd (map (\<lambda>(key, c). (key, counter_value t c)) (counters tb))) k"

definition table_snapshot :: "key_table \<Rightarrow> json" where
  "table_snapshot tb =
     JObj [(''half_life_s'', JReal (kt_half_life_s tb)), (''epsilon'', JReal (epsilon tb)),
           (''max_keys'', JInt (max_keys tb)),
           (''counters'', JObj (map (\<lambda>(k, c). (k, counter_snapshot c)) (counters tb)))]"

definition restore_counter :: "string \<times> json \<Rightarrow> key_table \<Rightarrow> key_table res" where
  "restore_counter kj tb =
     bindE (counter_init (kt_half_life_s tb)) (\<lambda>c0.
     bindE (counter_restore (snd kj) c0) (\<lambda>c.
     Inr (tb\<lparr>counters := dset (fst kj) c (counters tb)\<rparr>)))"

definition table_restore :: "json \<Rightarrow> key_table \<Rightarrow> key_table res" where
  "table_restore j tb =
     bindE (bindE (jget j ''half_life_s'') jreal) (\<lambda>h.
     bindE (bindE (jget_or j ''epsilon'' (JReal (1 / 10000))) jreal) (\<lambda>e.
     bindE (bindE (jget_or j ''max_keys'' (JInt 1000)) jint) (\<lambda>m.
     bindE (bindE (jget_or j ''counters'' (JObj [])) jitems) (\<lambda>cs.
     foldE restore_counter cs
       (tb\<lparr>kt_half_life_s := h, epsilon := e, max_keys := m, counters := []\<rparr>)))))"

section \<open>The plugin\<close>

text \<open>Half-lives are integers, the keys of the three dictionaries.\<close>

record decay =
  half_lives :: "int list"
  traffic_counters :: "(int, decay_counter) dict"
  dst_ip_tables :: "(int, key_table) dict"
  dst_port_tables :: "(int, key_table) dict"
  decay_initialized :: bool

record traffic_row =
  tr_ts :: string
  tr_half_life_s :: int
  tr_score :: real
  raw_pps :: real

record top_key_row =
  tk_ts :: string
  key_type :: string
  tk_key :: string
  tk_score :: real
  rank :: nat

definition decay_new :: decay where
  "decay_new = \<lparr>half_lives = [10, 30, 60], traffic_counters = [], dst_ip_tables = [],
                dst_port_tables = [], decay_initialized = False\<rparr>"

definition add_half_life :: "int \<Rightarrow> decay \<Rightarrow> decay res" where
  "add_half_life h a =
     bindE (counter_init (of_int h)) (\<lambda>c.
     Inr (a\<lparr>traffic_counters := dset h c (traffic_counters a),
            dst_ip_tables := dset h (table_init (of_int h)) (dst_ip_tables a),
            dst_port_tables := dset h (table_init (of_int h)) (dst_port_tables a)\<rparr>))"

text \<open>
  \<open>for key, data in state.get(section, {}).items(): if int(key) in d: d[int(key)].restore(data)\<close>.
  An exception ends the whole restore; what was restored before it stays, so the result
  pairs the dictionary with a flag.
\<close>

fun restore_section ::
  "(json \<Rightarrow> 'c \<Rightarrow> 'c res) \<Rightarrow> (string \<times> json) list \<Rightarrow> (int, 'c) dict \<Rightarrow> bool \<times> (int, 'c) dict" where
  "restore_section rest [] d = (True, d)"
| "restore_section rest ((k, j) # kjs) d =
     (case py_int k of
        None \<Rightarrow> (False, d)
      | Some h \<Rightarrow>
          (case dget d h of
             None \<Rightarrow> restore_section rest kjs d
           | Some c \<Rightarrow>
               (case rest j c of
                  Inl _ \<Rightarrow> (False, d)
                | Inr c' \<Rightarrow> restore_section rest kjs (dset h c' d))))"

definition section_of :: "json \<Rightarrow> string \<Rightarrow> (string \<times> json) list res" where
  "section_of j name = bindE (jget_or j name (JObj [])) jitems"

definition decay_restore_state :: "json option \<Rightarrow> decay \<Rightarrow> decay" where
  "decay_restore_state saved a =
     (case saved of None \<Rightarrow> a | Some j \<Rightarrow>
       case section_of j ''traffic_counters'' of Inl _ \<Rightarrow> a | Inr s1 \<Rightarrow>
       (let (ok1, d1) = restore_section counter_restore s1 (traffic_counters a);
            a1 = a\<lparr>traffic_counters := d1\<rparr>
        in if \<not> ok1 then a1 else
       case section_of j ''dst_ip_tables'' of Inl _ \<Rightarrow> a1 | Inr s2 \<Rightarrow>
       (let (ok2, d2) = restore_section table_restore s2 (dst_ip_tables a1);
            a2 = a1\<lparr>dst_ip_tables := d2\<rparr>
        in if \<not> ok2 then a2 else
       case section_of j ''dst_port_tables'' of Inl _ \<Rightarrow> a2 | Inr s3 \<Rightarrow>
       (let (ok3, d3) = restore_section table_restore s3 (dst_port_tables a2)
        in a2\<lparr>dst_port_tables := d3\<rparr>))))"

definition decay_ensure_initialized :: "json option \<Rightarrow> json \<Rightarrow> decay \<Rightarrow> decay res" where
  "decay_ensure_initialized saved cfg a =
     (if decay_initialized a then Inr a
      else
        bindE (jget_or cfg ''decay'' (JObj [])) (\<lambda>c.
        bindE (bindE (bindE (jget_or c ''half_lives_s'' (JArr [JInt 10, JInt 30, JInt 60])) jlist) (mapE jint))
        (\<lambda>hs.
        bindE (foldE add_half_life hs (a\<lparr>half_lives := hs\<rparr>)) (\<lambda>a1.
        Inr ((decay_restore_state saved a1)\<lparr>decay_initialized := True\<rparr>)))))"

definition decay_state_json :: "decay \<Rightarrow> json" where
  "decay_state_json a =
     JObj [(''traffic_counters'', JObj (map (\<lambda>(h, c). (int_str h, counter_snapshot c)) (traffic_counters a))),
           (''dst_ip_tables'', JObj (map (\<lambda>(h, t). (int_str h, table_snapshot t)) (dst_ip_tables a))),
           (''dst_port_tables'', JObj (map (\<lambda>(h, t). (int_str h, table_snapshot t)) (dst_port_tables a)))]"

definition rank_rows :: "string \<Rightarrow> string \<Rightarrow> (string \<times> real) list \<Rightarrow> top_key_row list" where
  "rank_rows ts ty scored =
     map (\<lambda>(i, key, s). \<lparr>tk_ts = ts, key_type = ty, tk_key = key, tk_score = py_round s 2, rank = i\<rparr>)
       (enumerate 1 scored)"

text \<open>
  One iteration of the loop over the half-lives, with the rows collected so far.
  \<open>ips\<close> and \<open>ports\<close> are the twenty largest groups of the batch and their sizes.
\<close>

definition decay_half_life ::
  "string \<Rightarrow> real \<Rightarrow> nat \<Rightarrow> real \<Rightarrow> (string option \<times> int) list \<Rightarrow> (int option \<times> int) list \<Rightarrow> int
     \<Rightarrow> decay \<times> traffic_row list \<times> top_key_row list
     \<Rightarrow> (decay \<times> traffic_row list \<times> top_key_row list) res" where
  "decay_half_life ts t n pps ips ports h s =
     (case s of (a, trs, tks) \<Rightarrow>
     bindE (dlookup (traffic_counters a) h) (\<lambda>c0.
     let c = counter_add (real n) t c0 in
     bindE (dlookup (dst_ip_tables a) h) (\<lambda>ip0.
     bindE (foldE (\<lambda>(ip, cnt) tb. case ip of
                None \<Rightarrow> Inr tb
              | Some k \<Rightarrow> if k = [] then Inr tb else table_add k (of_int cnt) t tb) ips ip0) (\<lambda>ip_tbl.
     bindE (dlookup (dst_port_tables a) h) (\<lambda>port0.
     bindE (foldE (\<lambda>(p, cnt) tb. case p of
                None \<Rightarrow> Inr tb
              | Some k \<Rightarrow> table_add (int_str k) (of_int cnt) t tb) ports port0) (\<lambda>port_tbl.
     Inr (a\<lparr>traffic_counters := dset h c (traffic_counters a),
            dst_ip_tables := dset h ip_tbl (dst_ip_tables a),
            dst_port_tables := dset h port_tbl (dst_port_tables a)\<rparr>,
          trs @ [\<lparr>tr_ts = ts, tr_half_life_s = h, tr_score = py_round (counter_value t c) 2, raw_pps = pps\<rparr>],
          tks @ rank_rows ts ''dst_ip'' (table_top_k 10 t ip_tbl)
              @ rank_rows ts ''dst_port'' (table_top_k 10 t port_tbl))))))))"

definition decay_process_batch ::
  "json option \<Rightarrow> json \<Rightarrow> string \<Rightarrow> real \<Rightarrow> nat \<Rightarrow> (string option \<times> int) list \<Rightarrow> (int option \<times> int) list
     \<Rightarrow> decay \<Rightarrow> (decay \<times> traffic_row list \<times> top_key_row list) res" where
  "decay_process_batch saved cfg ts t n ips ports a0 =
     bindE (decay_ensure_initialized saved cfg a0) (\<lambda>a.
     if n = 0 then Inr (a, [], [])
     else
       bindE (jget_or cfg ''spark'' (JObj [])) (\<lambda>spark_cfg.
       bindE (bindE (jget_or spark_cfg ''trigger_s'' (JInt 5)) jreal) (\<lambda>trigger_s.
       let pps = py_round (real n / max trigger_s 1) 2 in
       bindE (bindE (jget_or spark_cfg ''max_rows_per_batch'' (JInt 50000)) jint) (\<lambda>max_rows.
       foldE (decay_half_life ts t n pps ips ports) (half_lives a) (a, [], [])))))"

section \<open>Lazy decay computes the decayed sum\<close>

text \<open>The events a counter sees, each at the latest time seen so far, and their decayed sum.\<close>

fun effective :: "real \<Rightarrow> (real \<times> real) list \<Rightarrow> (real \<times> real) list" where
  "effective m [] = []"
| "effective m ((v, t) # es) = (v, max t m) # effective (max t m) es"

definition decayed :: "real \<Rightarrow> real \<Rightarrow> (real \<times> real) list \<Rightarrow> real" where
  "decayed h T es = sum_list (map (\<lambda>(v, t). v * 2 powr (- (T - t) / h)) es)"

definition counter_run :: "(real \<times> real) list \<Rightarrow> decay_counter \<Rightarrow> decay_counter" where
  "counter_run es c = fold (\<lambda>(v, t). counter_add v t) es c"

lemma decay_shift: "2 powr (- (T - m) / h) * 2 powr (- (m - l) / h) = 2 powr (- (T - l) / (h :: real))"
  by (simp add: powr_add [symmetric] add_divide_distrib [symmetric])

lemma decayed_shift: "decayed h T es = decayed h m es * 2 powr (- (T - m) / h)"
proof (induction es)
  case (Cons e es)
  obtain v t where e: "e = (v, t)" by (cases e)
  have cons: "decayed h u (e # es) = v * 2 powr (- (u - t) / h) + decayed h u es" for u
    by (simp add: decayed_def e)
  show ?case unfolding cons Cons.IH decay_shift [of T m h t, symmetric]
    by (simp only: distrib_right mult.assoc mult.commute [of "2 powr (- (T - m) / h)"])
qed (simp add: decayed_def)

lemma counter_add_max:
  "last_t c = Some l \<Longrightarrow> counter_add v t c
     = c\<lparr>score := score c * 2 powr (- (max t l - l) / half_life_s c) + v, last_t := Some (max t l)\<rparr>"
  by (auto simp: counter_add_def max_def)

lemma counter_run_score:
  assumes "last_t c = Some l" and "half_life_s c = h"
  shows "\<exists>M. counter_run es c = c\<lparr>score := score c * 2 powr (- (M - l) / h) + decayed h M (effective l es),
            last_t := Some M\<rparr> \<and> M = fold max (map snd es) l"
  using assms
proof (induction es arbitrary: c l)
  case Nil
  then show ?case by (simp add: counter_run_def decayed_def)
next
  case (Cons e es)
  obtain v t where e: "e = (v, t)" by (cases e)
  let ?m = "max t l"
  let ?c = "c\<lparr>score := score c * 2 powr (- (?m - l) / h) + v, last_t := Some ?m\<rparr>"
  let ?M = "fold max (map snd es) ?m"
  have run: "counter_run (e # es) c = counter_run es ?c"
    using counter_add_max [OF Cons.prems(1), of v t] Cons.prems(2) by (simp add: counter_run_def e)
  from Cons.IH [of ?c ?m] Cons.prems(2)
  have st: "counter_run es ?c = ?c\<lparr>score := score ?c * 2 powr (- (?M - ?m) / h) + decayed h ?M (effective ?m es),
            last_t := Some ?M\<rparr>" by auto
  have eq: "score ?c * 2 powr (- (?M - ?m) / h) + decayed h ?M (effective ?m es)
      = score c * 2 powr (- (?M - l) / h) + decayed h ?M (effective l (e # es))"
    using decay_shift [of ?M ?m h l] by (simp add: e decayed_def algebra_simps)
  show ?case unfolding run st eq by (simp add: e)
qed

lemma effective_sorted: "sorted (map snd ((w, m) # es)) \<Longrightarrow> effective m es = es"
  by (induction es arbitrary: w m) (auto simp: max_absorb1)

lemma fold_max_ge: "l \<le> fold max ts (l :: real)"
proof (induction ts arbitrary: l)
  case (Cons t ts)
  from Cons [of "max t l"] show ?case by simp
qed simp

text \<open>C24: lazy decay is exact.  Whatever events a new counter has been given (at least one), its value
  at time \<open>T\<close> is the sum of their values, each halved once per half-life since its time; an
  event that arrives late counts from the latest time seen before it, and a query before the last
  event is answered as of the last event.\<close>

theorem decay_counter_exact:
  assumes "counter_init h = Inr c0"
  shows "counter_value T (counter_run ((v, t) # es) c0)
         = decayed h (max T (fold max (map snd es) t)) (effective t ((v, t) # es))
    \<and> (sorted (map snd ((v, t) # es)) \<longrightarrow> effective t ((v, t) # es) = (v, t) # es)"
proof
  let ?m = "fold max (map snd es) t"
  from assms(1) have c0: "c0 = \<lparr>half_life_s = h, score = 0, last_t = None\<rparr>"
    by (auto simp: counter_init_def split: if_splits)
  let ?c = "\<lparr>half_life_s = h, score = v, last_t = Some t\<rparr>"
  have run: "counter_run ((v, t) # es) c0 = counter_run es ?c"
    by (simp add: counter_run_def c0 counter_add_def)
  from counter_run_score [of ?c t h es]
  have st: "counter_run es ?c = ?c\<lparr>score := v * 2 powr (- (?m - t) / h) + decayed h ?m (effective t es), last_t := Some ?m\<rparr>"
    by auto
  have all: "v * 2 powr (- (?m - t) / h) + decayed h ?m (effective t es) = decayed h ?m (effective t ((v, t) # es))"
    by (simp add: decayed_def)
  show "counter_value T (counter_run ((v, t) # es) c0) = decayed h (max T ?m) (effective t ((v, t) # es))"
  proof (cases "T \<le> ?m")
    case True
    then show ?thesis unfolding run st by (simp add: counter_value_def max_absorb2 decayed_def)
  next
    case False
    then have "counter_value T (counter_run es ?c)
        = (v * 2 powr (- (?m - t) / h) + decayed h ?m (effective t es)) * 2 powr (- (T - ?m) / h)"
      unfolding st by (simp add: counter_value_def)
    also have "\<dots> = decayed h T (effective t ((v, t) # es))"
      unfolding all by (rule decayed_shift [symmetric])
    finally show ?thesis using False unfolding run by (simp add: max_absorb1)
  qed
  show "sorted (map snd ((v, t) # es)) \<longrightarrow> effective t ((v, t) # es) = (v, t) # es"
    using effective_sorted [of v t es] by simp
qed

theorem decay_counter_exact_witness:
  "counter_value 20 (counter_run [(4, 0), (1, 10)] \<lparr>half_life_s = 10, score = 0, last_t = None\<rparr>)
   = decayed 10 20 [(4, 0), (1, 10)]"
  using decay_counter_exact [of 10 "\<lparr>half_life_s = 10, score = 0, last_t = None\<rparr>" 20 4 0 "[(1, 10)]"]
  by (simp add: counter_init_def)

section \<open>Key tables\<close>

text \<open>top keys.  \<open>top_k\<close> returns keys of the table with their values at that time, largest first,
  as many as asked for and available, and no key left out has a larger value than one returned.\<close>

theorem decay_top_k:
  assumes "wf_dict (counters tb)" and vals: "vals = map (\<lambda>(key, c). (key, counter_value t c)) (counters tb)"
    and best_def: "best = table_top_k (int k) t tb"
  shows "length best = min k (length (counters tb)) \<and> set best \<subseteq> set vals \<and> wf_dict best
    \<and> sorted (rev (map snd best)) \<and> (\<forall>x \<in> set best. \<forall>y \<in> set vals - set best. snd y \<le> snd x)"
proof -
  have best: "best = take k (sort_desc snd vals)" by (simp add: best_def table_top_k_def vals slice_to_def)
  have "dkeys vals = dkeys (counters tb)" by (simp add: vals case_prod_beta comp_def)
  then have "wf_dict vals" using assms(1) by simp
  then have "distinct vals" "inj_on fst (set vals)" by (simp_all add: distinct_map)
  then have "wf_dict (sort_desc snd vals)" by (simp add: distinct_map)
  then have wf: "wf_dict best" unfolding best take_map [symmetric] by (rule distinct_take)
  have "sorted (rev (map snd (sort_desc snd vals)))" by (rule sorted_sort_desc)
  then have srt: "sorted (rev (map snd best))"
    unfolding best sorted_wrt_rev take_map [symmetric] by (rule sorted_wrt_take)
  have split: "set vals = set best \<union> set (drop k (sort_desc snd vals))"
    unfolding best by (metis append_take_drop_id set_append set_sort_desc)
  have dom: "snd y \<le> snd x" if "x \<in> set best" "y \<in> set vals - set best" for x y
  proof -
    have "y \<in> set (drop k (sort_desc snd vals))"
      using that(2) unfolding split by (simp only: Diff_iff Un_iff) blast
    then show ?thesis using take_sort_desc_max [of x k snd vals y] that(1) unfolding best by simp
  qed
  have "length best = min k (length (counters tb))" by (simp add: best vals min.commute)
  moreover have "set best \<subseteq> set vals" unfolding split by simp
  ultimately show ?thesis using wf srt dom by blast
qed

definition example_table :: key_table where
  "example_table = \<lparr>kt_half_life_s = 10, epsilon = 1 / 10000, max_keys = 1,
     counters = [(''a'', \<lparr>half_life_s = 10, score = 1, last_t = Some 0\<rparr>),
                 (''b'', \<lparr>half_life_s = 10, score = 5, last_t = Some 0\<rparr>)]\<rparr>"

theorem decay_top_k_witness:
  "length (table_top_k (int 1) 0 example_table) = 1 \<and> sorted (rev (map snd (table_top_k (int 1) 0 example_table)))"
  using decay_top_k [OF _ refl refl, of example_table 1 0] by (simp add: example_table_def)

lemma table_prune_spec:
  assumes "wf_dict (counters tb)"
  shows "wf_dict (counters (table_prune t tb))"
    and "counters (table_prune t tb) = filter (\<lambda>(k, c). epsilon tb \<le> counter_value t c) (counters tb)"
proof -
  let ?dead = "map fst (filter (\<lambda>(k, c). counter_value t c < epsilon tb) (counters tb))"
  have "fst p \<notin> set ?dead \<longleftrightarrow> (case p of (k, c) \<Rightarrow> epsilon tb \<le> counter_value t c)" if p: "p \<in> set (counters tb)" for p
  proof -
    have "q = p" if "q \<in> set (counters tb)" "fst q = fst p" for q
      using assms p that by (metis eq_key_imp_eq_value prod.collapse)
    then have "fst p \<in> set ?dead \<longleftrightarrow> (case p of (k, c) \<Rightarrow> counter_value t c < epsilon tb)"
      using p by (force simp: case_prod_beta)
    then show ?thesis by (auto simp: not_less split: prod.splits)
  qed
  then show eq: "counters (table_prune t tb) = filter (\<lambda>(k, c). epsilon tb \<le> counter_value t c) (counters tb)"
    by (simp add: table_prune_def Let_def ddel_all cong: filter_cong)
  show "wf_dict (counters (table_prune t tb))"
    unfolding eq by (rule distinct_map_filter [OF assms])
qed

text \<open>the size of a key table.  After an \<open>add\<close> a table holds more than \<open>max_keys\<close> keys only if every
  key it holds has a value of at least \<open>epsilon\<close>; keys are unique throughout.\<close>

theorem decay_table_size:
  assumes "wf_dict (counters tb)" and "table_add key v t tb = Inr tb'"
    and "max_keys tb < int (length (counters tb'))"
  shows "wf_dict (counters tb') \<and> (\<forall>p \<in> set (counters tb'). epsilon tb \<le> counter_value t (snd p))
    \<and> epsilon tb * real (length (counters tb')) \<le> sum_list (map (\<lambda>p. counter_value t (snd p)) (counters tb'))"
proof -
  from assms(2) obtain c where "(let tb1 = tb\<lparr>counters := dset key (counter_add v t c) (counters tb)\<rparr>
      in Inr (if int (length (counters tb1)) > max_keys tb1 then table_prune t tb1 else tb1)) = (Inr tb' :: key_table res)"
    unfolding table_add_def bindE_Inr_iff by (elim exE conjE) assumption
  then have tb': "tb' = (let tb1 = tb\<lparr>counters := dset key (counter_add v t c) (counters tb)\<rparr>
      in if int (length (counters tb1)) > max_keys tb1 then table_prune t tb1 else tb1)"
    by (simp add: Let_def)
  let ?tb1 = "tb\<lparr>counters := dset key (counter_add v t c) (counters tb)\<rparr>"
  have wf1: "wf_dict (counters ?tb1)" using assms(1) by simp
  have pr: "tb' = table_prune t ?tb1" using tb' assms(3) by (auto simp: Let_def split: if_splits)
  have all: "\<forall>p \<in> set (counters tb'). epsilon tb \<le> counter_value t (snd p)"
    unfolding pr table_prune_spec(2) [OF wf1] by auto
  have "epsilon tb * real (length ps) \<le> sum_list (map (\<lambda>p. counter_value t (snd p)) ps)"
    if "\<forall>p \<in> set ps. epsilon tb \<le> counter_value t (snd p)" for ps :: "(string \<times> decay_counter) list"
    using that by (induction ps) (auto simp: algebra_simps)
  with all table_prune_spec(1) [OF wf1, of t] show ?thesis by (simp add: pr)
qed

theorem decay_table_size_witness:
  "\<exists>tb'. table_add ''c'' 1 0 example_table = Inr tb' \<and> max_keys example_table < int (length (counters tb'))
    \<and> (\<forall>p \<in> set (counters tb'). epsilon example_table \<le> counter_value 0 (snd p))"
proof -
  let ?tb = "example_table\<lparr>counters := counters example_table @ [(''c'', \<lparr>half_life_s = 10, score = 1, last_t = Some 0\<rparr>)]\<rparr>"
  have run: "table_add ''c'' 1 0 example_table = Inr ?tb"
    by (simp add: table_add_def example_table_def counter_init_def counter_add_def Let_def table_prune_def
        counter_value_def)
  have len: "max_keys example_table < int (length (counters ?tb))" by (simp add: example_table_def)
  have "wf_dict (counters example_table)" by (simp add: example_table_def)
  from decay_table_size [OF this run len] run len show ?thesis by blast
qed

text \<open>\<open>max_keys\<close> is not a bound.  Keys that arrive at the same time with a value of at least
  \<open>epsilon\<close> are all kept, however many they are.\<close>

theorem decay_table_unbounded:
  assumes "0 < h" and "1 / 10000 \<le> v" and "distinct ks"
  shows "\<exists>tb. foldE (\<lambda>k. table_add k v t) ks (table_init h) = Inr tb \<and> max_keys tb = 1000
    \<and> length (counters tb) = length ks"
proof -
  let ?c = "\<lparr>half_life_s = h, score = v, last_t = Some t\<rparr>"
  have step: "table_add k v t ((table_init h)\<lparr>counters := map (\<lambda>k. (k, ?c)) ys\<rparr>)
      = Inr ((table_init h)\<lparr>counters := map (\<lambda>k. (k, ?c)) (ys @ [k])\<rparr>)" if "k \<notin> set ys" for k ys
  proof -
    let ?tb = "(table_init h)\<lparr>counters := map (\<lambda>k. (k, ?c)) ys\<rparr>"
    have "dkeys (map (\<lambda>k. (k, ?c)) ys) = ys" by (induction ys) auto
    then have keys: "k \<notin> set (dkeys (map (\<lambda>k. (k, ?c)) ys))" by (rule ssubst) (rule that)
    have ct: "counters ?tb = map (\<lambda>k. (k, ?c)) ys" by simp
    have none: "dget (counters ?tb) k = None" unfolding ct dget_None_iff by (rule keys)
    have new: "dset k ?c (counters ?tb) = map (\<lambda>k. (k, ?c)) (ys @ [k])" using dset_new [OF keys] by simp
    have init: "counter_init h = Inr \<lparr>half_life_s = h, score = 0, last_t = None\<rparr>"
      using assms(1) by (simp add: counter_init_def)
    have add: "counter_add v t \<lparr>half_life_s = h, score = 0, last_t = None\<rparr> = ?c"
      by (simp add: counter_add_def)
    have keep: "table_prune t (?tb\<lparr>counters := map (\<lambda>k. (k, ?c)) zs\<rparr>) = ?tb\<lparr>counters := map (\<lambda>k. (k, ?c)) zs\<rparr>" for zs
    proof -
      have "filter (\<lambda>(k, c). counter_value t c < epsilon ?tb) (map (\<lambda>k. (k, ?c)) zs) = []"
        using assms(2) by (auto simp: filter_empty_conv counter_value_def table_init_def)
      then show ?thesis by (simp add: table_prune_def)
    qed
    have "kt_half_life_s ?tb = h" by (simp add: table_init_def)
    with none init add new keep [of "ys @ [k]"] show ?thesis
      by (simp add: table_add_def Let_def del: map_append)
  qed
  have "distinct (ys @ ks) \<Longrightarrow> foldE (\<lambda>k. table_add k v t) ks ((table_init h)\<lparr>counters := map (\<lambda>k. (k, ?c)) ys\<rparr>)
      = Inr ((table_init h)\<lparr>counters := map (\<lambda>k. (k, ?c)) (ys @ ks)\<rparr>)" for ys
  proof (induction ks arbitrary: ys)
    case (Cons k ks)
    then show ?case using step [of k ys] Cons.IH [of "ys @ [k]"] by simp
  qed simp
  from this [of "[]"] assms(3) show ?thesis by (simp add: table_init_def)
qed

theorem decay_table_unbounded_witness:
  "\<exists>tb. foldE (\<lambda>k. table_add k 1 0) (map (\<lambda>i. replicate i CHR ''x'') [0..<1001]) (table_init 10) = Inr tb
    \<and> length (counters tb) = 1001"
proof -
  have "distinct (map (\<lambda>i. replicate i CHR ''x'') [0..<1001])"
    unfolding distinct_map by (auto simp: inj_on_def dest: arg_cong [of _ _ length] simp del: upt_rec_numeral)
  from decay_table_unbounded [OF _ _ this, of 10 1 0] show ?thesis by (auto simp del: upt_rec_numeral)
qed

section \<open>Rows of several half-lives share a key\<close>

text \<open>primary key collisions.  With two half-lives a batch writes two rows for the same
  \<open>(ts, key_type, key)\<close>, the key of the table \<open>decay_top_keys\<close>; the later upsert replaces the
  earlier one, so the stored scores are those of the last half-life.\<close>

theorem decay_rows_collide:
  "\<exists>a trs tks. decay_process_batch None (JObj [(''decay'', JObj [(''half_lives_s'', JArr [JInt 10, JInt 60])])])
      ''t'' 0 3 [(Some ''10.0.0.1'', 3)] [] decay_new = Inr (a, trs, tks)
    \<and> map (\<lambda>r. (tk_ts r, key_type r, tk_key r)) tks
      = [(''t'', ''dst_ip'', ''10.0.0.1''), (''t'', ''dst_ip'', ''10.0.0.1'')]
    \<and> map tr_half_life_s trs = [10, 60]"
  by (simp add: decay_process_batch_def decay_ensure_initialized_def decay_new_def dget_or_def
      add_half_life_def counter_init_def table_init_def decay_restore_state_def decay_half_life_def
      dlookup_def counter_add_def counter_value_def table_add_def table_top_k_def rank_rows_def
      slice_to_def sort_desc_def Let_def)

section \<open>Restart\<close>

lemma counter_restore_snapshot: "counter_restore (counter_snapshot c) c' = Inr c"
  by (cases "last_t c") (simp_all add: counter_restore_def counter_snapshot_def dlookup_def dget_or_def)

definition table_ok :: "key_table \<Rightarrow> bool" where
  "table_ok tb \<longleftrightarrow> 0 < kt_half_life_s tb \<and> wf_dict (counters tb)"

lemma restore_counters:
  assumes "0 < kt_half_life_s tb" and "distinct (dkeys (counters tb) @ dkeys cs)"
  shows "foldE restore_counter (map (\<lambda>(k, c). (k, counter_snapshot c)) cs) tb
    = Inr (tb\<lparr>counters := counters tb @ cs\<rparr>)"
  using assms
proof (induction cs arbitrary: tb)
  case (Cons x cs)
  obtain k c where x: "x = (k, c)" by (cases x)
  have "dset k c (counters tb) = counters tb @ [(k, c)]"
    using Cons.prems x by (intro dset_new) auto
  then have "restore_counter (k, counter_snapshot c) tb = Inr (tb\<lparr>counters := counters tb @ [(k, c)]\<rparr>)"
    using Cons.prems by (simp add: restore_counter_def counter_init_def counter_restore_snapshot)
  with Cons.IH [of "tb\<lparr>counters := counters tb @ [(k, c)]\<rparr>"] Cons.prems x show ?case by simp
qed simp

lemma table_restore_snapshot: "table_ok tb \<Longrightarrow> table_restore (table_snapshot tb) tb' = Inr tb"
  using restore_counters [of "tb'\<lparr>kt_half_life_s := kt_half_life_s tb, epsilon := epsilon tb,
      max_keys := max_keys tb, counters := []\<rparr>" "counters tb"]
  by (simp add: table_restore_def table_snapshot_def dlookup_def dget_or_def table_ok_def)

definition table_step :: "string \<times> real \<times> real \<Rightarrow> key_table \<Rightarrow> key_table" where
  "table_step i tb =
     (case i of (k, v, t) \<Rightarrow> case table_add k v t tb of Inr tb' \<Rightarrow> tb' | Inl _ \<Rightarrow> tb)"

interpretation table_cp: checkpointed table_step table_snapshot table_restore table_ok
proof unfold_locales
  fix s and i :: "string \<times> real \<times> real" assume s: "table_ok s"
  obtain k v t where i: "i = (k, v, t)" by (metis prod.exhaust)
  have "table_ok tb'" if "table_add k v t s = Inr tb'" for tb'
    using that s table_prune_spec(1)
    by (auto simp: table_add_def table_ok_def Let_def res_simps table_prune_def ddel_all
        intro!: distinct_map_filter split: option.splits if_splits)
  then show "table_ok (table_step i s)" using s by (simp add: table_step_def i split: sum.split)
qed (rule table_restore_snapshot)

lemma section_roundtrip:
  assumes "\<And>h c c'. (h, c) \<in> set cs \<Longrightarrow> rest (snap c) c' = Inr c"
    and "set (dkeys cs) \<subseteq> set (dkeys d)" and "wf_dict cs"
  shows "\<exists>d'. restore_section rest (map (\<lambda>(h, c). (int_str h, snap c)) cs) d = (True, d')
    \<and> dkeys d' = dkeys d
    \<and> (\<forall>h. dget d' h = (case dget cs h of Some c \<Rightarrow> Some c | None \<Rightarrow> dget d h))"
  using assms
proof (induction cs arbitrary: d)
  case (Cons x cs)
  obtain h c where x: "x = (h, c)" by (cases x)
  have hd: "h \<in> set (dkeys d)" using Cons.prems(2) x by auto
  then obtain c0 where c0: "dget d h = Some c0" using dget_None_iff [of d h] by auto
  have r: "rest (snap c) c0 = Inr c" by (rule Cons.prems(1) [of h]) (simp add: x)
  have keys: "dkeys (dset h c d) = dkeys d" unfolding dkeys_dset_list using hd by simp
  have "\<exists>d'. restore_section rest (map (\<lambda>(h, c). (int_str h, snap c)) cs) (dset h c d) = (True, d')
    \<and> dkeys d' = dkeys (dset h c d)
    \<and> (\<forall>k. dget d' k = (case dget cs k of Some c \<Rightarrow> Some c | None \<Rightarrow> dget (dset h c d) k))"
    using Cons.prems keys x by (intro Cons.IH) auto
  moreover have "dget cs h = None" using Cons.prems(3) x by (simp add: map_of_eq_None_iff)
  ultimately show ?case
    using keys by (fastforce simp: x py_int_str c0 r split: option.splits)
qed simp

definition decay_ok :: "decay \<Rightarrow> bool" where
  "decay_ok a \<longleftrightarrow> wf_dict (traffic_counters a) \<and> wf_dict (dst_ip_tables a) \<and> wf_dict (dst_port_tables a)
     \<and> (\<forall>t \<in> snd ` set (dst_ip_tables a). table_ok t) \<and> (\<forall>t \<in> snd ` set (dst_port_tables a). table_ok t)"

text \<open>restart.  A plugin that was set up with the same half-lives and restores the state file
  written by another one has its counters and tables.\<close>

theorem decay_restart:
  assumes "decay_ok a" and "dkeys (traffic_counters b) = dkeys (traffic_counters a)"
    and "dkeys (dst_ip_tables b) = dkeys (dst_ip_tables a)"
    and "dkeys (dst_port_tables b) = dkeys (dst_port_tables a)"
  defines "b' \<equiv> decay_restore_state (Some (decay_state_json a)) b"
  shows "dget (traffic_counters b') = dget (traffic_counters a)
    \<and> dget (dst_ip_tables b') = dget (dst_ip_tables a) \<and> dget (dst_port_tables b') = dget (dst_port_tables a)
    \<and> half_lives b' = half_lives b"
proof -
  have none: "dget e h = None" if "dget d h = None" "dkeys e = dkeys d" for d :: "(int, 'v) dict" and e :: "(int, 'v) dict" and h
    using that dget_None_iff [of d h] dget_None_iff [of e h] by metis
  have look: "dget d' = dget d" if "\<forall>h. dget d' h = (case dget d h of Some c \<Rightarrow> Some c | None \<Rightarrow> dget e h)"
    "dkeys e = dkeys d" for d d' e :: "(int, 'v) dict"
  proof
    fix h
    show "dget d' h = dget d h"
      using that(1) none [of d h e] that(2) by (cases "dget d h") auto
  qed
  obtain d1 where d1: "restore_section counter_restore
      (map (\<lambda>(h, c). (int_str h, counter_snapshot c)) (traffic_counters a)) (traffic_counters b) = (True, d1)"
    "\<forall>h. dget d1 h = (case dget (traffic_counters a) h of Some c \<Rightarrow> Some c | None \<Rightarrow> dget (traffic_counters b) h)"
    using section_roundtrip [of "traffic_counters a" counter_restore counter_snapshot "traffic_counters b"]
      assms by (auto simp: counter_restore_snapshot decay_ok_def)
  obtain d2 where d2: "restore_section table_restore
      (map (\<lambda>(h, c). (int_str h, table_snapshot c)) (dst_ip_tables a)) (dst_ip_tables b) = (True, d2)"
    "\<forall>h. dget d2 h = (case dget (dst_ip_tables a) h of Some c \<Rightarrow> Some c | None \<Rightarrow> dget (dst_ip_tables b) h)"
    using section_roundtrip [of "dst_ip_tables a" table_restore table_snapshot "dst_ip_tables b"]
      assms by (force simp: table_restore_snapshot decay_ok_def)
  obtain d3 where d3: "restore_section table_restore
      (map (\<lambda>(h, c). (int_str h, table_snapshot c)) (dst_port_tables a)) (dst_port_tables b) = (True, d3)"
    "\<forall>h. dget d3 h = (case dget (dst_port_tables a) h of Some c \<Rightarrow> Some c | None \<Rightarrow> dget (dst_port_tables b) h)"
    using section_roundtrip [of "dst_port_tables a" table_restore table_snapshot "dst_port_tables b"]
      assms by (force simp: table_restore_snapshot decay_ok_def)
  have "b' = b\<lparr>traffic_counters := d1, dst_ip_tables := d2, dst_port_tables := d3\<rparr>"
    by (simp add: b'_def decay_restore_state_def decay_state_json_def section_of_def dget_or_def d1(1) d2(1) d3(1))
  with look [OF d1(2)] look [OF d2(2)] look [OF d3(2)] assms(2-4) show ?thesis by simp
qed

definition example_decay :: decay where
  "example_decay = \<lparr>half_lives = [10], traffic_counters = [(10, \<lparr>half_life_s = 10, score = 3, last_t = Some 7\<rparr>)],
     dst_ip_tables = [(10, example_table)], dst_port_tables = [(10, table_init 10)], decay_initialized = True\<rparr>"

theorem decay_restart_witness:
  "dget (dst_ip_tables (decay_restore_state (Some (decay_state_json example_decay))
      (example_decay\<lparr>dst_ip_tables := [(10, table_init 10)]\<rparr>))) = dget (dst_ip_tables example_decay)"
  using decay_restart [of example_decay "example_decay\<lparr>dst_ip_tables := [(10, table_init 10)]\<rparr>"]
  by (simp add: decay_ok_def table_ok_def example_decay_def example_table_def table_init_def)

end
