(* ===== verification/Alerts.thy ===== *)
theory Alerts
  imports Pytext
begin

text \<open>
  The alert engine (\<open>linkanalysis/alerts.py\<close>) and its polling worker
  (\<open>linkanalysis/alerts_worker.py\<close>).

  Parameters: \<open>clock n\<close> is the result of the \<open>n\<close>-th call of \<open>time.time()\<close> and
  \<open>uuid n\<close> of the \<open>n\<close>-th \<open>uuid4()\<close> (the state counts the calls), \<open>fmt1\<close> is the
  format \<open>.1f\<close>, \<open>dumps\<close> is \<open>json.dumps\<close>, and \<open>iter\<close> the iteration order of a set
  of addresses. An operation that may raise returns its result together with the state, since
  the engine keeps what it assigned before the exception.
\<close>

section \<open>State\<close>

record alert_config =
  ewma_alpha :: real
  warmup_windows :: int
  warn_multiplier :: real
  critical_multiplier :: real
  min_pps :: int
  max_distinct_dst_ports :: int
  max_distinct_dst_ips :: int
  cooldown_seconds :: real
  min_window_packets :: int

definition default_alert_config :: alert_config where
  "default_alert_config = \<lparr>ewma_alpha = 1 / 10, warmup_windows = 30, warn_multiplier = 3,
     critical_multiplier = 6, min_pps = 50, max_distinct_dst_ports = 20, max_distinct_dst_ips = 30,
     cooldown_seconds = 60, min_window_packets = 10\<rparr>"

text \<open>\<open>None\<close> is a missing file; an empty file parses to a falsy value.\<close>

definition load_alert_config :: "json option \<Rightarrow> alert_config res" where
  "load_alert_config file =
     (case file of
        None \<Rightarrow> Inr default_alert_config
      | Some j \<Rightarrow>
          let d = (if jtruthy j then j else JObj []) in
          bindE (jget_or d ''traffic_spike'' (JObj [])) (\<lambda>sp.
          bindE (jget_or d ''unusual_port_activity'' (JObj [])) (\<lambda>po.
          bindE (jget_or d ''high_fanout'' (JObj [])) (\<lambda>fa.
          bindE (bindE (jget_or sp ''ewma_alpha'' (JReal (1 / 10))) jreal) (\<lambda>al.
          bindE (bindE (jget_or sp ''warmup_windows'' (JInt 30)) jint) (\<lambda>wu.
          bindE (bindE (jget_or sp ''warn_multiplier'' (JReal 3)) jreal) (\<lambda>wm.
          bindE (bindE (jget_or sp ''critical_multiplier'' (JReal 6)) jreal) (\<lambda>cm.
          bindE (bindE (jget_or sp ''min_pps'' (JInt 50)) jint) (\<lambda>mp.
          bindE (bindE (jget_or po ''max_distinct_dst_ports'' (JInt 20)) jint) (\<lambda>pp.
          bindE (bindE (jget_or fa ''max_distinct_dst_ips'' (JInt 30)) jint) (\<lambda>ff.
          bindE (bindE (jget_or d ''cooldown_seconds'' (JInt 60)) jreal) (\<lambda>cs.
          bindE (bindE (jget_or d ''min_window_packets'' (JInt 10)) jint) (\<lambda>mw.
          Inr \<lparr>ewma_alpha = al, warmup_windows = wu, warn_multiplier = wm, critical_multiplier = cm,
               min_pps = mp, max_distinct_dst_ports = pp, max_distinct_dst_ips = ff,
               cooldown_seconds = cs, min_window_packets = mw\<rparr>)))))))))))))"

record alert_state =
  ewma_baselines :: "(string, real) dict"
  ewma_counts :: "(string, int) dict"
  cooldowns :: "(string \<times> string, real) dict"
  clock_calls :: nat
  uuid_calls :: nat

definition alert_state_new :: alert_state where
  "alert_state_new = \<lparr>ewma_baselines = [], ewma_counts = [], cooldowns = [], clock_calls = 0, uuid_calls = 0\<rparr>"

record alert =
  alert_id :: string
  al_ts :: string
  al_type :: string
  severity :: string
  al_src_ip :: string
  metric :: string
  current_value :: real
  baseline_value :: real
  change_pct :: real
  threshold :: real
  reason :: string
  details_json :: string

section \<open>Cooldowns\<close>

definition in_cooldown :: "(nat \<Rightarrow> real) \<Rightarrow> alert_config \<Rightarrow> string \<times> string \<Rightarrow> alert_state \<Rightarrow> bool \<times> alert_state" where
  "in_cooldown clock cfg key st =
     (case dget (cooldowns st) key of
        None \<Rightarrow> (False, st)
      | Some t \<Rightarrow> (clock (clock_calls st) - t < cooldown_seconds cfg,
                      st\<lparr>clock_calls := clock_calls st + 1\<rparr>))"

definition set_cooldown :: "(nat \<Rightarrow> real) \<Rightarrow> string \<times> string \<Rightarrow> alert_state \<Rightarrow> alert_state" where
  "set_cooldown clock key st =
     st\<lparr>cooldowns := dset key (clock (clock_calls st)) (cooldowns st), clock_calls := clock_calls st + 1\<rparr>"

definition next_uuid :: "alert_state \<Rightarrow> alert_state" where
  "next_uuid st = st\<lparr>uuid_calls := uuid_calls st + 1\<rparr>"

section \<open>The checks\<close>

definition set_ewma :: "string \<Rightarrow> real \<Rightarrow> int \<Rightarrow> alert_state \<Rightarrow> alert_state" where
  "set_ewma m b n st =
     st\<lparr>ewma_baselines := dset m b (ewma_baselines st), ewma_counts := dset m n (ewma_counts st)\<rparr>"

definition spike_alert ::
  "(nat \<Rightarrow> string) \<Rightarrow> (real \<Rightarrow> string) \<Rightarrow> (json \<Rightarrow> string) \<Rightarrow> alert_config \<Rightarrow> string \<Rightarrow> real \<Rightarrow> string
     \<Rightarrow> real \<Rightarrow> real \<Rightarrow> real \<Rightarrow> int \<Rightarrow> alert_state \<Rightarrow> alert" where
  "spike_alert uuid fmt1 dumps cfg window_start pps sev thr new_baseline pct count st =
     \<lparr>alert_id = uuid (uuid_calls st), al_ts = window_start, al_type = ''TRAFFIC_SPIKE'', severity = sev,
      al_src_ip = ''global'', metric = ''pps'', current_value = py_round pps 2,
      baseline_value = py_round new_baseline 2, change_pct = py_round pct 1, threshold = py_round thr 2,
      reason = ''Traffic spike detected: '' @ fmt1 pps @ '' pps is '' @ fmt1 pct @ ''% above EWMA baseline of ''
        @ fmt1 new_baseline @ '' pps (threshold: '' @ fmt1 thr @ '' pps, '' @ lower sev @ '')'',
      details_json = dumps (JObj [(''ewma_alpha'', JReal (ewma_alpha cfg)),
        (''warmup_windows'', JInt (warmup_windows cfg)), (''window_count'', JInt (count + 1))])\<rparr>"

definition check_traffic_spike ::
  "(nat \<Rightarrow> real) \<Rightarrow> (nat \<Rightarrow> string) \<Rightarrow> (real \<Rightarrow> string) \<Rightarrow> (json \<Rightarrow> string) \<Rightarrow> alert_config \<Rightarrow> string \<Rightarrow> real
     \<Rightarrow> alert_state \<Rightarrow> alert option \<times> alert_state" where
  "check_traffic_spike clock uuid fmt1 dumps cfg window_start pps st =
     (let m = ''global_pps''; alpha = ewma_alpha cfg
      in if pps < of_int (min_pps cfg) then (None, st)
      else
        let count = dget_or (ewma_counts st) m 0;
            st0 = st\<lparr>ewma_counts := dset m count (ewma_counts st)\<rparr>
        in case dget (ewma_baselines st) m of
          None \<Rightarrow> (None, set_ewma m pps 1 st0)
        | Some baseline \<Rightarrow>
          let new_baseline = alpha * pps + (1 - alpha) * baseline;
              st1 = set_ewma m new_baseline (count + 1) st0
          in if count + 1 < warmup_windows cfg then (None, st1)
          else
            let warn_threshold = warn_multiplier cfg * baseline;
                critical_threshold = critical_multiplier cfg * baseline
            in if \<not> pps \<ge> critical_threshold \<and> \<not> pps \<ge> warn_threshold then (None, st1)
            else
              let (sev, thr) = (if pps \<ge> critical_threshold then (''CRITICAL'', critical_threshold)
                                else (''WARN'', warn_threshold));
                  pct = (if baseline > 0 then (pps - baseline) / baseline * 100 else 0);
                  key = (''TRAFFIC_SPIKE'', ''global'');
                  (cool, st2) = in_cooldown clock cfg key st1
              in if cool then (None, st2)
                 else (Some (spike_alert uuid fmt1 dumps cfg window_start pps sev thr new_baseline pct count st2),
                       set_cooldown clock key (next_uuid st2)))"

text \<open>
  The two per-source checks differ in their type, metric, limit and text. A limit of 0
  divides by zero after \<open>uuid4()\<close> was called.
\<close>

definition check_count ::
  "(nat \<Rightarrow> real) \<Rightarrow> (nat \<Rightarrow> string) \<Rightarrow> (json \<Rightarrow> string) \<Rightarrow> alert_config \<Rightarrow> string \<Rightarrow> string \<Rightarrow> string \<Rightarrow> string
     \<Rightarrow> int \<Rightarrow> string \<Rightarrow> int \<Rightarrow> alert_state \<Rightarrow> alert option res \<times> alert_state" where
  "check_count clock uuid dumps cfg ty m ws text limit src n st =
     (if n \<le> limit then (Inr None, st)
      else
        let key = (ty, src); (cool, st1) = in_cooldown clock cfg key st
        in if cool then (Inr None, st1)
           else if limit = 0 then (Inl ZeroDivisionError, next_uuid st1)
           else (Inr (Some \<lparr>alert_id = uuid (uuid_calls st1), al_ts = ws, al_type = ty, severity = ''WARN'',
                   al_src_ip = src, metric = m, current_value = of_int n, baseline_value = of_int limit,
                   change_pct = py_round (of_int (n - limit) / of_int limit * 100) 1, threshold = of_int limit,
                   reason = ''Source '' @ src @ text, details_json = dumps (JObj [(''max_allowed'', JInt limit)])\<rparr>),
                 set_cooldown clock key (next_uuid st1)))"

definition check_unusual_port_activity ::
  "(nat \<Rightarrow> real) \<Rightarrow> (nat \<Rightarrow> string) \<Rightarrow> (json \<Rightarrow> string) \<Rightarrow> alert_config \<Rightarrow> string \<Rightarrow> string \<Rightarrow> int
     \<Rightarrow> alert_state \<Rightarrow> alert option res \<times> alert_state" where
  "check_unusual_port_activity clock uuid dumps cfg window_start src n =
     check_count clock uuid dumps cfg ''UNUSUAL_PORT_ACTIVITY'' ''distinct_dst_ports'' window_start
       ('' accessed '' @ int_str n @ '' distinct destination ports (threshold: ''
          @ int_str (max_distinct_dst_ports cfg) @ ''). Possible port scanning or service enumeration.'')
       (max_distinct_dst_ports cfg) src n"

definition check_high_fanout ::
  "(nat \<Rightarrow> real) \<Rightarrow> (nat \<Rightarrow> string) \<Rightarrow> (json \<Rightarrow> string) \<Rightarrow> alert_config \<Rightarrow> string \<Rightarrow> string \<Rightarrow> int
     \<Rightarrow> alert_state \<Rightarrow> alert option res \<times> alert_state" where
  "check_high_fanout clock uuid dumps cfg window_start src n =
     check_count clock uuid dumps cfg ''HIGH_FANOUT'' ''distinct_dst_ips'' window_start
       ('' communicated with '' @ int_str n @ '' distinct destination IPs (threshold: ''
          @ int_str (max_distinct_dst_ips cfg) @ ''). Possible lateral movement or distributed scanning.'')
       (max_distinct_dst_ips cfg) src n"

fun opt_list :: "'a option \<Rightarrow> 'a list" where
  "opt_list None = []"
| "opt_list (Some x) = [x]"

text \<open>The loop over the sources, with the alerts collected so far.\<close>

fun source_loop ::
  "(nat \<Rightarrow> real) \<Rightarrow> (nat \<Rightarrow> string) \<Rightarrow> (json \<Rightarrow> string) \<Rightarrow> alert_config \<Rightarrow> string \<Rightarrow> (string, int) dict
     \<Rightarrow> (string, int) dict \<Rightarrow> (string, int) dict \<Rightarrow> string list \<Rightarrow> alert list \<Rightarrow> alert_state
     \<Rightarrow> alert list res \<times> alert_state" where
  "source_loop clock uuid dumps cfg ws ports ips pkts [] acc st = (Inr acc, st)"
| "source_loop clock uuid dumps cfg ws ports ips pkts (src # srcs) acc st =
     (if dget_or pkts src (min_window_packets cfg + 1) < min_window_packets cfg
      then source_loop clock uuid dumps cfg ws ports ips pkts srcs acc st
      else case check_unusual_port_activity clock uuid dumps cfg ws src (dget_or ports src 0) st of
             (Inl e, st1) \<Rightarrow> (Inl e, st1)
           | (Inr a1, st1) \<Rightarrow>
             (case check_high_fanout clock uuid dumps cfg ws src (dget_or ips src 0) st1 of
                (Inl e, st2) \<Rightarrow> (Inl e, st2)
              | (Inr a2, st2) \<Rightarrow>
                  source_loop clock uuid dumps cfg ws ports ips pkts srcs
                    (acc @ opt_list a1 @ opt_list a2) st2))"

text \<open>
  \<open>evaluate_window\<close>: the argument \<open>pps\<close> is a number, or (a second calling convention) a
  dictionary of packet counts, when the rate is passed in the place of the window length.
\<close>

datatype pps_arg = Pps real | Packet_Counts "(string, int) dict"

definition engine_evaluate ::
  "(nat \<Rightarrow> real) \<Rightarrow> (nat \<Rightarrow> string) \<Rightarrow> (real \<Rightarrow> string) \<Rightarrow> (json \<Rightarrow> string) \<Rightarrow> (string set \<Rightarrow> string list)
     \<Rightarrow> alert_config \<Rightarrow> string \<Rightarrow> real \<Rightarrow> pps_arg \<Rightarrow> (string, int) dict \<Rightarrow> (string, int) dict
     \<Rightarrow> (string, int) dict \<Rightarrow> alert_state \<Rightarrow> alert list res \<times> alert_state" where
  "engine_evaluate clock uuid fmt1 dumps iter cfg ws window_len pps_arg ports ips pkts0 st =
     (let (pps, pkts) = (case pps_arg of Packet_Counts d \<Rightarrow> (window_len, d) | Pps p \<Rightarrow> (p, pkts0));
          (spike, st1) = check_traffic_spike clock uuid fmt1 dumps cfg ws pps st;
          srcs = iter (set (dkeys pkts) \<union> set (dkeys ports) \<union> set (dkeys ips))
      in source_loop clock uuid dumps cfg ws ports ips pkts srcs (opt_list spike) st1)"

section \<open>Persistence\<close>

text \<open>\<open>k.split("|", 1)\<close>; \<open>None\<close> is a string without the separator.\<close>

fun split_once :: "char \<Rightarrow> string \<Rightarrow> (string \<times> string) option" where
  "split_once c [] = None"
| "split_once c (x # xs) =
     (if x = c then Some ([], xs) else map_option (\<lambda>(a, b). (x # a, b)) (split_once c xs))"

definition cooldown_key_str :: "string \<times> string \<Rightarrow> string" where
  "cooldown_key_str k = fst k @ ''|'' @ snd k"

definition alert_snapshot :: "alert_state \<Rightarrow> json" where
  "alert_snapshot st =
     JObj [(''ewma_baselines'', JObj (map (\<lambda>(k, v). (k, JReal v)) (ewma_baselines st))),
           (''ewma_counts'', JObj (map (\<lambda>(k, v). (k, JInt v)) (ewma_counts st))),
           (''cooldowns'', JObj (dict_of (map (\<lambda>(k, v). (cooldown_key_str k, JReal v)) (cooldowns st))))]"

text \<open>
  A cooldown key without a separator would become a one-element tuple; it is an error here.
  The clock and uuid counters belong to the process that restores.
\<close>

definition alert_restore :: "json \<Rightarrow> alert_state \<Rightarrow> alert_state res" where
  "alert_restore j st =
     bindE (bindE (bindE (jget_or j ''ewma_baselines'' (JObj [])) jitems)
              (mapE (\<lambda>(k, v). bindE (jreal v) (\<lambda>x. Inr (k, x))))) (\<lambda>bs.
     bindE (bindE (bindE (jget_or j ''ewma_counts'' (JObj [])) jitems)
              (mapE (\<lambda>(k, v). bindE (jint v) (\<lambda>x. Inr (k, x))))) (\<lambda>cs.
     bindE (bindE (bindE (jget_or j ''cooldowns'' (JObj [])) jitems)
              (mapE (\<lambda>(k, v). case split_once (CHR ''|'') k of
                  None \<Rightarrow> Inl ValueError
                | Some key \<Rightarrow> bindE (jreal v) (\<lambda>x. Inr (key, x))))) (\<lambda>ds.
     Inr (st\<lparr>ewma_baselines := bs, ewma_counts := cs,
             cooldowns := dict_of ds\<rparr>))))"

section \<open>The worker\<close>

record source_row =
  sr_src_ip :: string
  sr_packets :: int
  sr_ports :: int
  sr_ips :: int

text \<open>
  The counts that the worker reads for a window, and one evaluation; the alerts are inserted
  into the table \<open>alerts\<close>.
\<close>

definition worker_evaluate ::
  "(nat \<Rightarrow> real) \<Rightarrow> (nat \<Rightarrow> string) \<Rightarrow> (real \<Rightarrow> string) \<Rightarrow> (json \<Rightarrow> string) \<Rightarrow> (string set \<Rightarrow> string list)
     \<Rightarrow> alert_config \<Rightarrow> string \<Rightarrow> real \<Rightarrow> source_row list \<Rightarrow> alert_state
     \<Rightarrow> alert list res \<times> alert_state" where
  "worker_evaluate clock uuid fmt1 dumps iter cfg ws pps rows st =
     engine_evaluate clock uuid fmt1 dumps iter cfg ws 10 (Pps pps)
       (dict_of (map (\<lambda>r. (sr_src_ip r, sr_ports r)) rows))
       (dict_of (map (\<lambda>r. (sr_src_ip r, sr_ips r)) rows))
       (dict_of (map (\<lambda>r. (sr_src_ip r, sr_packets r)) rows)) st"

record worker =
  engine :: alert_state
  last_window_start :: "string option"
  stored_alerts :: "alert list"

text \<open>
  One iteration of the polling loop: \<open>latest\<close> is the newest row of \<open>window_metrics\<close> (its
  start and rate), \<open>rows\<close> the rows of \<open>source_stats\<close> of that window. An exception is
  logged; the window is then tried again at the next poll.
\<close>

definition worker_poll ::
  "(nat \<Rightarrow> real) \<Rightarrow> (nat \<Rightarrow> string) \<Rightarrow> (real \<Rightarrow> string) \<Rightarrow> (json \<Rightarrow> string) \<Rightarrow> (string set \<Rightarrow> string list)
     \<Rightarrow> alert_config \<Rightarrow> (string \<times> real option) option \<Rightarrow> source_row list \<Rightarrow> worker \<Rightarrow> worker" where
  "worker_poll clock uuid fmt1 dumps iter cfg latest rows w =
     (case latest of
        None \<Rightarrow> w
      | Some (ws, pps) \<Rightarrow>
          if Some ws \<noteq> last_window_start w
          then (case worker_evaluate clock uuid fmt1 dumps iter cfg ws
                       (case pps of None \<Rightarrow> 0 | Some p \<Rightarrow> p) rows (engine w) of
                  (Inl e, st) \<Rightarrow> w\<lparr>engine := st\<rparr>
                | (Inr as, st) \<Rightarrow> w\<lparr>engine := st, last_window_start := Some ws,
                                    stored_alerts := stored_alerts w @ as\<rparr>)
          else w)"

section \<open>Cooldowns space the alerts\<close>

definition alert_key :: "alert \<Rightarrow> string \<times> string" where
  "alert_key a = (al_type a, al_src_ip a)"

text \<open>
  \<open>spaced d as st st'\<close>: the alerts have different keys; for each of them the new state
  records the time of the alert, at least \<open>d\<close> after the time that the old state records;
  the other keys keep their times.
\<close>

definition spaced :: "real \<Rightarrow> alert list \<Rightarrow> alert_state \<Rightarrow> alert_state \<Rightarrow> bool" where
  "spaced d as st st' \<longleftrightarrow> distinct (map alert_key as)
     \<and> (\<forall>k \<in> alert_key ` set as. \<exists>t. dget (cooldowns st') k = Some t
           \<and> (\<forall>l. dget (cooldowns st) k = Some l \<longrightarrow> d \<le> t - l))
     \<and> (\<forall>k. k \<notin> alert_key ` set as \<longrightarrow> dget (cooldowns st') k = dget (cooldowns st) k)"

lemma spaced_none: "cooldowns st' = cooldowns st \<Longrightarrow> spaced d [] st st'"
  by (simp add: spaced_def)

lemma spaced_append:
  assumes "spaced d as st st1" and "spaced d bs st1 st2"
    and "alert_key ` set as \<inter> alert_key ` set bs = {}"
  shows "spaced d (as @ bs) st st2"
proof -
  have "\<exists>t. dget (cooldowns st2) k = Some t \<and> (\<forall>l. dget (cooldowns st) k = Some l \<longrightarrow> d \<le> t - l)"
    if "k \<in> alert_key ` set (as @ bs)" for k
  proof (cases "k \<in> alert_key ` set bs")
    case True
    then have "k \<notin> alert_key ` set as" using assms(3) by blast
    then have "dget (cooldowns st1) k = dget (cooldowns st) k" using assms(1) unfolding spaced_def by blast
    with True assms(2) show ?thesis unfolding spaced_def by metis
  next
    case False
    then have "dget (cooldowns st2) k = dget (cooldowns st1) k" using assms(2) unfolding spaced_def by blast
    moreover have "k \<in> alert_key ` set as" using that False by auto
    ultimately show ?thesis using assms(1) unfolding spaced_def by metis
  qed
  moreover have "dget (cooldowns st2) k = dget (cooldowns st) k" if "k \<notin> alert_key ` set (as @ bs)" for k
  proof -
    have "k \<notin> alert_key ` set as" "k \<notin> alert_key ` set bs" using that by auto
    with assms(1,2) show ?thesis unfolding spaced_def by metis
  qed
  moreover have "distinct (map alert_key (as @ bs))"
    using assms unfolding spaced_def by simp
  ultimately show ?thesis unfolding spaced_def by blast
qed

text \<open>One alert whose key was not in cooldown.\<close>

lemma spaced_one:
  assumes "mono clock" and "in_cooldown clock cfg key st = (False, st1)" and "alert_key a = key"
    and "clock_calls st1 \<le> clock_calls st2" and "cooldowns st2 = cooldowns st1"
  shows "spaced (cooldown_seconds cfg) [a] st (set_cooldown clock key st2)"
proof -
  have same: "cooldowns st1 = cooldowns st" using assms(2) by (auto simp: in_cooldown_def split: option.splits)
  have "cooldown_seconds cfg \<le> clock (clock_calls st2) - l" if "dget (cooldowns st) key = Some l" for l
  proof -
    have "\<not> clock (clock_calls st) - l < cooldown_seconds cfg" "clock_calls st \<le> clock_calls st1"
      using assms(2) that by (auto simp: in_cooldown_def)
    moreover have "clock (clock_calls st) \<le> clock (clock_calls st2)"
      using assms(4) calculation(2) by (intro monoD [OF assms(1)]) simp
    ultimately show ?thesis by simp
  qed
  then show ?thesis using assms(3,5) same by (auto simp: spaced_def set_cooldown_def)
qed

lemma in_cooldown_same: "in_cooldown clock cfg key st = (b, st1) \<Longrightarrow> cooldowns st1 = cooldowns st
    \<and> ewma_baselines st1 = ewma_baselines st \<and> ewma_counts st1 = ewma_counts st"
  by (auto simp: in_cooldown_def split: option.splits)

lemma count_spaced:
  assumes "mono clock" and "check_count clock uuid dumps cfg ty m ws text limit src n st = (Inr r, st')"
  shows "spaced (cooldown_seconds cfg) (opt_list r) st st' \<and> alert_key ` set (opt_list r) \<subseteq> {(ty, src)}"
proof (cases "n \<le> limit")
  case True
  with assms(2) show ?thesis by (auto simp: check_count_def intro: spaced_none)
next
  case False
  obtain cool st1 where cool: "in_cooldown clock cfg (ty, src) st = (cool, st1)" by fastforce
  show ?thesis
  proof (cases cool)
    case True
    with assms(2) False cool in_cooldown_same [OF cool] show ?thesis
      by (auto simp: check_count_def intro: spaced_none)
  next
    case no: False
    with assms(2) False cool have lim: "limit \<noteq> 0" by (auto simp: check_count_def split: if_splits)
    with assms(2) False cool no obtain a where r: "r = Some a" "al_type a = ty" "al_src_ip a = src"
      "st' = set_cooldown clock (ty, src) (next_uuid st1)"
      by (auto simp: check_count_def)
    have "spaced (cooldown_seconds cfg) [a] st st'"
      unfolding r(4) using cool no r(2,3)
      by (intro spaced_one [OF assms(1)]) (auto simp: alert_key_def next_uuid_def)
    with r(1-3) show ?thesis by (simp add: alert_key_def)
  qed
qed

lemma spike_low: "pps < of_int (min_pps cfg) \<Longrightarrow>
    check_traffic_spike clock uuid fmt1 dumps cfg ws pps st = (None, st)"
  by (simp add: check_traffic_spike_def)

definition count_entry :: "alert_state \<Rightarrow> alert_state" where
  "count_entry st = st\<lparr>ewma_counts := dset ''global_pps'' (dget_or (ewma_counts st) ''global_pps'' 0) (ewma_counts st)\<rparr>"

lemma spike_first: "\<not> pps < of_int (min_pps cfg) \<Longrightarrow> dget (ewma_baselines st) ''global_pps'' = None \<Longrightarrow>
    check_traffic_spike clock uuid fmt1 dumps cfg ws pps st = (None, set_ewma ''global_pps'' pps 1 (count_entry st))"
  by (simp add: check_traffic_spike_def Let_def count_entry_def)

text \<open>The state after the update of the baseline, and the rest of the check.\<close>

definition after_update :: "alert_config \<Rightarrow> real \<Rightarrow> real \<Rightarrow> alert_state \<Rightarrow> alert_state" where
  "after_update cfg pps b st = set_ewma ''global_pps'' (ewma_alpha cfg * pps + (1 - ewma_alpha cfg) * b)
     (dget_or (ewma_counts st) ''global_pps'' 0 + 1) (count_entry st)"

lemma spike_later: "\<not> pps < of_int (min_pps cfg) \<Longrightarrow> dget (ewma_baselines st) ''global_pps'' = Some b \<Longrightarrow>
    check_traffic_spike clock uuid fmt1 dumps cfg ws pps st
    = (let n = dget_or (ewma_counts st) ''global_pps'' 0; st1 = after_update cfg pps b st;
           crit = critical_multiplier cfg * b; warn = warn_multiplier cfg * b
       in if n + 1 < warmup_windows cfg \<or> (pps < crit \<and> pps < warn) then (None, st1)
          else let (cool, st2) = in_cooldown clock cfg (''TRAFFIC_SPIKE'', ''global'') st1
               in if cool then (None, st2)
                  else (Some (spike_alert uuid fmt1 dumps cfg ws pps
                                (if crit \<le> pps then ''CRITICAL'' else ''WARN'')
                                (if crit \<le> pps then crit else warn)
                                (ewma_alpha cfg * pps + (1 - ewma_alpha cfg) * b)
                                (if b > 0 then (pps - b) / b * 100 else 0) n st2),
                        set_cooldown clock (''TRAFFIC_SPIKE'', ''global'') (next_uuid st2)))"
  by (simp add: check_traffic_spike_def Let_def count_entry_def after_update_def not_le not_less)

lemma after_update_same [simp]: "cooldowns (after_update cfg pps b st) = cooldowns st"
  "clock_calls (after_update cfg pps b st) = clock_calls st"
  by (simp_all add: after_update_def set_ewma_def count_entry_def)

lemma spike_cases:
  assumes "check_traffic_spike clock uuid fmt1 dumps cfg ws pps st = (r, st')"
  obtains (none) "r = None" "cooldowns st' = cooldowns st"
  | (alert) st0 st1 a where "r = Some a" "al_type a = ''TRAFFIC_SPIKE''" "al_src_ip a = ''global''"
      "cooldowns st0 = cooldowns st" "clock_calls st0 = clock_calls st"
      "in_cooldown clock cfg (''TRAFFIC_SPIKE'', ''global'') st0 = (False, st1)"
      "st' = set_cooldown clock (''TRAFFIC_SPIKE'', ''global'') (next_uuid st1)"
proof -
  show thesis
  proof (cases "pps < of_int (min_pps cfg)")
    case True
    with assms show ?thesis by (intro none) (simp_all add: spike_low)
  next
    case min: False
    show ?thesis
    proof (cases "dget (ewma_baselines st) ''global_pps''")
      case None
      with assms min show ?thesis by (intro none) (auto simp: spike_first set_ewma_def count_entry_def)
    next
      case (Some b)
      let ?st1 = "after_update cfg pps b st"
      obtain cool st2 where cool: "in_cooldown clock cfg (''TRAFFIC_SPIKE'', ''global'') ?st1 = (cool, st2)"
        by fastforce
      have same: "cooldowns st2 = cooldowns st" using in_cooldown_same [OF cool] by simp
      show ?thesis
      proof (cases r)
        case None
        with assms same show ?thesis unfolding spike_later [OF min Some]
          by (intro none) (auto simp: cool Let_def split: if_splits)
      next
        case (Some a)
        from assms Some have "\<not> cool" "st' = set_cooldown clock (''TRAFFIC_SPIKE'', ''global'') (next_uuid st2)"
          "al_type a = ''TRAFFIC_SPIKE''" "al_src_ip a = ''global''"
          unfolding spike_later [OF min \<open>dget _ _ = Some b\<close>]
          by (auto simp: cool Let_def spike_alert_def split: if_splits)
        with Some cool show ?thesis by (intro alert [of a ?st1 st2]) auto
      qed
    qed
  qed
qed

lemma spike_spaced:
  assumes "mono clock" and "check_traffic_spike clock uuid fmt1 dumps cfg ws pps st = (r, st')"
  shows "spaced (cooldown_seconds cfg) (opt_list r) st st'
    \<and> alert_key ` set (opt_list r) \<subseteq> {(''TRAFFIC_SPIKE'', ''global'')}"
  using assms(2)
proof (cases rule: spike_cases)
  case none
  then show ?thesis by (simp add: spaced_none)
next
  case (alert st0 st1 a)
  have "spaced (cooldown_seconds cfg) [a] st0 st'"
    unfolding alert(7) by (intro spaced_one [OF assms(1) alert(6)]) (auto simp: alert_key_def alert(2,3) next_uuid_def)
  then have "spaced (cooldown_seconds cfg) [a] st st'" using alert(4) by (simp add: spaced_def)
  with alert(1-3) show ?thesis by (simp add: alert_key_def)
qed

lemma source_loop_spaced:
  assumes "mono clock"
  shows "source_loop clock uuid dumps cfg ws ports ips pkts srcs acc st = (Inr as, st') \<Longrightarrow> distinct srcs \<Longrightarrow>
    \<exists>bs. as = acc @ bs \<and> spaced (cooldown_seconds cfg) bs st st'
      \<and> alert_key ` set bs \<subseteq> {''UNUSUAL_PORT_ACTIVITY'', ''HIGH_FANOUT''} \<times> set srcs"
proof (induction srcs arbitrary: acc st)
  case Nil
  then show ?case by (auto intro: spaced_none)
next
  case (Cons src srcs)
  let ?d = "cooldown_seconds cfg"
  show ?case
  proof (cases "dget_or pkts src (min_window_packets cfg + 1) < min_window_packets cfg")
    case True
    with Cons.IH [of acc st] Cons.prems show ?thesis by fastforce
  next
    case False
    from Cons.prems(1) False obtain a1 st1 a2 st2 where
      c1: "check_unusual_port_activity clock uuid dumps cfg ws src (dget_or ports src 0) st = (Inr a1, st1)"
      and c2: "check_high_fanout clock uuid dumps cfg ws src (dget_or ips src 0) st1 = (Inr a2, st2)"
      and rest: "source_loop clock uuid dumps cfg ws ports ips pkts srcs (acc @ opt_list a1 @ opt_list a2) st2 = (Inr as, st')"
      by (auto split: prod.splits sum.splits)
    from Cons.IH [OF rest] Cons.prems(2) obtain bs where bs: "as = (acc @ opt_list a1 @ opt_list a2) @ bs"
      "spaced ?d bs st2 st'" "alert_key ` set bs \<subseteq> {''UNUSUAL_PORT_ACTIVITY'', ''HIGH_FANOUT''} \<times> set srcs" by auto
    note s1 = count_spaced [OF assms c1 [unfolded check_unusual_port_activity_def]]
    note s2 = count_spaced [OF assms c2 [unfolded check_high_fanout_def]]
    have s12: "spaced ?d (opt_list a1 @ opt_list a2) st st2"
      using s1 s2 by (intro spaced_append [of _ _ _ st1]) auto
    have k12: "alert_key ` set (opt_list a1 @ opt_list a2)
        \<subseteq> {''UNUSUAL_PORT_ACTIVITY'', ''HIGH_FANOUT''} \<times> {src}"
      using s1 s2 by (auto simp del: opt_list.simps)
    have "spaced ?d ((opt_list a1 @ opt_list a2) @ bs) st st'"
      by (rule spaced_append [OF s12 bs(2)]) (use k12 bs(3) Cons.prems(2) in auto)
    moreover have "as = acc @ ((opt_list a1 @ opt_list a2) @ bs)" using bs(1) by simp
    moreover have "alert_key ` set ((opt_list a1 @ opt_list a2) @ bs)
        \<subseteq> {''UNUSUAL_PORT_ACTIVITY'', ''HIGH_FANOUT''} \<times> set (src # srcs)"
      using k12 bs(3) by (auto simp del: opt_list.simps)
    ultimately show ?thesis by blast
  qed
qed

text \<open>C15: cooldown.  The alerts of one evaluated window have different (type, source) pairs; an alert
  for a pair is raised only if at least \<open>cooldown_seconds\<close> have passed since the previous alert for
  that pair, whose time the engine keeps until then; other pairs keep their times.  The clock is
  assumed not to run backwards.\<close>

theorem alert_cooldown:
  assumes "mono clock" and "good_iter iter"
    and "engine_evaluate clock uuid fmt1 dumps iter cfg ws len arg ports ips pkts st = (Inr as, st')"
  shows "distinct (map alert_key as)
     \<and> (\<forall>k \<in> alert_key ` set as. \<exists>t. dget (cooldowns st') k = Some t
           \<and> (\<forall>l. dget (cooldowns st) k = Some l \<longrightarrow> cooldown_seconds cfg \<le> t - l))
     \<and> (\<forall>k. k \<notin> alert_key ` set as \<longrightarrow> dget (cooldowns st') k = dget (cooldowns st) k)"
proof -
  obtain pps pk where pp: "(case arg of Packet_Counts d \<Rightarrow> (len, d) | Pps p \<Rightarrow> (p, pkts)) = (pps, pk)" by fastforce
  obtain r st1 where c: "check_traffic_spike clock uuid fmt1 dumps cfg ws pps st = (r, st1)" by fastforce
  let ?srcs = "iter (set (dkeys pk) \<union> set (dkeys ports) \<union> set (dkeys ips))"
  have loop: "source_loop clock uuid dumps cfg ws ports ips pk ?srcs (opt_list r) st1 = (Inr as, st')"
    using assms(3) by (simp add: engine_evaluate_def pp c)
  have "distinct ?srcs" using assms(2) by (simp add: good_iter_def)
  from source_loop_spaced [OF assms(1) loop this] obtain bs where bs: "as = opt_list r @ bs"
    "spaced (cooldown_seconds cfg) bs st1 st'"
    "alert_key ` set bs \<subseteq> {''UNUSUAL_PORT_ACTIVITY'', ''HIGH_FANOUT''} \<times> set ?srcs" by blast
  note s = spike_spaced [OF assms(1) c]
  have "spaced (cooldown_seconds cfg) as st st'"
    unfolding bs(1) by (rule spaced_append [OF _ bs(2)]) (use s bs(3) in fastforce)+
  then show ?thesis unfolding spaced_def .
qed

lemma alert_example:
  "\<exists>a st'. engine_evaluate real (\<lambda>_. ''u'') (\<lambda>_. []) (\<lambda>_. []) sorted_list_of_set default_alert_config ''w'' 10
     (Pps 1) [(''h'', 21)] [] [(''h'', 500)] alert_state_new = (Inr [a], st')
   \<and> alert_key a = (''UNUSUAL_PORT_ACTIVITY'', ''h'')"
  by (simp add: engine_evaluate_def check_traffic_spike_def default_alert_config_def dget_or_def
      check_unusual_port_activity_def check_high_fanout_def check_count_def in_cooldown_def alert_state_new_def
      alert_key_def)

theorem alert_cooldown_witness:
  "\<exists>a st'. engine_evaluate real (\<lambda>_. ''u'') (\<lambda>_. []) (\<lambda>_. []) sorted_list_of_set default_alert_config ''w'' 10
     (Pps 1) [(''h'', 21)] [] [(''h'', 500)] alert_state_new = (Inr [a], st')
   \<and> (\<exists>t. dget (cooldowns st') (''UNUSUAL_PORT_ACTIVITY'', ''h'') = Some t)"
proof -
  from alert_example obtain a st' where e: "engine_evaluate real (\<lambda>_. ''u'') (\<lambda>_. []) (\<lambda>_. [])
      sorted_list_of_set default_alert_config ''w'' 10 (Pps 1) [(''h'', 21)] [] [(''h'', 500)] alert_state_new
      = (Inr [a], st')" "alert_key a = (''UNUSUAL_PORT_ACTIVITY'', ''h'')" by blast
  have "mono real" by (simp add: mono_def)
  from alert_cooldown [OF this sorted_iter e(1)] e show ?thesis by auto
qed

section \<open>The baseline\<close>

text \<open>The state after a sequence of windows, given by their starts and rates.\<close>

definition spike_run ::
  "(nat \<Rightarrow> real) \<Rightarrow> (nat \<Rightarrow> string) \<Rightarrow> (real \<Rightarrow> string) \<Rightarrow> (json \<Rightarrow> string) \<Rightarrow> alert_config
     \<Rightarrow> (string \<times> real) list \<Rightarrow> alert_state \<Rightarrow> alert_state" where
  "spike_run clock uuid fmt1 dumps cfg ws st =
     fold (\<lambda>(w, pps) st. snd (check_traffic_spike clock uuid fmt1 dumps cfg w pps st)) ws st"

text \<open>The rates that are not ignored.\<close>

definition counted :: "alert_config \<Rightarrow> (string \<times> real) list \<Rightarrow> real list" where
  "counted cfg ws = filter (\<lambda>p. of_int (min_pps cfg) \<le> p) (map snd ws)"

definition ewma_inv :: "real list \<Rightarrow> alert_state \<Rightarrow> bool" where
  "ewma_inv ps st \<longleftrightarrow>
     dget_or (ewma_counts st) ''global_pps'' 0 = int (length ps)
     \<and> (if ps = [] then dget (ewma_baselines st) ''global_pps'' = None
        else \<exists>b. dget (ewma_baselines st) ''global_pps'' = Some b
               \<and> (\<exists>x \<in> set ps. x \<le> b) \<and> (\<exists>x \<in> set ps. b \<le> x))"

lemma ewma_state:
  "ewma_baselines (snd (check_traffic_spike clock uuid fmt1 dumps cfg w p st)) =
     (if p < of_int (min_pps cfg) then ewma_baselines st
      else dset ''global_pps'' (case dget (ewma_baselines st) ''global_pps'' of None \<Rightarrow> p
             | Some b \<Rightarrow> ewma_alpha cfg * p + (1 - ewma_alpha cfg) * b) (ewma_baselines st))
   \<and> dget_or (ewma_counts (snd (check_traffic_spike clock uuid fmt1 dumps cfg w p st))) ''global_pps'' 0 =
     (if p < of_int (min_pps cfg) then dget_or (ewma_counts st) ''global_pps'' 0
      else case dget (ewma_baselines st) ''global_pps'' of None \<Rightarrow> 1
         | Some b \<Rightarrow> dget_or (ewma_counts st) ''global_pps'' 0 + 1)"
proof (cases "p < of_int (min_pps cfg)")
  case True
  then show ?thesis by (simp add: spike_low)
next
  case min: False
  show ?thesis
  proof (cases "dget (ewma_baselines st) ''global_pps''")
    case None
    with min show ?thesis by (simp add: spike_first set_ewma_def count_entry_def dget_or_def)
  next
    case (Some b)
    let ?st1 = "after_update cfg p b st"
    obtain cool st2 where cool: "in_cooldown clock cfg (''TRAFFIC_SPIKE'', ''global'') ?st1 = (cool, st2)"
      by fastforce
    have same: "ewma_baselines st2 = ewma_baselines ?st1" "ewma_counts st2 = ewma_counts ?st1"
      using in_cooldown_same [OF cool] by auto
    have upd: "ewma_baselines ?st1 = dset ''global_pps'' (ewma_alpha cfg * p + (1 - ewma_alpha cfg) * b) (ewma_baselines st)"
      "dget_or (ewma_counts ?st1) ''global_pps'' 0 = dget_or (ewma_counts st) ''global_pps'' 0 + 1"
      by (simp_all add: after_update_def set_ewma_def count_entry_def dget_or_def)
    show ?thesis unfolding spike_later [OF min Some] using min Some same upd
      by (simp add: cool Let_def set_cooldown_def next_uuid_def)
  qed
qed

lemma convex_between:
  fixes a p b lo hi :: real
  assumes "0 \<le> a" "a \<le> 1" "lo \<le> p" "lo \<le> b" "p \<le> hi" "b \<le> hi"
  shows "lo \<le> a * p + (1 - a) * b \<and> a * p + (1 - a) * b \<le> hi"
proof -
  have "a * lo + (1 - a) * lo \<le> a * p + (1 - a) * b" "a * p + (1 - a) * b \<le> a * hi + (1 - a) * hi"
    using assms by (intro add_mono mult_left_mono; simp)+
  then show ?thesis by (simp add: algebra_simps)
qed

lemma ewma_step:
  assumes "0 \<le> ewma_alpha cfg" "ewma_alpha cfg \<le> 1" and "ewma_inv ps st"
  shows "ewma_inv (ps @ (if p < of_int (min_pps cfg) then [] else [p]))
    (snd (check_traffic_spike clock uuid fmt1 dumps cfg w p st))"
proof (cases "p < of_int (min_pps cfg)")
  case True
  with assms(3) show ?thesis by (simp add: spike_low)
next
  case min: False
  note st = ewma_state [of clock uuid fmt1 dumps cfg w p st]
  show ?thesis
  proof (cases "ps = []")
    case True
    with assms(3) min st show ?thesis by (auto simp: ewma_inv_def)
  next
    case False
    with assms(3) obtain b x y where b: "dget (ewma_baselines st) ''global_pps'' = Some b"
      "x \<in> set ps" "x \<le> b" "y \<in> set ps" "b \<le> y"
      by (auto simp: ewma_inv_def)
    let ?n = "ewma_alpha cfg * p + (1 - ewma_alpha cfg) * b"
    have "min p x \<le> ?n \<and> ?n \<le> max p y"
      using b by (intro convex_between assms) auto
    then have "(\<exists>x \<in> set (ps @ [p]). x \<le> ?n) \<and> (\<exists>x \<in> set (ps @ [p]). ?n \<le> x)"
      using b(2,4) by (auto simp: min_def max_def split: if_splits)
    with assms(3) min st b(1) show ?thesis by (auto simp: ewma_inv_def)
  qed
qed

lemma ewma_run:
  assumes "0 \<le> ewma_alpha cfg" "ewma_alpha cfg \<le> 1"
  shows "ewma_inv (counted cfg ws) (spike_run clock uuid fmt1 dumps cfg ws alert_state_new)"
proof (induction ws rule: rev_induct)
  case Nil
  then show ?case by (simp add: spike_run_def counted_def ewma_inv_def alert_state_new_def dget_or_def)
next
  case (snoc x ws)
  obtain w p where x: "x = (w, p)" by (cases x)
  have "counted cfg (ws @ [x]) = counted cfg ws @ (if p < of_int (min_pps cfg) then [] else [p])"
    by (simp add: counted_def x not_less [symmetric])
  with ewma_step [OF assms snoc, of p clock uuid fmt1 dumps w] show ?case by (simp add: spike_run_def x)
qed

text \<open>C23: spike alerts.  After any windows (and a smoothing factor between 0 and 1) the engine has counted
  the windows with at least \<open>min_pps\<close> packets per second, and its baseline lies between rates it has
  counted. An alert is raised only for a counted window, after the warm-up, when the rate reaches a
  threshold computed from the old baseline, which decides the severity; the alert reports the change
  against the old baseline but the new baseline as its \<open>baseline_value\<close>.\<close>

theorem spike_alert_sound:
  assumes "0 \<le> ewma_alpha cfg" "ewma_alpha cfg \<le> 1"
    and "check_traffic_spike clock uuid fmt1 dumps cfg w pps
           (spike_run clock uuid fmt1 dumps cfg ws alert_state_new) = (Some a, st')"
  shows "\<exists>b. (\<exists>x \<in> set (counted cfg ws). x \<le> b) \<and> (\<exists>x \<in> set (counted cfg ws). b \<le> x)
    \<and> of_int (min_pps cfg) \<le> pps \<and> warmup_windows cfg \<le> int (length (counted cfg ws)) + 1
    \<and> (severity a = ''CRITICAL'' \<and> critical_multiplier cfg * b \<le> pps
         \<and> threshold a = py_round (critical_multiplier cfg * b) 2
       \<or> severity a = ''WARN'' \<and> pps < critical_multiplier cfg * b \<and> warn_multiplier cfg * b \<le> pps
         \<and> threshold a = py_round (warn_multiplier cfg * b) 2)
    \<and> (0 < b \<longrightarrow> change_pct a = py_round ((pps - b) / b * 100) 1)
    \<and> baseline_value a = py_round (ewma_alpha cfg * pps + (1 - ewma_alpha cfg) * b) 2"
proof -
  let ?st = "spike_run clock uuid fmt1 dumps cfg ws alert_state_new"
  note inv = ewma_run [OF assms(1,2), of ws clock uuid fmt1 dumps]
  have min: "\<not> pps < of_int (min_pps cfg)" using assms(3) spike_low by force
  have "dget (ewma_baselines ?st) ''global_pps'' \<noteq> None" using assms(3) spike_first [OF min] by force
  then have ne: "counted cfg ws \<noteq> []" using inv by (auto simp: ewma_inv_def)
  with inv obtain b where b: "dget (ewma_baselines ?st) ''global_pps'' = Some b"
    "\<exists>x \<in> set (counted cfg ws). x \<le> b" "\<exists>x \<in> set (counted cfg ws). b \<le> x"
    by (auto simp: ewma_inv_def)
  have n: "dget_or (ewma_counts ?st) ''global_pps'' 0 = int (length (counted cfg ws))"
    using inv by (simp add: ewma_inv_def)
  obtain cool st2 where cool: "in_cooldown clock cfg (''TRAFFIC_SPIKE'', ''global'') (after_update cfg pps b ?st) = (cool, st2)"
    by fastforce
  have run: "warmup_windows cfg \<le> int (length (counted cfg ws)) + 1"
    "critical_multiplier cfg * b \<le> pps \<or> warn_multiplier cfg * b \<le> pps"
    "a = spike_alert uuid fmt1 dumps cfg w pps (if critical_multiplier cfg * b \<le> pps then ''CRITICAL'' else ''WARN'')
       (if critical_multiplier cfg * b \<le> pps then critical_multiplier cfg * b else warn_multiplier cfg * b)
       (ewma_alpha cfg * pps + (1 - ewma_alpha cfg) * b)
       (if b > 0 then (pps - b) / b * 100 else 0) (int (length (counted cfg ws))) st2"
    using assms(3) unfolding spike_later [OF min b(1)]
    by (auto simp: cool n Let_def split: if_splits)
  show ?thesis
    using b(2,3) min run(1,2) by (intro exI [of _ b]) (auto simp: run(3) spike_alert_def)
qed

definition quick_config :: alert_config where
  "quick_config = default_alert_config\<lparr>warmup_windows := 2\<rparr>"

theorem spike_alert_sound_witness:
  "\<exists>a st'. check_traffic_spike real (\<lambda>_. ''u'') (\<lambda>_. []) (\<lambda>_. []) quick_config ''w2'' 700
       (spike_run real (\<lambda>_. ''u'') (\<lambda>_. []) (\<lambda>_. []) quick_config [(''w1'', 100)] alert_state_new) = (Some a, st')
    \<and> (severity a = ''CRITICAL'' \<or> severity a = ''WARN'')"
proof -
  have "\<exists>a st'. check_traffic_spike real (\<lambda>_. ''u'') (\<lambda>_. []) (\<lambda>_. []) quick_config ''w2'' 700
       (spike_run real (\<lambda>_. ''u'') (\<lambda>_. []) (\<lambda>_. []) quick_config [(''w1'', 100)] alert_state_new) = (Some a, st')"
    by (simp add: spike_run_def check_traffic_spike_def quick_config_def default_alert_config_def
        alert_state_new_def dget_or_def set_ewma_def in_cooldown_def Let_def)
  then obtain a st' where run: "check_traffic_spike real (\<lambda>_. ''u'') (\<lambda>_. []) (\<lambda>_. []) quick_config ''w2'' 700
       (spike_run real (\<lambda>_. ''u'') (\<lambda>_. []) (\<lambda>_. []) quick_config [(''w1'', 100)] alert_state_new) = (Some a, st')"
    by blast
  with spike_alert_sound [OF _ _ run] show ?thesis
    by (auto simp: quick_config_def default_alert_config_def)
qed

section \<open>Restart\<close>

lemma split_once_key: "CHR ''|'' \<notin> set a \<Longrightarrow> split_once (CHR ''|'') (a @ ''|'' @ b) = Some (a, b)"
  by (induction a) auto

definition cooldowns_ok :: "alert_state \<Rightarrow> bool" where
  "cooldowns_ok st \<longleftrightarrow> wf_dict (cooldowns st) \<and> (\<forall>k \<in> set (dkeys (cooldowns st)). CHR ''|'' \<notin> set (fst k))"

lemma in_cooldown_ok: "cooldowns_ok st \<Longrightarrow> cooldowns_ok (snd (in_cooldown clock cfg key st))"
  by (simp add: in_cooldown_def cooldowns_ok_def split: option.split)

lemma set_cooldown_ok: "cooldowns_ok st \<Longrightarrow> CHR ''|'' \<notin> set (fst key) \<Longrightarrow> cooldowns_ok (set_cooldown clock key st)"
  by (simp add: set_cooldown_def cooldowns_ok_def dkeys_dset del: set_map)

lemma check_count_ok:
  "cooldowns_ok st \<Longrightarrow> CHR ''|'' \<notin> set ty \<Longrightarrow>
     cooldowns_ok (snd (check_count clock uuid dumps cfg ty m ws text limit src n st))"
proof -
  assume st: "cooldowns_ok st" and ty: "CHR ''|'' \<notin> set ty"
  obtain cool st1 where c: "in_cooldown clock cfg (ty, src) st = (cool, st1)" by fastforce
  have ok: "cooldowns_ok st1" using in_cooldown_ok [OF st, of clock cfg "(ty, src)"] c by simp
  then have "cooldowns_ok (next_uuid st1)" by (simp add: cooldowns_ok_def next_uuid_def)
  with ok set_cooldown_ok [of "next_uuid st1" "(ty, src)" clock] st ty show ?thesis
    by (simp add: check_count_def c Let_def)
qed

lemma spike_ok: "cooldowns_ok st \<Longrightarrow> cooldowns_ok (snd (check_traffic_spike clock uuid fmt1 dumps cfg ws pps st))"
proof -
  assume st: "cooldowns_ok st"
  obtain r st' where c: "check_traffic_spike clock uuid fmt1 dumps cfg ws pps st = (r, st')" by fastforce
  then show ?thesis
  proof (cases rule: spike_cases)
    case none
    with c st show ?thesis by (simp add: cooldowns_ok_def)
  next
    case (alert st0 st1 a)
    have "cooldowns_ok (next_uuid st1)"
      using st alert(4) in_cooldown_same [OF alert(6)] by (simp add: cooldowns_ok_def next_uuid_def)
    from set_cooldown_ok [OF this] c alert(7) show ?thesis by simp
  qed
qed

lemma source_loop_ok: "cooldowns_ok st \<Longrightarrow>
    cooldowns_ok (snd (source_loop clock uuid dumps cfg ws ports ips pkts srcs acc st))"
proof (induction srcs arbitrary: acc st)
  case (Cons src srcs)
  obtain r1 st1 where c1: "check_unusual_port_activity clock uuid dumps cfg ws src (dget_or ports src 0) st = (r1, st1)"
    by fastforce
  obtain r2 st2 where c2: "check_high_fanout clock uuid dumps cfg ws src (dget_or ips src 0) st1 = (r2, st2)"
    by fastforce
  have ok1: "cooldowns_ok st1"
  proof -
    have "st1 = snd (check_unusual_port_activity clock uuid dumps cfg ws src (dget_or ports src 0) st)" by (simp add: c1)
    with check_count_ok [OF Cons.prems] show ?thesis by (simp add: check_unusual_port_activity_def)
  qed
  have ok2: "cooldowns_ok st2"
  proof -
    have "st2 = snd (check_high_fanout clock uuid dumps cfg ws src (dget_or ips src 0) st1)" by (simp add: c2)
    with check_count_ok [OF ok1] show ?thesis by (simp add: check_high_fanout_def)
  qed
  from Cons.IH [OF ok2] Cons.IH [OF Cons.prems] Cons.prems ok1 ok2 show ?case
    by (simp add: c1 c2 split: sum.split)
qed simp

lemma worker_poll_ok: "cooldowns_ok (engine w) \<Longrightarrow>
    cooldowns_ok (engine (worker_poll clock uuid fmt1 dumps iter cfg latest rows w))"
proof -
  assume w: "cooldowns_ok (engine w)"
  have ev: "cooldowns_ok (snd (worker_evaluate clock uuid fmt1 dumps iter cfg ws pps rows (engine w)))" for ws pps
    using source_loop_ok [OF spike_ok [OF w]]
    by (simp add: worker_evaluate_def engine_evaluate_def case_prod_unfold Let_def)
  show ?thesis
  proof (cases latest)
    case None
    with w show ?thesis by (simp add: worker_poll_def)
  next
    case (Some l)
    obtain ws pps where l: "l = (ws, pps)" by (cases l)
    obtain r st where r: "worker_evaluate clock uuid fmt1 dumps iter cfg ws
        (case pps of None \<Rightarrow> 0 | Some p \<Rightarrow> p) rows (engine w) = (r, st)" by fastforce
    have "cooldowns_ok st" using ev [of ws "case pps of None \<Rightarrow> 0 | Some p \<Rightarrow> p"] by (simp add: r)
    with w r show ?thesis by (simp add: worker_poll_def Some l split: sum.split)
  qed
qed

lemma alert_restore_snapshot:
  assumes "cooldowns_ok st"
  shows "alert_restore (alert_snapshot st) st0
    = Inr (st0\<lparr>ewma_baselines := ewma_baselines st, ewma_counts := ewma_counts st, cooldowns := cooldowns st\<rparr>)"
proof -
  let ?m = "map (\<lambda>(k, v). (cooldown_key_str k, JReal v)) (cooldowns st)"
  have key: "split_once (CHR ''|'') (cooldown_key_str k) = Some k" if "k \<in> set (dkeys (cooldowns st))" for k
    using assms that split_once_key [of "fst k" "snd k"] by (auto simp: cooldowns_ok_def cooldown_key_str_def)
  have "inj_on cooldown_key_str (set (dkeys (cooldowns st)))"
    by (rule inj_onI) (metis key option.inject)
  moreover have dk: "dkeys ?m = map cooldown_key_str (dkeys (cooldowns st))"
    by (induction "cooldowns st") auto
  ultimately have "wf_dict ?m"
    unfolding dk using assms by (intro distinct_map [THEN iffD2]) (simp add: cooldowns_ok_def)
  then have d: "dict_of ?m = ?m" by (rule dict_of_id)
  have a: "mapE (\<lambda>(k, v). bindE (jreal v) (\<lambda>x. Inr (k, x))) (map (\<lambda>(k, v). (k, JReal v)) bs) = Inr bs"
    for bs :: "(string, real) dict" by (rule mapE_map_inverse) auto
  have b: "mapE (\<lambda>(k, v). bindE (jint v) (\<lambda>x. Inr (k, x))) (map (\<lambda>(k, v). (k, JInt v)) cs) = Inr cs"
    for cs :: "(string, int) dict" by (rule mapE_map_inverse) auto
  have c: "mapE (\<lambda>(k, v). case split_once (CHR ''|'') k of None \<Rightarrow> Inl ValueError
                | Some key \<Rightarrow> bindE (jreal v) (\<lambda>x. Inr (key, x))) ?m = Inr (cooldowns st)"
    by (rule mapE_map_inverse) (use key in force)
  have e: "dict_of (cooldowns st) = cooldowns st" using assms by (intro dict_of_id) (simp add: cooldowns_ok_def)
  show ?thesis by (simp add: alert_restore_def alert_snapshot_def dget_or_def d a b c e)
qed

text \<open>the worker.  Whatever windows a new worker has polled, its engine state survives
  \<open>get_state_snapshot\<close> and \<open>from_state_snapshot\<close>: baselines, counts and the cooldown time of every
  (type, source) pair, although the pair is flattened into one string. A window that was evaluated
  is not evaluated again by the next poll.\<close>

theorem alert_worker_restart:
  assumes "w = fold (\<lambda>(latest, rows). worker_poll clock uuid fmt1 dumps iter cfg latest rows) polls
                 \<lparr>engine = alert_state_new, last_window_start = None, stored_alerts = []\<rparr>"
  shows "alert_restore (alert_snapshot (engine w)) st0 = Inr (st0\<lparr>ewma_baselines := ewma_baselines (engine w),
           ewma_counts := ewma_counts (engine w), cooldowns := cooldowns (engine w)\<rparr>)
    \<and> (last_window_start w = Some ws \<longrightarrow>
         worker_poll clock uuid fmt1 dumps iter cfg (Some (ws, pps)) rows w = w)"
proof -
  have "cooldowns_ok (engine v) \<Longrightarrow>
      cooldowns_ok (engine (fold (\<lambda>(latest, rows). worker_poll clock uuid fmt1 dumps iter cfg latest rows) polls v))" for v
    by (induction polls arbitrary: v) (auto simp: worker_poll_ok)
  moreover have "cooldowns_ok (engine \<lparr>engine = alert_state_new, last_window_start = None, stored_alerts = []\<rparr>)"
    by (simp add: cooldowns_ok_def alert_state_new_def)
  ultimately have "cooldowns_ok (engine w)" unfolding assms by blast
  from alert_restore_snapshot [OF this] show ?thesis by (simp add: worker_poll_def)
qed

theorem alert_worker_restart_witness:
  "let w = \<lparr>engine = alert_state_new, last_window_start = None, stored_alerts = []\<rparr>
   in alert_restore (alert_snapshot (engine w)) (engine w) = Inr (engine w)"
  using alert_worker_restart [of _ real "\<lambda>_. ''u''" "\<lambda>_. []" "\<lambda>_. []" sorted_list_of_set default_alert_config "[]"]
  by (simp add: Let_def)

end
