(* ===== verification/Serving_Db.thy ===== *)
theory Serving_Db
  imports Prelude
begin

text \<open>
  The serving database client (\<open>common/serving_db.py\<close>): the batched partial upsert and the
  retention cleanup, over a model of the SQLite tables they address. A stored row gives a value
  to every column (NULL is \<open>JNull\<close>); a table is a list of rows.
\<close>

type_synonym db_row = "string \<Rightarrow> json"
type_synonym in_row = "(string, json) dict"

section \<open>The statement\<close>

definition ordered_cols :: "string list \<Rightarrow> in_row list \<Rightarrow> string list" where
  "ordered_cols key_cols rows =
     (let cols_set = insert ''updated_at'' (\<Union>(set (map (\<lambda>r. set (dkeys r)) rows)))
      in key_cols @ sorted_list_of_set (cols_set - set key_cols))"

definition update_cols :: "string list \<Rightarrow> in_row list \<Rightarrow> string list" where
  "update_cols key_cols rows =
     (let u = filter (\<lambda>c. c \<notin> set key_cols) (ordered_cols key_cols rows)
      in if u = [] then [''updated_at''] else u)"

definition comma_join :: "string list \<Rightarrow> string" where
  "comma_join xs = (case xs of [] \<Rightarrow> [] | y # ys \<Rightarrow> y @ concat (map (\<lambda>s. '', '' @ s) ys))"

definition upsert_sql :: "string \<Rightarrow> string list \<Rightarrow> in_row list \<Rightarrow> string" where
  "upsert_sql table key_cols rows =
     ''INSERT INTO '' @ table @ '' ('' @ comma_join (ordered_cols key_cols rows) @ '') VALUES (''
       @ comma_join (replicate (length (ordered_cols key_cols rows)) ''?'') @ '') ON CONFLICT(''
       @ comma_join key_cols @ '') DO UPDATE SET ''
       @ comma_join (map (\<lambda>col. col @ '' = excluded.'' @ col) (update_cols key_cols rows)) @ '';''"

text \<open>The value bound to a column for one row; \<open>now\<close> is \<open>current_utc_iso()\<close>.\<close>

definition bound_value :: "string \<Rightarrow> in_row \<Rightarrow> string \<Rightarrow> json" where
  "bound_value now r col =
     (if col = ''updated_at''
      then (let v = dget_or r ''updated_at'' JNull in if jtruthy v then v else JStr now)
      else dget_or r col JNull)"

definition batch_values :: "string \<Rightarrow> string list \<Rightarrow> in_row list \<Rightarrow> json list list" where
  "batch_values now key_cols rows =
     map (\<lambda>r. map (bound_value now r) (ordered_cols key_cols rows)) rows"

section \<open>Its execution\<close>

text \<open>
  SQLite's \<open>INSERT ... ON CONFLICT(keys) DO UPDATE SET c = excluded.c\<close>: NULL keys never
  conflict; the columns that the statement does not name are NULL in a new row and keep their
  values in an existing one.
\<close>

definition excluded :: "string list \<Rightarrow> json list \<Rightarrow> db_row" where
  "excluded cols vals = (\<lambda>c. dget_or (zip cols vals) c JNull)"

definition conflicts :: "string list \<Rightarrow> db_row \<Rightarrow> db_row \<Rightarrow> bool" where
  "conflicts keys e row \<longleftrightarrow> map e keys = map row keys \<and> JNull \<notin> set (map e keys)"

definition exec_upsert :: "string list \<Rightarrow> string list \<Rightarrow> db_row \<Rightarrow> db_row list \<Rightarrow> db_row list" where
  "exec_upsert keys upd e tbl =
     (if \<exists>row \<in> set tbl. conflicts keys e row
      then map (\<lambda>row. if conflicts keys e row then (\<lambda>c. if c \<in> set upd then e c else row c) else row) tbl
      else tbl @ [e])"

text \<open>\<open>upsert\<close>: the returned count and the new table.\<close>

definition upsert :: "string \<Rightarrow> string list \<Rightarrow> in_row list \<Rightarrow> db_row list \<Rightarrow> nat \<times> db_row list" where
  "upsert now key_cols rows tbl =
     (if rows = [] then (0, tbl)
      else (length rows,
            fold (\<lambda>vals. exec_upsert key_cols (update_cols key_cols rows)
                           (excluded (ordered_cols key_cols rows) vals))
              (batch_values now key_cols rows) tbl))"

section \<open>Cleanup\<close>

definition tables_with_window_start :: "string list" where
  "tables_with_window_start =
     [''window_metrics'', ''protocol_counts'', ''port_counts'', ''filter_counts'', ''distinct_counts'',
      ''moments'', ''frequent_itemsets'', ''ip_edges'', ''source_stats'']"

definition tables_with_ts :: "string list" where
  "tables_with_ts =
     [''sampling_compare'', ''counting_ones'', ''decay_traffic'', ''decay_top_keys'', ''alerts'',
      ''pipeline_health'']"

text \<open>\<open>WHERE col < cutoff\<close>; the time columns are text, and a comparison with NULL is not true.\<close>

fun older :: "string \<Rightarrow> json \<Rightarrow> bool" where
  "older cutoff (JStr s) = (s < cutoff)"
| "older cutoff _ = False"

text \<open>A missing table raises inside the transaction, which is rolled back.\<close>

definition clean_table ::
  "string \<Rightarrow> string \<Rightarrow> string \<Rightarrow> (string, db_row list) dict \<times> (string, int) dict
     \<Rightarrow> ((string, db_row list) dict \<times> (string, int) dict) res" where
  "clean_table col cutoff t s =
     (case dget (fst s) t of
        None \<Rightarrow> Inl RuntimeError
      | Some rows \<Rightarrow>
          Inr (dset t (filter (\<lambda>r. \<not> older cutoff (r col)) rows) (fst s),
               dset t (int (length (filter (\<lambda>r. older cutoff (r col)) rows))) (snd s)))"

definition cleanup ::
  "string \<Rightarrow> string list option \<Rightarrow> (string, db_row list) dict
     \<Rightarrow> ((string, db_row list) dict \<times> (string, int) dict) res" where
  "cleanup cutoff tables db =
     (let pick = (\<lambda>ts. case tables of None \<Rightarrow> ts | Some xs \<Rightarrow> filter (\<lambda>t. t \<in> set xs) ts)
      in bindE (foldE (clean_table ''window_start'' cutoff) (pick tables_with_window_start) (db, []))
           (foldE (clean_table ''ts'' cutoff) (pick tables_with_ts)))"

section \<open>What an upsert does to a table\<close>

definition key_of :: "string list \<Rightarrow> db_row \<Rightarrow> json list" where
  "key_of keys row = map row keys"

definition find_key :: "string list \<Rightarrow> json list \<Rightarrow> db_row list \<Rightarrow> db_row option" where
  "find_key keys k tbl = find (\<lambda>row. key_of keys row = k) tbl"

lemma find_map: "(\<And>x. P (f x) = P x) \<Longrightarrow> find P (map f xs) = map_option f (find P xs)"
  by (induction xs) auto

lemma find_append: "find P (xs @ ys) = (case find P xs of None \<Rightarrow> find P ys | Some x \<Rightarrow> Some x)"
  by (induction xs) auto

lemma find_Some_prop: "find P xs = Some x \<Longrightarrow> P x \<and> x \<in> set xs"
  by (induction xs) (auto split: if_splits)

lemma exec_upsert_lookup:
  assumes "JNull \<notin> set (key_of keys e)" and "set upd \<inter> set keys = {}"
  shows "find_key keys k (exec_upsert keys upd e tbl) =
    (if key_of keys e = k
     then Some (case find_key keys k tbl of None \<Rightarrow> e
                | Some row \<Rightarrow> (\<lambda>c. if c \<in> set upd then e c else row c))
     else find_key keys k tbl)"
proof -
  let ?f = "\<lambda>row. if conflicts keys e row then (\<lambda>c. if c \<in> set upd then e c else row c) else row"
  have conf: "conflicts keys e row \<longleftrightarrow> key_of keys row = key_of keys e" for row
    using assms(1) by (auto simp: conflicts_def key_of_def)
  have key: "key_of keys (?f row) = key_of keys row" for row
    using assms(2) by (auto simp: key_of_def)
  show ?thesis
  proof (cases "\<exists>row \<in> set tbl. conflicts keys e row")
    case True
    then have ex: "find_key keys (key_of keys e) tbl \<noteq> None"
      by (auto simp: find_key_def find_None_iff conf)
    have "find_key keys k (exec_upsert keys upd e tbl) = map_option ?f (find_key keys k tbl)"
      using True key by (simp add: exec_upsert_def find_key_def find_map)
    also have "\<dots> = (if key_of keys e = k
     then Some (case find_key keys k tbl of None \<Rightarrow> e
                | Some row \<Rightarrow> (\<lambda>c. if c \<in> set upd then e c else row c))
     else find_key keys k tbl)"
    proof (cases "find_key keys k tbl")
      case None
      with ex show ?thesis by auto
    next
      case (Some row)
      then have "key_of keys row = k" unfolding find_key_def by (auto dest: find_Some_prop)
      then show ?thesis using conf [of row] by (auto simp: Some)
    qed
    finally show ?thesis .
  next
    case False
    then have none: "find_key keys (key_of keys e) tbl = None"
      by (auto simp: find_key_def find_None_iff conf)
    have "find_key keys k (exec_upsert keys upd e tbl)
        = (case find_key keys k tbl of None \<Rightarrow> (if key_of keys e = k then Some e else None) | Some x \<Rightarrow> Some x)"
      using False by (simp add: exec_upsert_def find_key_def find_append split: option.split)
    then show ?thesis using none by (auto split: option.split)
  qed
qed

lemma ordered_cols_set:
  "set (ordered_cols keys rows) = set keys \<union> insert ''updated_at'' (\<Union>r \<in> set rows. set (dkeys r))"
proof -
  have "finite (insert ''updated_at'' (\<Union>(set (map (\<lambda>r. set (dkeys r)) rows))) - set keys)" by simp
  then show ?thesis unfolding ordered_cols_def Let_def set_append by simp
qed

lemma update_cols_set: "''updated_at'' \<notin> set keys \<Longrightarrow>
    set (update_cols keys rows) = set (ordered_cols keys rows) - set keys"
proof -
  assume u: "''updated_at'' \<notin> set keys"
  let ?u = "filter (\<lambda>c. c \<notin> set keys) (ordered_cols keys rows)"
  have "''updated_at'' \<in> set ?u" using u ordered_cols_set [of keys rows] by simp
  then have "?u \<noteq> []" by (metis empty_iff empty_set)
  then show ?thesis by (simp add: update_cols_def Let_def) blast
qed

lemma excluded_bound:
  "excluded cols (map (bound_value now r) cols) c = (if c \<in> set cols then bound_value now r c else JNull)"
  unfolding excluded_def by (induction cols) (auto simp: dget_or_def)

definition in_key :: "string list \<Rightarrow> in_row \<Rightarrow> json list" where
  "in_key keys r = map (\<lambda>c. dget_or r c JNull) keys"

lemma upsert_lookup:
  assumes "''updated_at'' \<notin> set keys" and "distinct (map (in_key keys) rows)"
    and "\<forall>r \<in> set rows. JNull \<notin> set (in_key keys r)"
  shows "fst (upsert now keys rows tbl) = length rows
    \<and> find_key keys k (snd (upsert now keys rows tbl)) =
      (case find (\<lambda>r. in_key keys r = k) rows of
         None \<Rightarrow> find_key keys k tbl
       | Some r \<Rightarrow> Some (\<lambda>c. if c \<in> set (ordered_cols keys rows) then bound_value now r c
                            else case find_key keys k tbl of None \<Rightarrow> JNull | Some old \<Rightarrow> old c))"
proof (cases "rows = []")
  case True
  then show ?thesis by (simp add: upsert_def)
next
  case False
  let ?cols = "ordered_cols keys rows" and ?upd = "update_cols keys rows"
  let ?e = "\<lambda>r. excluded ?cols (map (bound_value now r) ?cols)"
  have sub: "set keys \<subseteq> set ?cols" using ordered_cols_set [of keys rows] by blast
  have key: "key_of keys (?e r) = in_key keys r" for r
    using sub assms(1) by (auto simp: key_of_def in_key_def excluded_bound bound_value_def)
  have upd: "set ?upd = set ?cols - set keys" by (rule update_cols_set [OF assms(1)])
  have disj: "set ?upd \<inter> set keys = {}" unfolding upd by blast
  define S where "S = (\<lambda>rs tbl. fold (\<lambda>r. exec_upsert keys ?upd (?e r)) rs tbl)"
  have run: "snd (upsert now keys rows tbl) = S rows tbl"
    using False by (simp add: upsert_def batch_values_def S_def fold_map comp_def)
  have "distinct (map (in_key keys) rs) \<Longrightarrow> \<forall>r \<in> set rs. JNull \<notin> set (in_key keys r) \<Longrightarrow>
      find_key keys k (S rs tb) =
      (case find (\<lambda>r. in_key keys r = k) rs of
         None \<Rightarrow> find_key keys k tb
       | Some r \<Rightarrow> Some (\<lambda>c. if c \<in> set ?cols then bound_value now r c
                            else case find_key keys k tb of None \<Rightarrow> JNull | Some old \<Rightarrow> old c))" for rs tb
  proof (induction rs arbitrary: tb)
    case (Cons r rs)
    have nn: "JNull \<notin> set (key_of keys (?e r))" using Cons.prems key by simp
    note one = exec_upsert_lookup [OF nn disj, of k tb]
    have IH: "find_key keys k (S (r # rs) tb) =
      (case find (\<lambda>r. in_key keys r = k) rs of
         None \<Rightarrow> find_key keys k (exec_upsert keys ?upd (?e r) tb)
       | Some r' \<Rightarrow> Some (\<lambda>c. if c \<in> set ?cols then bound_value now r' c
             else case find_key keys k (exec_upsert keys ?upd (?e r) tb) of None \<Rightarrow> JNull | Some old \<Rightarrow> old c))"
      using Cons by (simp add: S_def)
    show ?case
    proof (cases "in_key keys r = k")
      case False
      then have "find_key keys k (exec_upsert keys ?upd (?e r) tb) = find_key keys k tb"
        using one key by simp
      with IH False show ?thesis by (simp only: find.simps if_False)
    next
      case True
      have "find (\<lambda>r. in_key keys r = k) rs = None"
        using Cons.prems(1) True by (auto simp: find_None_iff image_iff)
      then have res: "find_key keys k (S (r # rs) tb) = Some (case find_key keys k tb of None \<Rightarrow> ?e r
                | Some row \<Rightarrow> (\<lambda>c. if c \<in> set ?upd then ?e r c else row c))"
        using IH one key True by simp
      show ?thesis
      proof (cases "find_key keys k tb")
        case None
        with res True show ?thesis by (auto simp: excluded_bound)
      next
        case (Some row)
        then have "key_of keys row = in_key keys r" using True unfolding find_key_def by (auto dest: find_Some_prop)
        then have "row c = bound_value now r c" if "c \<in> set keys" for c
          using that assms(1) by (auto simp: key_of_def in_key_def bound_value_def)
        with res True Some sub show ?thesis unfolding upd by (auto simp: excluded_bound)
      qed
    qed
  qed (simp add: S_def)
  from this [OF assms(2,3)] run show ?thesis by (simp add: upsert_def False)
qed

text \<open>A table whose rows have different keys keeps that.\<close>

lemma exec_upsert_distinct:
  assumes "JNull \<notin> set (key_of keys e)" and "set upd \<inter> set keys = {}" and "distinct (map (key_of keys) tbl)"
  shows "distinct (map (key_of keys) (exec_upsert keys upd e tbl))"
proof (cases "\<exists>row \<in> set tbl. conflicts keys e row")
  case True
  have "key_of keys (if conflicts keys e row then (\<lambda>c. if c \<in> set upd then e c else row c) else row) = key_of keys row" for row
    using assms(2) by (auto simp: key_of_def)
  then have "map (key_of keys) (exec_upsert keys upd e tbl) = map (key_of keys) tbl"
    using True by (simp add: exec_upsert_def)
  with assms(3) show ?thesis by simp
next
  case False
  have "conflicts keys e row \<longleftrightarrow> key_of keys row = key_of keys e" for row
    using assms(1) by (auto simp: conflicts_def key_of_def)
  with False assms(3) show ?thesis by (auto simp: exec_upsert_def)
qed

lemma upsert_distinct:
  assumes "''updated_at'' \<notin> set keys" and "\<forall>r \<in> set rows. JNull \<notin> set (in_key keys r)"
    and "distinct (map (key_of keys) tbl)"
  shows "distinct (map (key_of keys) (snd (upsert now keys rows tbl)))"
proof -
  let ?cols = "ordered_cols keys rows"
  let ?step = "\<lambda>r. exec_upsert keys (update_cols keys rows) (excluded ?cols (map (bound_value now r) ?cols))"
  have disj: "set (update_cols keys rows) \<inter> set keys = {}" using update_cols_set [OF assms(1), of rows] by blast
  have "set keys \<subseteq> set ?cols" using ordered_cols_set [of keys rows] by blast
  then have key: "key_of keys (excluded ?cols (map (bound_value now r) ?cols)) = in_key keys r" for r
    using assms(1) by (auto simp: key_of_def in_key_def excluded_bound bound_value_def)
  have "distinct (map (key_of keys) (fold ?step rs tb))"
    if "\<forall>r \<in> set rs. JNull \<notin> set (in_key keys r)" "distinct (map (key_of keys) tb)" for rs tb
    using that
  proof (induction rs arbitrary: tb)
    case (Cons r rs)
    have "distinct (map (key_of keys) (?step r tb))"
      using Cons.prems by (intro exec_upsert_distinct [OF _ disj]) (simp_all add: key)
    then show ?case using Cons by simp
  qed simp
  from this [OF assms(2,3)] show ?thesis
    using assms(3) by (simp add: upsert_def batch_values_def fold_map comp_def)
qed

text \<open>C19: the partial upsert.  Upserting rows with different, non-NULL keys changes exactly the table rows
  of those keys, creating the missing ones: afterwards the row of an input row \<open>r\<close> has, in every
  column that any row of the batch has (and in \<open>updated_at\<close>), the value of \<open>r\<close> -- NULL where
  \<open>r\<close> itself lacks the column -- and keeps its old value in all other columns.\<close>

theorem upsert_spec:
  assumes "''updated_at'' \<notin> set keys" and "distinct (map (in_key keys) rows)"
    and "\<forall>r \<in> set rows. JNull \<notin> set (in_key keys r)"
  shows "fst (upsert now keys rows tbl) = length rows
    \<and> find_key keys k (snd (upsert now keys rows tbl)) =
      (case find (\<lambda>r. in_key keys r = k) rows of
         None \<Rightarrow> find_key keys k tbl
       | Some r \<Rightarrow> Some (\<lambda>c. if c \<in> set (ordered_cols keys rows) then bound_value now r c
                            else case find_key keys k tbl of None \<Rightarrow> JNull | Some old \<Rightarrow> old c))"
  by (rule upsert_lookup [OF assms])

theorem upsert_spec_witness:
  "find_key [''ts''] [JStr ''t'']
     (snd (upsert ''now'' [''ts''] [[(''ts'', JStr ''t''), (''a'', JInt 1)], [(''ts'', JStr ''u''), (''b'', JInt 2)]]
        [\<lambda>c. if c = ''ts'' then JStr ''t'' else JInt 7])) \<noteq> None"
  using upsert_spec [of "[''ts'']" "[[(''ts'', JStr ''t''), (''a'', JInt 1)], [(''ts'', JStr ''u''), (''b'', JInt 2)]]"
      "''now''" "[\<lambda>c. if c = ''ts'' then JStr ''t'' else JInt 7]" "[JStr ''t'']"]
  by (simp add: in_key_def dget_or_def)

text \<open>lost columns.  Two rows of one batch with different columns: the stored value of a column that
  the first row does not mention is replaced by NULL, although only the second row sets it.\<close>

theorem upsert_overwrites_with_null:
  assumes "find_key [''k''] [JStr ''1''] tbl = Some old" and "old ''b'' \<noteq> JNull"
  shows "\<exists>new. find_key [''k''] [JStr ''1'']
      (snd (upsert now [''k''] [[(''k'', JStr ''1''), (''a'', JInt 1)], [(''k'', JStr ''2''), (''b'', JInt 2)]] tbl))
      = Some new \<and> new ''b'' = JNull"
  using upsert_lookup [of "[''k'']" "[[(''k'', JStr ''1''), (''a'', JInt 1)], [(''k'', JStr ''2''), (''b'', JInt 2)]]"
      now tbl "[JStr ''1'']"] assms
  by (simp add: in_key_def dget_or_def ordered_cols_set bound_value_def)

theorem upsert_overwrites_with_null_witness:
  "\<exists>new. find_key [''k''] [JStr ''1'']
      (snd (upsert ''now'' [''k''] [[(''k'', JStr ''1''), (''a'', JInt 1)], [(''k'', JStr ''2''), (''b'', JInt 2)]]
        [\<lambda>c. if c = ''k'' then JStr ''1'' else JInt 5])) = Some new \<and> new ''b'' = JNull"
  using upsert_overwrites_with_null [of "[\<lambda>c. if c = ''k'' then JStr ''1'' else JInt 5]"]
  by (simp add: find_key_def key_of_def)

section \<open>What a cleanup does\<close>

lemma clean_tables:
  "foldE (clean_table col cutoff) ts (db, res) = Inr (db', res') \<Longrightarrow> distinct ts \<Longrightarrow>
     (\<forall>t. dget db' t = (if t \<in> set ts then map_option (filter (\<lambda>r. \<not> older cutoff (r col))) (dget db t) else dget db t))
     \<and> (\<forall>t. dget res' t = (if t \<in> set ts
            then map_option (\<lambda>rows. int (length (filter (\<lambda>r. older cutoff (r col)) rows))) (dget db t) else dget res t))"
proof (induction ts arbitrary: db res)
  case (Cons t ts)
  from Cons.prems(1) obtain rows where rows: "dget db t = Some rows"
    and rest: "foldE (clean_table col cutoff) ts (dset t (filter (\<lambda>r. \<not> older cutoff (r col)) rows) db,
        dset t (int (length (filter (\<lambda>r. older cutoff (r col)) rows))) res) = Inr (db', res')"
  proof -
    from Cons.prems(1) obtain s where s: "clean_table col cutoff t (db, res) = Inr s"
      "foldE (clean_table col cutoff) ts s = Inr (db', res')" by (auto simp: res_simps)
    from s(1) obtain rows where "dget db t = Some rows" "s = (dset t (filter (\<lambda>r. \<not> older cutoff (r col)) rows) db,
        dset t (int (length (filter (\<lambda>r. older cutoff (r col)) rows))) res)"
      by (auto simp: clean_table_def split: option.splits)
    with s(2) that show ?thesis by blast
  qed
  from Cons.IH [OF rest] Cons.prems(2) rows show ?case by auto
qed simp

text \<open>retention.  A cleanup that succeeds removes from each time-keyed table it targets exactly the
  rows before the cutoff and reports how many, leaves every other table alone, and a second one with
  the same cutoff removes nothing.\<close>

theorem cleanup_spec:
  assumes "cleanup cutoff tables db = Inr (db', counts)"
  shows "\<forall>t rows. dget db t = Some rows \<longrightarrow>
     (let col = (if t \<in> set tables_with_window_start then ''window_start'' else ''ts'');
          target = (t \<in> set tables_with_window_start \<or> t \<in> set tables_with_ts)
                   \<and> (case tables of None \<Rightarrow> True | Some xs \<Rightarrow> t \<in> set xs)
      in dget db' t = Some (if target then filter (\<lambda>r. \<not> older cutoff (r col)) rows else rows)
       \<and> dget counts t = (if target then Some (int (length rows) - int (length (the (dget db' t)))) else None))"
proof (intro allI impI)
  fix t rows assume rows: "dget db t = Some rows"
  let ?pick = "\<lambda>ts. case tables of None \<Rightarrow> ts | Some xs \<Rightarrow> filter (\<lambda>t. t \<in> set xs) ts"
  have sets: "t \<in> set (?pick ts) \<longleftrightarrow> t \<in> set ts \<and> (case tables of None \<Rightarrow> True | Some xs \<Rightarrow> t \<in> set xs)" for ts
    by (cases tables) auto
  have d: "distinct (?pick tables_with_window_start)" "distinct (?pick tables_with_ts)"
    by (cases tables; simp add: tables_with_window_start_def tables_with_ts_def)+
  have disj: "set tables_with_window_start \<inter> set tables_with_ts = {}"
    by (simp add: tables_with_window_start_def tables_with_ts_def)
  from assms obtain db1 c1 where
    f1: "foldE (clean_table ''window_start'' cutoff) (?pick tables_with_window_start) (db, []) = Inr (db1, c1)"
    and f2: "foldE (clean_table ''ts'' cutoff) (?pick tables_with_ts) (db1, c1) = Inr (db', counts)"
    by (auto simp: cleanup_def Let_def res_simps)
  note t1 = clean_tables [OF f1 d(1)] and t2 = clean_tables [OF f2 d(2)]
  have len: "int (length xs) - int (length (filter (\<lambda>r. \<not> older cutoff (r col)) xs))
      = int (length (filter (\<lambda>r. older cutoff (r col)) xs))" for col and xs :: "db_row list"
    using sum_length_filter_compl [of "\<lambda>r. older cutoff (r col)" xs] by simp
  show "let col = (if t \<in> set tables_with_window_start then ''window_start'' else ''ts'');
          target = (t \<in> set tables_with_window_start \<or> t \<in> set tables_with_ts)
                   \<and> (case tables of None \<Rightarrow> True | Some xs \<Rightarrow> t \<in> set xs)
      in dget db' t = Some (if target then filter (\<lambda>r. \<not> older cutoff (r col)) rows else rows)
       \<and> dget counts t = (if target then Some (int (length rows) - int (length (the (dget db' t)))) else None)"
    using t1 t2 rows sets [of tables_with_window_start] sets [of tables_with_ts] disj len
    by (cases "t \<in> set tables_with_window_start"; cases "t \<in> set tables_with_ts") (auto simp: Let_def)
qed

theorem cleanup_spec_witness:
  "\<exists>db' counts. cleanup ''2026'' (Some [''alerts'']) [(''alerts'', [\<lambda>_. JStr ''2025'', \<lambda>_. JStr ''2027''])] = Inr (db', counts)
    \<and> dget counts ''alerts'' = Some 1"
proof -
  let ?db = "[(''alerts'', [\<lambda>_. JStr ''2025'', \<lambda>_. JStr ''2027''])] :: (string, db_row list) dict"
  have "\<exists>db' counts. cleanup ''2026'' (Some [''alerts'']) ?db = Inr (db', counts)"
    by (simp add: cleanup_def tables_with_window_start_def tables_with_ts_def clean_table_def)
  then obtain db' counts where run: "cleanup ''2026'' (Some [''alerts'']) ?db = Inr (db', counts)" by blast
  have lt: "older ''2026'' (JStr ''2025'')" "\<not> older ''2026'' (JStr ''2027'')" by code_simp+
  from cleanup_spec [OF run, rule_format, of "''alerts''"] run lt show ?thesis
    by (simp add: Let_def tables_with_ts_def tables_with_window_start_def)
qed

end
