(* ===== verification/Dispatcher.thy ===== *)
theory Dispatcher
  imports Prelude
begin

text \<open>
  The plugin registry (\<open>streaming/registry.py\<close>) and the micro-batch dispatcher and its
  bookkeeping (\<open>streaming/stream_app.py\<close>).

  A plugin is a name and a state. \<open>process name batch p\<close> is its \<open>process_batch\<close>: the new
  state, the rows it writes, and whether it raised (it keeps what it changed before).
\<close>

section \<open>Registry\<close>

type_synonym 'p registry = "(string, 'p) dict"

definition register :: "string \<Rightarrow> 'p \<Rightarrow> 'p registry \<Rightarrow> 'p registry" where
  "register name p reg = dset name p reg"

definition get_registered :: "string \<Rightarrow> 'p registry \<Rightarrow> 'p option" where
  "get_registered name reg = dget reg name"

text \<open>The names of the plugins to run: unknown names are skipped with a warning.\<close>

definition get_enabled :: "json \<Rightarrow> 'p registry \<Rightarrow> string list res" where
  "get_enabled cfg reg =
     bindE (jget_or cfg ''spark'' (JObj [])) (\<lambda>spark_cfg.
     bindE (jget_or spark_cfg ''plugins_enabled'' JNull) (\<lambda>names.
     if names = JNull then Inr (dkeys reg)
     else bindE (bindE (jlist names) (mapE jstring)) (\<lambda>ns.
          Inr (filter (\<lambda>n. n \<in> set (dkeys reg)) ns))))"

definition clear_registry :: "'p registry \<Rightarrow> 'p registry" where
  "clear_registry reg = []"

text \<open>\<open>init_storage\<close> registers the default plugins that are missing.\<close>

definition register_defaults :: "(string \<times> 'p) list \<Rightarrow> 'p registry \<Rightarrow> 'p registry" where
  "register_defaults defaults reg =
     fold (\<lambda>(name, p) r. if get_registered name r = None then register name p r else r) defaults reg"

definition default_plugins :: "string list" where
  "default_plugins = [''decay'', ''sampling'', ''moments'', ''fm'', ''counting_ones'', ''itemsets'']"

section \<open>Dispatcher\<close>

record ('p, 'w) app =
  registry :: "'p registry"
  consecutive_slow :: nat
  writes :: "'w list"

record health_row =
  h_ts :: string
  component :: string
  metric :: string
  h_value :: real

text \<open>The loop over the active plugins: an exception is counted and the loop goes on.\<close>

definition run_plugin ::
  "(string \<Rightarrow> 'batch \<Rightarrow> 'p \<Rightarrow> 'p \<times> 'w list \<times> bool) \<Rightarrow> 'batch \<Rightarrow> string \<Rightarrow> ('p, 'w) app \<times> nat
     \<Rightarrow> ('p, 'w) app \<times> nat" where
  "run_plugin process batch name s =
     (case s of (a, errors) \<Rightarrow>
      case dget (registry a) name of
        None \<Rightarrow> s
      | Some p \<Rightarrow>
          (case process name batch p of (p', ws, raised) \<Rightarrow>
             (a\<lparr>registry := dset name p' (registry a), writes := writes a @ ws\<rparr>,
              if raised then errors + 1 else errors)))"

definition batch_lag :: "real \<Rightarrow> nat \<Rightarrow> real option \<Rightarrow> real" where
  "batch_lag now n max_event_time =
     (if n > 0 then (case max_event_time of None \<Rightarrow> 0 | Some t \<Rightarrow> max 0 (now - t)) else 0)"

definition note_duration :: "real \<Rightarrow> real \<Rightarrow> ('p, 'w) app \<Rightarrow> ('p, 'w) app" where
  "note_duration trigger_s duration a =
     (if duration > trigger_s then a\<lparr>consecutive_slow := consecutive_slow a + 1\<rparr>
      else a\<lparr>consecutive_slow := 0\<rparr>)"

definition slow_warning :: "('p, 'w) app \<Rightarrow> bool" where
  "slow_warning a = (consecutive_slow a \<ge> 3)"

definition health_rows :: "string \<Rightarrow> real \<Rightarrow> nat \<Rightarrow> real \<Rightarrow> nat \<Rightarrow> health_row list" where
  "health_rows ts duration n lag errors =
     map (\<lambda>(m, v). \<lparr>h_ts = ts, component = ''spark_runner'', metric = m, h_value = v\<rparr>)
       [(''batch_duration_s'', duration), (''input_rows'', real n), (''lag_s'', lag),
        (''plugin_error'', real errors)]"

text \<open>
  \<open>dispatch_micro_batch\<close>: \<open>n\<close> rows, the latest event time (\<open>None\<close> if the column is
  missing or NULL), the clock at that point and the duration of the batch.
\<close>

definition dispatch ::
  "(string \<Rightarrow> 'batch \<Rightarrow> 'p \<Rightarrow> 'p \<times> 'w list \<times> bool) \<Rightarrow> json \<Rightarrow> real \<Rightarrow> string \<Rightarrow> real \<Rightarrow> real
     \<Rightarrow> nat \<Rightarrow> real option \<Rightarrow> 'batch \<Rightarrow> ('p, 'w) app \<Rightarrow> (('p, 'w) app \<times> health_row list) res" where
  "dispatch process cfg trigger_s ts now duration n max_event_time batch a =
     bindE (get_enabled cfg (registry a)) (\<lambda>active.
     let (a1, errors) = fold (run_plugin process batch) active (a, 0);
         a2 = note_duration trigger_s duration a1
     in Inr (a2, health_rows ts duration n (batch_lag now n max_event_time) errors))"

section \<open>Properties\<close>

lemma register_defaults_lookup:
  "wf_dict defaults \<Longrightarrow> dget (register_defaults defaults reg) name
   = (case dget reg name of Some p \<Rightarrow> Some p | None \<Rightarrow> dget defaults name)"
proof (induction defaults arbitrary: reg)
  case Nil
  then show ?case by (simp add: register_defaults_def split: option.split)
next
  case (Cons d ds)
  obtain n p where d: "d = (n, p)" by (cases d)
  let ?reg = "if get_registered n reg = None then register n p reg else reg"
  have "register_defaults (d # ds) reg = register_defaults ds ?reg"
    by (simp add: register_defaults_def d)
  moreover have "dget ds n = None" and "wf_dict ds"
    using Cons.prems by (simp_all add: d dget_None_iff)
  ultimately show ?case
    using Cons.IH [of ?reg] unfolding d
    by (cases "name = n"; cases "dget reg n") (simp_all add: register_def get_registered_def split: option.split)
qed

text \<open>registering the defaults keeps every plugin already registered, adds the missing ones, and a
  second time changes nothing.\<close>

theorem defaults_registered:
  assumes "wf_dict defaults"
  shows "dget (register_defaults defaults reg) name
       = (case dget reg name of Some p \<Rightarrow> Some p | None \<Rightarrow> dget defaults name)
    \<and> register_defaults defaults (register_defaults defaults reg) = register_defaults defaults reg"
proof
  have "\<forall>d \<in> set ds. dget r (fst d) \<noteq> None \<Longrightarrow> register_defaults ds r = r" for ds :: "(string \<times> 'a) list" and r
    by (induction ds) (auto simp: register_defaults_def get_registered_def)
  moreover have "\<forall>d \<in> set defaults. dget (register_defaults defaults reg) (fst d) \<noteq> None"
    using register_defaults_lookup [OF assms, of reg] assms by (auto split: option.split)
  ultimately show "register_defaults defaults (register_defaults defaults reg) = register_defaults defaults reg"
    by blast
qed (rule register_defaults_lookup [OF assms])

theorem defaults_registered_witness:
  "dget (register_defaults [(''fm'', 1 :: nat), (''decay'', 2)] [(''fm'', 7)]) ''fm'' = Some 7
   \<and> dget (register_defaults [(''fm'', 1 :: nat), (''decay'', 2)] [(''fm'', 7)]) ''decay'' = Some 2"
  using defaults_registered [of "[(''fm'', 1 :: nat), (''decay'', 2)]" "[(''fm'', 7)]" "''fm''"]
    defaults_registered [of "[(''fm'', 1 :: nat), (''decay'', 2)]" "[(''fm'', 7)]" "''decay''"]
  by simp

lemma run_plugins:
  assumes "distinct names" and "set names \<subseteq> set (dkeys (registry a))"
  shows "let (b, errs) = fold (run_plugin process batch) names (a, e);
             out = (\<lambda>n. process n batch (the (dget (registry a) n)))
         in (\<forall>n. dget (registry b) n = (if n \<in> set names then Some (fst (out n)) else dget (registry a) n))
          \<and> writes b = writes a @ concat (map (\<lambda>n. fst (snd (out n))) names)
          \<and> errs = e + length (filter (\<lambda>n. snd (snd (out n))) names)
          \<and> consecutive_slow b = consecutive_slow a"
  using assms
proof (induction names arbitrary: a e)
  case (Cons m names)
  then obtain p where p: "dget (registry a) m = Some p" using dget_None_iff [of "registry a" m] by auto
  obtain p' ws r where out: "process m batch p = (p', ws, r)" by (metis prod.exhaust)
  let ?a = "a\<lparr>registry := dset m p' (registry a), writes := writes a @ ws\<rparr>"
  let ?e = "if r then e + 1 else e"
  have sub: "set names \<subseteq> set (dkeys (registry ?a))"
    using Cons.prems(2) by (auto simp: dkeys_dset simp del: set_map)
  have step: "fold (run_plugin process batch) (m # names) (a, e) = fold (run_plugin process batch) names (?a, ?e)"
    by (simp add: run_plugin_def p out)
  have same: "the (dget (registry ?a) n) = the (dget (registry a) n)" if "n \<in> set names" for n
    using that Cons.prems(1) by auto
  obtain b errs where b: "fold (run_plugin process batch) names (?a, ?e) = (b, errs)" by fastforce
  let ?out = "\<lambda>n. process n batch (the (dget (registry a) n))"
  have IH: "\<forall>n. dget (registry b) n = (if n \<in> set names then Some (fst (process n batch (the (dget (registry ?a) n))))
        else dget (registry ?a) n)"
    "writes b = writes ?a @ concat (map (\<lambda>n. fst (snd (process n batch (the (dget (registry ?a) n))))) names)"
    "errs = ?e + length (filter (\<lambda>n. snd (snd (process n batch (the (dget (registry ?a) n))))) names)"
    "consecutive_slow b = consecutive_slow ?a"
    using Cons.IH [OF _ sub, of ?e] Cons.prems(1) b by simp_all
  have lists: "map (\<lambda>n. fst (snd (process n batch (the (dget (registry ?a) n))))) names = map (\<lambda>n. fst (snd (?out n))) names"
    "filter (\<lambda>n. snd (snd (process n batch (the (dget (registry ?a) n))))) names = filter (\<lambda>n. snd (snd (?out n))) names"
    using same by (simp_all cong: map_cong filter_cong del: dget_dset)
  have "dget (registry b) n = (if n \<in> set (m # names) then Some (fst (?out n)) else dget (registry a) n)" for n
  proof (cases "n \<in> set names")
    case True
    then show ?thesis using IH(1) same by simp
  next
    case False
    then show ?thesis using IH(1) p out by simp
  qed
  moreover have "writes b = writes a @ concat (map (\<lambda>n. fst (snd (?out n))) (m # names))"
    using IH(2) unfolding lists(1) by (simp add: p out)
  moreover have "errs = e + length (filter (\<lambda>n. snd (snd (?out n))) (m # names))"
    using IH(3) unfolding lists(2) by (simp add: p out)
  ultimately show ?case using IH(4) unfolding step b by simp
qed simp

text \<open>C25: isolation.  A batch is given to every enabled and registered plugin, in the order of the
  configuration and with the state it had, whichever of the others raise: every such plugin ends in
  the state its own handler gives it, every handler's rows are written, the other plugins are
  untouched, and the reported \<open>plugin_error\<close> is the number of handlers that raised.\<close>

theorem dispatch_isolates:
  assumes "get_enabled cfg (registry a) = Inr names" and "distinct names"
  shows "\<exists>a' rows. dispatch process cfg trigger_s ts now duration n met batch a = Inr (a', rows)
    \<and> (let out = (\<lambda>m. process m batch (the (dget (registry a) m)))
       in (\<forall>m. dget (registry a') m = (if m \<in> set names then Some (fst (out m)) else dget (registry a) m))
        \<and> writes a' = writes a @ concat (map (\<lambda>m. fst (snd (out m))) names)
        \<and> map h_value (filter (\<lambda>r. metric r = ''plugin_error'') rows)
          = [real (length (filter (\<lambda>m. snd (snd (out m))) names))])"
proof -
  have sub: "set names \<subseteq> set (dkeys (registry a))"
    using assms(1) by (auto simp: get_enabled_def res_simps split: if_splits)
  obtain b errs where b: "fold (run_plugin process batch) names (a, 0) = (b, errs)" by fastforce
  from run_plugins [OF assms(2) sub, of process batch 0] show ?thesis
    by (simp add: dispatch_def assms(1) b note_duration_def health_rows_def Let_def)
qed

theorem dispatch_isolates_witness:
  "\<exists>a' rows. dispatch (\<lambda>m b p. (p + b, [m], m = ''fm'')) (JObj []) 5 ''t'' 0 1 1 None (3 :: nat)
      \<lparr>registry = [(''fm'', 0), (''decay'', 1)], consecutive_slow = 0, writes = []\<rparr> = Inr (a', rows)
    \<and> dget (registry a') ''decay'' = Some 4 \<and> writes a' = [''fm'', ''decay'']"
  using dispatch_isolates [of "JObj []" "\<lparr>registry = [(''fm'', 0), (''decay'', 1 :: nat)], consecutive_slow = 0, writes = []\<rparr>"
      "[''fm'', ''decay'']" "\<lambda>m b p. (p + b, [m], m = ''fm'')" 5 "''t''" 0 1 1 None 3]
  by (simp add: get_enabled_def dget_or_def Let_def) (elim exE conjE, intro exI conjI, auto)

text \<open>slow batches.  After any batches the counter is the number of batches, counted back from the
  last one, that took longer than the trigger interval, so the warning is given exactly when the last
  three all did.\<close>

theorem slow_batches_counted:
  "let a' = fold (note_duration trigger_s) ds (a\<lparr>consecutive_slow := 0\<rparr>)
   in consecutive_slow a' = length (takeWhile (\<lambda>d. d > trigger_s) (rev ds))
    \<and> (slow_warning a' \<longleftrightarrow> 3 \<le> length ds \<and> (\<forall>d \<in> set (drop (length ds - 3) ds). d > trigger_s))"
proof -
  let ?a = "\<lambda>ds. fold (note_duration trigger_s) ds (a\<lparr>consecutive_slow := 0\<rparr>)"
  have c: "consecutive_slow (?a ds) = length (takeWhile (\<lambda>d. d > trigger_s) (rev ds))" for ds
    by (induction ds rule: rev_induct) (auto simp: note_duration_def)
  have tw: "3 \<le> length (takeWhile P xs) \<longleftrightarrow> 3 \<le> length xs \<and> (\<forall>x \<in> set (take 3 xs). P x)" for P and xs :: "real list"
  proof (cases xs)
    case (Cons x ys)
    then show ?thesis by (cases ys; cases "tl ys") auto
  qed simp
  have "set (take 3 (rev ds)) = set (drop (length ds - 3) ds)" by (simp add: take_rev)
  then show ?thesis using c tw [of "\<lambda>d. d > trigger_s" "rev ds"] by (simp add: slow_warning_def Let_def)
qed

theorem slow_batches_counted_witness:
  "consecutive_slow (fold (note_duration 5) [9, 1, 6, 7] (\<lparr>registry = [] :: nat registry, consecutive_slow = 4,
     writes = [] :: nat list\<rparr>\<lparr>consecutive_slow := 0\<rparr>)) = 2"
  using slow_batches_counted [of 5 "[9, 1, 6, 7]" "\<lparr>registry = [] :: nat registry, consecutive_slow = 4, writes = [] :: nat list\<rparr>"]
  by (simp add: Let_def)

end
