(* ===== verification/Filters.thy ===== *)
theory Filters
  imports Pytext
begin

text \<open>
  Named stream filters (\<open>streaming/analytics/filters.py\<close>): parsing of the configured
  specifications, their validation, and the lookup by name. Compiling an expression is Spark's;
  \<open>compiles e\<close> says whether it succeeds. \<open>other\<close> renders what \<open>str\<close> gives for a value
  that the text library does not render.
\<close>

record filter_spec =
  f_name :: string
  f_expr :: string

definition make_filter_spec :: "string \<Rightarrow> string \<Rightarrow> filter_spec res" where
  "make_filter_spec name expr =
     (if name = [] then Inl ValueError else if expr = [] then Inl ValueError
      else Inr \<lparr>f_name = name, f_expr = expr\<rparr>)"

definition quoted :: "string \<Rightarrow> string" where
  "quoted s = [CHR 0x27] @ s @ [CHR 0x27]"

definition default_filters :: "json list" where
  "default_filters =
     map (\<lambda>(n, e). JObj [(''name'', JStr n), (''expr'', JStr e)])
       [(''tcp_only'', ''protocol = '' @ quoted ''TCP''), (''udp_only'', ''protocol = '' @ quoted ''UDP''),
        (''web_traffic'', ''dst_port IN (80, 443)''), (''dns_traffic'', ''dst_port = 53''),
        (''large_packets'', ''packet_length > 1000'')]"

text \<open>\<open>int(x)\<close>, of a string too.\<close>

fun to_int :: "json \<Rightarrow> int res" where
  "to_int (JStr s) = (case py_int s of None \<Rightarrow> Inl ValueError | Some n \<Rightarrow> Inr n)"
| "to_int j = jint j"

definition criteria_expr :: "(json \<Rightarrow> string) \<Rightarrow> json \<Rightarrow> string res" where
  "criteria_expr other item =
     (if jhas item ''expr'' then bindE (jget item ''expr'') (\<lambda>v. Inr (py_str other v))
      else if jhas item ''dst_ports'' then
        bindE (jget item ''dst_ports'') (\<lambda>ports.
        case ports of
          JArr ps \<Rightarrow> bindE (mapE to_int ps) (\<lambda>ns. Inr (''dst_port IN ('' @ join '', '' (map int_str ns) @ '')''))
        | _ \<Rightarrow> bindE (to_int ports) (\<lambda>n. Inr (''dst_port = '' @ int_str n)))
      else if jhas item ''protocol'' then
        bindE (jget item ''protocol'') (\<lambda>v. Inr (''protocol = '' @ quoted (upper (strip (py_str other v)))))
      else if jhas item ''min_length'' then
        bindE (bindE (jget item ''min_length'') to_int) (\<lambda>n. Inr (''packet_length >= '' @ int_str n))
      else if jhas item ''src_ip'' then
        bindE (jget item ''src_ip'') (\<lambda>v. Inr (''src_ip = '' @ quoted (py_str other v)))
      else Inl ValueError)"

definition parse_filter_item :: "(json \<Rightarrow> string) \<Rightarrow> json \<Rightarrow> filter_spec res" where
  "parse_filter_item other item =
     (case item of
        JObj kvs \<Rightarrow>
          (let name = dget_or kvs ''name'' JNull
           in if \<not> jtruthy name then Inl ValueError
              else bindE (criteria_expr other item) (make_filter_spec (py_str other name)))
      | _ \<Rightarrow> Inl TypeError)"

definition filter_list :: "json \<Rightarrow> json res" where
  "filter_list cfg =
     (case cfg of
        JObj kvs \<Rightarrow>
          (case dget kvs ''spark'' of
             Some (JObj sp) \<Rightarrow> Inr (dget_or sp ''filters'' (JArr []))
           | _ \<Rightarrow> Inr (dget_or kvs ''filters'' (JArr [])))
      | JArr xs \<Rightarrow> Inr (JArr xs)
      | _ \<Rightarrow> Inr (JArr []))"

definition parse_filters :: "(json \<Rightarrow> string) \<Rightarrow> json \<Rightarrow> filter_spec list res" where
  "parse_filters other cfg =
     bindE (filter_list cfg) (\<lambda>l.
     bindE (jlist (if jtruthy l then l else JArr default_filters)) (mapE (parse_filter_item other)))"

definition validate_filters :: "(string \<Rightarrow> bool) \<Rightarrow> filter_spec list \<Rightarrow> unit res" where
  "validate_filters compiles fs = foldE (\<lambda>f _. if compiles (f_expr f) then Inr () else Inl ValueError) fs ()"

text \<open>The expression that \<open>apply_filter\<close> filters with, for a filter given by name.\<close>

definition apply_filter_expr :: "(json \<Rightarrow> string) \<Rightarrow> string \<Rightarrow> filter_spec list \<Rightarrow> string res" where
  "apply_filter_expr other name fs =
     (case find (\<lambda>f. f_name f = name) fs of
        Some f \<Rightarrow> Inr (f_expr f)
      | None \<Rightarrow>
          bindE (parse_filters other (JArr default_filters)) (\<lambda>ds.
          case find (\<lambda>f. f_name f = name) ds of Some f \<Rightarrow> Inr (f_expr f) | None \<Rightarrow> Inl KeyError))"

section \<open>Properties\<close>

lemma make_filter_spec_ok: "make_filter_spec n e = Inr f \<Longrightarrow> f_name f = n \<and> n \<noteq> [] \<and> f_expr f = e \<and> e \<noteq> []"
  by (auto simp: make_filter_spec_def split: if_splits)

lemma default_specs: "mapE (parse_filter_item other) default_filters
  = Inr (map (\<lambda>(n, e). \<lparr>f_name = n, f_expr = e\<rparr>)
      [(''tcp_only'', ''protocol = '' @ quoted ''TCP''), (''udp_only'', ''protocol = '' @ quoted ''UDP''),
        (''web_traffic'', ''dst_port IN (80, 443)''), (''dns_traffic'', ''dst_port = 53''),
        (''large_packets'', ''packet_length > 1000'')])"
  by (simp add: default_filters_def parse_filter_item_def criteria_expr_def dget_or_def dlookup_def
      py_str.simps make_filter_spec_def)

text \<open>filter parsing.  A configuration that parses yields one specification per configured item, in
  order (the five defaults when nothing is configured), with the item's name and a non-empty name and
  expression each; looking a configured name up finds the first specification of that name, and the
  default names are found even when the configuration lacks them.\<close>

theorem parse_filters_spec:
  assumes "parse_filters other cfg = Inr fs" and "filter_list cfg = Inr (JArr xs)"
  shows "length fs = (if xs = [] then 5 else length xs)
    \<and> (\<forall>f \<in> set fs. f_name f \<noteq> [] \<and> f_expr f \<noteq> [])
    \<and> (\<forall>i < length xs. \<exists>kvs. xs ! i = JObj kvs \<and> f_name (fs ! i) = py_str other (dget_or kvs ''name'' JNull))
    \<and> (\<forall>f. find (\<lambda>f. f_name f = name) fs = Some f \<longrightarrow> apply_filter_expr other name fs = Inr (f_expr f))
    \<and> (find (\<lambda>f. f_name f = ''dns_traffic'') fs = None \<longrightarrow>
         apply_filter_expr other ''dns_traffic'' fs = Inr ''dst_port = 53'')"
proof -
  let ?ys = "if xs = [] then default_filters else xs"
  have run: "mapE (parse_filter_item other) ?ys = Inr fs"
    using assms by (auto simp: parse_filters_def split: if_splits)
  have item: "\<exists>kvs. x = JObj kvs \<and> f_name f = py_str other (dget_or kvs ''name'' JNull)
      \<and> f_name f \<noteq> [] \<and> f_expr f \<noteq> []" if "parse_filter_item other x = Inr f" for x f
    using that by (auto simp: parse_filter_item_def res_simps Let_def dest!: make_filter_spec_ok
        split: json.splits if_splits)
  have len: "length fs = length ?ys" using mapE_length [OF run] .
  have nth: "mapE g as = Inr bs \<Longrightarrow> i < length as \<Longrightarrow> g (as ! i) = Inr (bs ! i)" for g and as :: "json list" and bs :: "filter_spec list" and i
  proof (induction as arbitrary: bs i)
    case (Cons a as)
    then show ?case by (cases i) (auto simp: res_simps)
  qed simp
  have "\<exists>kvs. xs ! i = JObj kvs \<and> f_name (fs ! i) = py_str other (dget_or kvs ''name'' JNull)" if "i < length xs" for i
  proof -
    have "?ys = xs" using that by auto
    then show ?thesis using item [OF nth [OF run, of i]] that by simp blast
  qed
  moreover have "f_name f \<noteq> [] \<and> f_expr f \<noteq> []" if "f \<in> set fs" for f
    using mapE_in [OF run that] item by blast
  moreover have "apply_filter_expr other ''dns_traffic'' fs = Inr ''dst_port = 53''"
    if "find (\<lambda>f. f_name f = ''dns_traffic'') fs = None"
  proof -
    have "default_filters \<noteq> []" by (simp add: default_filters_def)
    then show ?thesis using that default_specs [of other]
      by (simp add: apply_filter_expr_def parse_filters_def filter_list_def)
  qed
  moreover have "length default_filters = 5" by (simp add: default_filters_def)
  ultimately show ?thesis using len by (auto simp: apply_filter_expr_def)
qed

theorem parse_filters_spec_witness:
  "\<exists>fs. parse_filters (\<lambda>_. []) (JObj [(''filters'', JArr [JObj [(''name'', JStr ''gw''), (''src_ip'', JStr ''10.0.0.1'')]])]) = Inr fs
    \<and> length fs = 1 \<and> apply_filter_expr (\<lambda>_. []) ''dns_traffic'' fs = Inr ''dst_port = 53''"
proof -
  let ?cfg = "JObj [(''filters'', JArr [JObj [(''name'', JStr ''gw''), (''src_ip'', JStr ''10.0.0.1'')]])]"
  have p: "parse_filters (\<lambda>_. []) ?cfg = Inr [\<lparr>f_name = ''gw'', f_expr = ''src_ip = '' @ quoted ''10.0.0.1''\<rparr>]"
    by (simp add: parse_filters_def filter_list_def dget_or_def parse_filter_item_def criteria_expr_def
        dlookup_def py_str.simps make_filter_spec_def)
  from parse_filters_spec [OF p, where name = "''dns_traffic''"] p show ?thesis
    by (simp add: filter_list_def dget_or_def)
qed

end
