(* ===== verification/Pydate.thy ===== *)
theory Pydate
  imports Pytext
begin

text \<open>
  The parts of Python's \<open>datetime\<close> and \<open>float\<close> that the capture layer relies on: the
  proleptic Gregorian calendar as \<open>datetime\<close> computes it, \<open>fromtimestamp(..., tz=utc)\<close>,
  \<open>strptime\<close> and \<open>strftime\<close> for the format \<open>%Y-%m-%d %H:%M:%S\<close>, and \<open>float(s)\<close> of a
  string. A float is a real, an infinity or a NaN.
\<close>

section \<open>Floats from text\<close>

datatype pyfloat = Fin real | PosInf | NegInf | NaN

text \<open>\<open>digits [. digits] [e [sign] digits]\<close>, where one of the two digit parts may be missing.\<close>

definition exponent_part :: "string \<Rightarrow> int option" where
  "exponent_part s =
     (let (neg, ds) = split_sign s
      in map_option (\<lambda>x. if neg then - int (digits_val x) else int (digits_val x)) (digit_part ds))"

definition mantissa_part :: "string \<Rightarrow> real option" where
  "mantissa_part s =
     (case split_on (CHR ''.'') s of
        [a] \<Rightarrow> map_option (\<lambda>x. real (digits_val x)) (digit_part a)
      | [a, b] \<Rightarrow>
          (if a = [] \<and> b = [] then None
           else Option.bind (if a = [] then Some [] else digit_part a) (\<lambda>x.
                Option.bind (if b = [] then Some [] else digit_part b) (\<lambda>y.
                Some (real (digits_val x) + real (digits_val y) / 10 ^ length y))))
      | _ \<Rightarrow> None)"

definition decimal_part :: "string \<Rightarrow> real option" where
  "decimal_part s =
     (case split_on (CHR ''e'') s of
        [m] \<Rightarrow> mantissa_part m
      | [m, e] \<Rightarrow> Option.bind (mantissa_part m) (\<lambda>x. map_option (\<lambda>k. x * 10 powi k) (exponent_part e))
      | _ \<Rightarrow> None)"

definition py_float :: "string \<Rightarrow> pyfloat option" where
  "py_float s =
     (let (neg, body) = split_sign (lower (strip s))
      in if body = ''inf'' \<or> body = ''infinity'' then Some (if neg then NegInf else PosInf)
         else if body = ''nan'' then Some NaN
         else map_option (\<lambda>x. Fin (if neg then - x else x)) (decimal_part body))"

text \<open>\<open>x < 0.0\<close> and \<open>x * 1000.0\<close>\<close>

fun fl_neg :: "pyfloat \<Rightarrow> bool" where
  "fl_neg (Fin x) = (x < 0)"
| "fl_neg NegInf = True"
| "fl_neg _ = False"

fun fl_scale :: "real \<Rightarrow> pyfloat \<Rightarrow> pyfloat" where
  "fl_scale c (Fin x) = Fin (x * c)"
| "fl_scale c y = y"

lemma py_float_int: "py_float (nat_str n) = Some (Fin (real n))"
proof -
  have d: "nat_str n \<noteq> []" "\<forall>c \<in> set (nat_str n). is_digit c" "digits_val (nat_str n) = n"
    using nat_str_props by auto
  have plain: "to_lower c = c \<and> c \<noteq> CHR ''e'' \<and> c \<noteq> CHR ''i'' \<and> c \<noteq> CHR ''n''" if "is_digit c" for c
    using that by (auto simp: is_digit_def to_lower_def is_upper_def Let_def)
  have low: "lower (nat_str n) = nat_str n" using d(2) plain by (simp add: map_idI)
  have st: "strip (nat_str n) = nat_str n" using d is_digit_plain(6) by (intro strip_id) auto
  obtain c cs where c: "nat_str n = c # cs" "is_digit c" using d(1,2) by (cases "nat_str n") auto
  then have sg: "split_sign (nat_str n) = (False, nat_str n)"
    using is_digit_plain(2,3) by (auto simp: split_sign_def)
  have "c \<noteq> CHR ''i''" "c \<noteq> CHR ''n''" using plain [OF c(2)] by auto
  then have body: "nat_str n \<noteq> ''inf''" "nat_str n \<noteq> ''infinity''" "nat_str n \<noteq> ''nan''" using c(1) by auto
  have "CHR ''e'' \<notin> set (nat_str n)" "CHR ''.'' \<notin> set (nat_str n)" using d(2) plain is_digit_plain(5) by blast+
  then have "decimal_part (nat_str n) = Some (real n)"
    using d digit_part_digits by (simp add: decimal_part_def mantissa_part_def split_on_single)
  then show ?thesis using body by (simp add: py_float_def st low sg)
qed

section \<open>The calendar\<close>

definition is_leap :: "int \<Rightarrow> bool" where
  "is_leap y \<longleftrightarrow> y mod 4 = 0 \<and> (y mod 100 \<noteq> 0 \<or> y mod 400 = 0)"

definition month_lengths :: "bool \<Rightarrow> int list" where
  "month_lengths leap = [31, if leap then 29 else 28, 31, 30, 31, 30, 31, 31, 30, 31, 30, 31]"

definition days_in_month :: "int \<Rightarrow> int \<Rightarrow> int" where
  "days_in_month y m = (if 1 \<le> m \<and> m \<le> 12 then month_lengths (is_leap y) ! nat (m - 1) else 0)"

definition days_before_month :: "int \<Rightarrow> int \<Rightarrow> int" where
  "days_before_month y m = sum_list (take (nat (m - 1)) (month_lengths (is_leap y)))"

definition days_before_year :: "int \<Rightarrow> int" where
  "days_before_year y = (y - 1) * 365 + (y - 1) div 4 - (y - 1) div 100 + (y - 1) div 400"

definition ymd2ord :: "int \<Rightarrow> int \<Rightarrow> int \<Rightarrow> int" where
  "ymd2ord y m d = days_before_year y + days_before_month y m + d"

text \<open>The month and day of a day of the year, counted from 0.\<close>

fun month_day :: "int list \<Rightarrow> int \<Rightarrow> int \<Rightarrow> int \<times> int" where
  "month_day [] m n = (m, n + 1)"
| "month_day (l # ls) m n = (if n < l then (m, n + 1) else month_day ls (m + 1) (n - l))"

definition ord2ymd :: "int \<Rightarrow> int \<times> int \<times> int" where
  "ord2ymd ord =
     (let n = ord - 1;
          n400 = n div 146097; r = n mod 146097;
          n100 = r div 36524; r2 = r mod 36524;
          n4 = r2 div 1461; r3 = r2 mod 1461;
          n1 = r3 div 365; r4 = r3 mod 365;
          year = n400 * 400 + 1 + n100 * 100 + n4 * 4 + n1
      in if n1 = 4 \<or> n100 = 4 then (year - 1, 12, 31)
         else (year, month_day (month_lengths (is_leap year)) 1 r4))"

lemma month_day_spec:
  assumes "0 \<le> n" and "n < sum_list ls" and "\<forall>l \<in> set ls. 0 \<le> l" and "month_day ls m n = (m', d)"
  shows "m \<le> m' \<and> m' < m + int (length ls) \<and> 1 \<le> d \<and> d \<le> ls ! nat (m' - m)
     \<and> n = sum_list (take (nat (m' - m)) ls) + d - 1"
  using assms
proof (induction ls arbitrary: m n)
  case (Cons l ls)
  show ?case
  proof (cases "n < l")
    case False
    with Cons.prems have h: "m + 1 \<le> m' \<and> m' < m + 1 + int (length ls) \<and> 1 \<le> d \<and> d \<le> ls ! nat (m' - (m + 1))
        \<and> n - l = sum_list (take (nat (m' - (m + 1))) ls) + d - 1"
      by (intro Cons.IH) auto
    then have "nat (m' - m) = Suc (nat (m' - (m + 1)))" by linarith
    with h show ?thesis by auto
  qed (use Cons.prems in auto)
qed simp

lemma month_lengths_simps [simp]:
  "length (month_lengths b) = 12" "sum_list (month_lengths b) = (if b then 366 else 365)"
  "\<forall>l \<in> set (month_lengths b). 0 \<le> l"
  by (simp_all add: month_lengths_def)


text \<open>The year of a day number: the four divisions leave a day within the year found.\<close>

lemma ord2ymd_year:
  assumes "1 \<le> ord"
  obtains y r where "0 \<le> r" "r < (if is_leap y then 366 else 365)" "ord = days_before_year y + r + 1" "1 \<le> y"
    "ord2ymd ord = (y, month_day (month_lengths (is_leap y)) 1 r)"
proof -
  define n where "n = ord - 1"
  define a where "a = n div 146097"
  define r1 where "r1 = n mod 146097"
  define b where "b = r1 div 36524"
  define r2 where "r2 = r1 mod 36524"
  define c where "c = r2 div 1461"
  define r3 where "r3 = r2 mod 1461"
  define d where "d = r3 div 365"
  define r4 where "r4 = r3 mod 365"
  have n: "n = 146097 * a + r1" "0 \<le> a" "0 \<le> r1" "r1 < 146097"
    using assms by (simp_all add: a_def r1_def n_def pos_imp_zdiv_nonneg_iff)
  have b: "r1 = 36524 * b + r2" "0 \<le> b" "b \<le> 4" "0 \<le> r2" "r2 < 36524"
    using n unfolding b_def r2_def by (simp_all add: pos_imp_zdiv_nonneg_iff)
  have c: "r2 = 1461 * c + r3" "0 \<le> c" "c \<le> 24" "0 \<le> r3" "r3 < 1461"
    using b unfolding c_def r3_def by (simp_all add: pos_imp_zdiv_nonneg_iff)
  have d: "r3 = 365 * d + r4" "0 \<le> d" "d \<le> 4" "0 \<le> r4" "r4 < 365"
    using c unfolding d_def r4_def by (simp_all add: pos_imp_zdiv_nonneg_iff)
  have def_eq: "ord2ymd ord = (if d = 4 \<or> b = 4 then (a * 400 + 1 + b * 100 + c * 4 + d - 1, 12, 31)
      else (a * 400 + 1 + b * 100 + c * 4 + d, month_day (month_lengths (is_leap (a * 400 + 1 + b * 100 + c * 4 + d))) 1 r4))"
    by (simp add: ord2ymd_def n_def a_def r1_def b_def r2_def c_def r3_def d_def r4_def Let_def)
  have divs: "(400 * a + 100 * b + 4 * c + e) div 4 = 100 * a + 25 * b + c"
    "(400 * a + 100 * b + 4 * c + e) div 100 = 4 * a + b" "(400 * a + 100 * b + 4 * c + e) div 400 = a"
    if e: "0 \<le> e" "e \<le> 3" "b \<le> 3" for e
  proof -
    have l: "4 * c + e < 100" "0 \<le> 4 * c + e" "100 * b + 4 * c + e < 400" "0 \<le> 100 * b + 4 * c + e"
      using e b(2) c(2,3) by linarith+
    show "(400 * a + 100 * b + 4 * c + e) div 4 = 100 * a + 25 * b + c" using e by (intro int_div_pos_eq [of _ 4 _ e]) auto
    show "(400 * a + 100 * b + 4 * c + e) div 100 = 4 * a + b" using l by (intro int_div_pos_eq [of _ 100 _ "4 * c + e"]) auto
    show "(400 * a + 100 * b + 4 * c + e) div 400 = a" using l by (intro int_div_pos_eq [of _ 400 _ "100 * b + 4 * c + e"]) auto
  qed
  have dby: "days_before_year (a * 400 + 1 + b * 100 + c * 4 + e) = 146097 * a + 36524 * b + 1461 * c + 365 * e"
    if "0 \<le> e" "e \<le> 3" "b \<le> 3" for e
    using divs [OF that]
    by (simp add: days_before_year_def algebra_simps)
  have last: "month_day (month_lengths True) 1 365 = (12, 31)" by (simp add: month_lengths_def)
  show thesis
  proof (cases "d = 4 \<or> b = 4")
    case False
    then have e: "0 \<le> d" "d \<le> 3" "b \<le> 3" using b d by auto
    show thesis
    proof (rule that [of r4 "a * 400 + 1 + b * 100 + c * 4 + d"])
      show "ord = days_before_year (a * 400 + 1 + b * 100 + c * 4 + d) + r4 + 1"
        using dby [OF e] n(1) b(1) c(1) d(1) n_def by linarith
      show "ord2ymd ord = (a * 400 + 1 + b * 100 + c * 4 + d,
          month_day (month_lengths (is_leap (a * 400 + 1 + b * 100 + c * 4 + d))) 1 r4)"
        using False def_eq by simp
      show "r4 < (if is_leap (a * 400 + 1 + b * 100 + c * 4 + d) then 366 else 365)" using d(5) by simp
    qed (use d n(2) b(2) c(2) in auto)
  next
    case four: True
    show thesis
    proof (cases "b = 4")
      case True
      then have z: "r2 = 0" using b n by linarith
      then have c0: "c = 0" "r3 = 0" using c(1,2,4) by linarith+
      then have z': "c = 0" "d = 0" "r4 = 0" using d(1,2,4) by linarith+
      let ?y = "a * 400 + 400"
      have "?y mod 4 = 0" by (rule int_mod_pos_eq [of _ 4 "100 * a + 100"]) auto
      moreover have "?y mod 400 = 0" by (rule int_mod_pos_eq [of _ 400 "a + 1"]) auto
      ultimately have leap: "is_leap ?y" by (simp add: is_leap_def)
      have dv: "(400 * a + 399) div 4 = 100 * a + 99" "(400 * a + 399) div 100 = 4 * a + 3" "(400 * a + 399) div 400 = a"
        by (rule int_div_pos_eq [where r = 3] int_div_pos_eq [where r = 99] int_div_pos_eq [where r = 399]; simp)+
      have db: "days_before_year ?y = 146097 * a + 145731"
        using dv by (simp add: days_before_year_def algebra_simps)
      show thesis
      proof (rule that [of 365 ?y])
        show "ord = days_before_year ?y + 365 + 1" using db n(1) b(1) z True n_def by linarith
        show "ord2ymd ord = (?y, month_day (month_lengths (is_leap ?y)) 1 365)"
          using def_eq True z' leap last by simp
      qed (use leap n(2) in auto)
    next
      case False
      with four have d4: "d = 4" "b \<le> 3" using b by auto
      have r3: "r3 = 1460" "r4 = 0" using d4 d c by linarith+
      let ?y = "a * 400 + b * 100 + c * 4 + 4"
      have "c \<le> 23" using r3 c b by linarith
      then have "?y mod 100 = 4 * c + 4" using c(2) by (intro int_mod_pos_eq [of _ 100 "4 * a + b"]) auto
      moreover have "?y mod 4 = 0" by (rule int_mod_pos_eq [of _ 4 "100 * a + 25 * b + c + 1"]) auto
      ultimately have leap: "is_leap ?y" using c(2) by (simp add: is_leap_def)
      have db: "days_before_year ?y = 146097 * a + 36524 * b + 1461 * c + 365 * 3"
        using dby [of 3] d4(2) by (simp add: algebra_simps)
      show thesis
      proof (rule that [of 365 ?y])
        show "ord = days_before_year ?y + 365 + 1" using db n(1) b(1) c(1) r3 n_def by linarith
        show "ord2ymd ord = (?y, month_day (month_lengths (is_leap ?y)) 1 365)"
          using def_eq d4 leap last by (simp add: algebra_simps)
      qed (use leap n(2) b(2) c(2) in auto)
    qed
  qed
qed

lemma ord2ymd_spec:
  assumes "1 \<le> ord" and "ord2ymd ord = (y, m, d)"
  shows "1 \<le> y" "1 \<le> m" "m \<le> 12" "1 \<le> d" "d \<le> days_in_month y m" "ymd2ord y m d = ord"
proof -
  obtain y' r where r: "0 \<le> r" "r < (if is_leap y' then 366 else 365)" "ord = days_before_year y' + r + 1"
    "1 \<le> y'" "ord2ymd ord = (y', month_day (month_lengths (is_leap y')) 1 r)"
    using ord2ymd_year [OF assms(1)] .
  with assms(2) have y: "y' = y" and md: "month_day (month_lengths (is_leap y)) 1 r = (m, d)" by auto
  from month_day_spec [OF r(1) _ _ md] r(2) y
  have s: "1 \<le> m \<and> m < 13 \<and> 1 \<le> d \<and> d \<le> month_lengths (is_leap y) ! nat (m - 1)
      \<and> r = sum_list (take (nat (m - 1)) (month_lengths (is_leap y))) + d - 1"
    by (simp split: if_splits)
  then show "1 \<le> y" "1 \<le> m" "m \<le> 12" "1 \<le> d" "d \<le> days_in_month y m" "ymd2ord y m d = ord"
    using r(3,4) y by (auto simp: days_in_month_def ymd2ord_def days_before_month_def)
qed

section \<open>Instants and their text\<close>

record datetime =
  dt_year :: int
  dt_month :: int
  dt_day :: int
  dt_hour :: int
  dt_minute :: int
  dt_second :: int
  dt_micro :: int

definition valid_datetime :: "datetime \<Rightarrow> bool" where
  "valid_datetime t \<longleftrightarrow> 1 \<le> dt_year t \<and> dt_year t \<le> 9999 \<and> 1 \<le> dt_month t \<and> dt_month t \<le> 12
     \<and> 1 \<le> dt_day t \<and> dt_day t \<le> days_in_month (dt_year t) (dt_month t)
     \<and> 0 \<le> dt_hour t \<and> dt_hour t < 24 \<and> 0 \<le> dt_minute t \<and> dt_minute t < 60
     \<and> 0 \<le> dt_second t \<and> dt_second t < 60 \<and> 0 \<le> dt_micro t \<and> dt_micro t < 1000000"

text \<open>The ordinal of 1 January 1970 and of 31 December 9999.\<close>

definition epoch_ordinal :: int where "epoch_ordinal = 719163"
definition max_ordinal :: int where "max_ordinal = 3652059"

text \<open>The instant \<open>us\<close> microseconds after the epoch; the years 1 to 9999 exist.\<close>

definition of_micros :: "int \<Rightarrow> datetime res" where
  "of_micros us =
     (let secs = us div 1000000; ord = secs div 86400 + epoch_ordinal; sod = secs mod 86400
      in if 1 \<le> ord \<and> ord \<le> max_ordinal
         then case ord2ymd ord of (y, m, d) \<Rightarrow>
                Inr \<lparr>dt_year = y, dt_month = m, dt_day = d, dt_hour = sod div 3600,
                     dt_minute = sod mod 3600 div 60, dt_second = sod mod 60, dt_micro = us mod 1000000\<rparr>
         else Inl ValueError)"

text \<open>\<open>datetime.fromtimestamp(t, tz=timezone.utc)\<close> rounds to microseconds, ties to even.\<close>

definition from_timestamp :: "real \<Rightarrow> datetime res" where
  "from_timestamp t = of_micros (round_half_even (t * 1000000))"

fun from_pyfloat :: "pyfloat \<Rightarrow> datetime res" where
  "from_pyfloat (Fin t) = from_timestamp t"
| "from_pyfloat _ = Inl ValueError"

text \<open>\<open>dt.timestamp()\<close> of an aware UTC instant, in microseconds.\<close>

definition to_micros :: "datetime \<Rightarrow> int" where
  "to_micros t =
     (((ymd2ord (dt_year t) (dt_month t) (dt_day t) - epoch_ordinal) * 86400
        + dt_hour t * 3600 + dt_minute t * 60 + dt_second t) * 1000000 + dt_micro t)"

lemma of_micros_spec:
  assumes "of_micros us = Inr t"
  shows "to_micros t = us" and "1 \<le> dt_year t" "1 \<le> dt_month t" "dt_month t \<le> 12"
    "1 \<le> dt_day t" "dt_day t \<le> days_in_month (dt_year t) (dt_month t)"
    "0 \<le> dt_hour t" "dt_hour t < 24" "0 \<le> dt_minute t" "dt_minute t < 60"
    "0 \<le> dt_second t" "dt_second t < 60" "0 \<le> dt_micro t" "dt_micro t < 1000000"
proof -
  define secs where "secs = us div 1000000"
  define ord where "ord = secs div 86400 + epoch_ordinal"
  define sod where "sod = secs mod 86400"
  obtain y m d where ymd: "ord2ymd ord = (y, m, d)" by (cases "ord2ymd ord")
  have ok: "1 \<le> ord" and t: "t = \<lparr>dt_year = y, dt_month = m, dt_day = d, dt_hour = sod div 3600,
      dt_minute = sod mod 3600 div 60, dt_second = sod mod 60, dt_micro = us mod 1000000\<rparr>"
    using assms ymd by (auto simp: of_micros_def secs_def ord_def sod_def Let_def split: if_splits)
  note c = ord2ymd_spec [OF ok ymd]
  have sod: "0 \<le> sod" "sod < 86400" by (simp_all add: sod_def)
  have "sod mod 3600 mod 60 = sod mod 60" by (rule mod_mod_cancel) simp
  then have "sod div 3600 * 3600 + sod mod 3600 div 60 * 60 + sod mod 60 = sod"
    using div_mult_mod_eq [of sod 3600] div_mult_mod_eq [of "sod mod 3600" 60] by linarith
  then have "to_micros t = ((ord - epoch_ordinal) * 86400 + sod) * 1000000 + us mod 1000000"
    using c(6) by (simp add: to_micros_def t)
  also have "(ord - epoch_ordinal) * 86400 + sod = secs" by (simp add: ord_def sod_def)
  finally show "to_micros t = us" by (simp add: secs_def)
  define h mi sec us' where hms: "h = sod div 3600" "mi = sod mod 3600 div 60" "sec = sod mod 60" "us' = us mod 1000000"
  have "0 \<le> h" "h < 24" "0 \<le> mi" "mi < 60" "0 \<le> sec" "sec < 60" "0 \<le> us'" "us' < 1000000"
    using sod by (simp_all add: hms pos_imp_zdiv_nonneg_iff)
  with c show "1 \<le> dt_year t" "1 \<le> dt_month t" "dt_month t \<le> 12"
    "1 \<le> dt_day t" "dt_day t \<le> days_in_month (dt_year t) (dt_month t)"
    "0 \<le> dt_hour t" "dt_hour t < 24" "0 \<le> dt_minute t" "dt_minute t < 60"
    "0 \<le> dt_second t" "dt_second t < 60" "0 \<le> dt_micro t" "dt_micro t < 1000000"
    unfolding t hms [symmetric] by simp_all
qed

text \<open>Zero padding, and \<open>strftime\<close>; the C library does not pad the year.\<close>

definition pad :: "nat \<Rightarrow> int \<Rightarrow> string" where
  "pad w k = replicate (w - length (int_str k)) (CHR ''0'') @ int_str k"

definition strftime_seconds :: "datetime \<Rightarrow> string" where
  "strftime_seconds t =
     int_str (dt_year t) @ ''-'' @ pad 2 (dt_month t) @ ''-'' @ pad 2 (dt_day t) @ '' ''
       @ pad 2 (dt_hour t) @ '':'' @ pad 2 (dt_minute t) @ '':'' @ pad 2 (dt_second t)"

text \<open>\<open>strptime(s, "%Y-%m-%d %H:%M:%S")\<close>: each field is a run of one or two digits (four for the
  year) in its range, a day may be one digit after a space, and the space matches any
  whitespace. The seconds 60 and 61 match but make no \<open>datetime\<close>.\<close>

definition digits_field :: "int \<Rightarrow> int \<Rightarrow> string \<Rightarrow> int option" where
  "digits_field lo hi s =
     (if (length s = 1 \<or> length s = 2) \<and> (\<forall>c \<in> set s. is_digit c)
         \<and> lo \<le> int (digits_val s) \<and> int (digits_val s) \<le> hi
      then Some (int (digits_val s)) else None)"

definition year_field :: "string \<Rightarrow> int option" where
  "year_field s = (if length s = 4 \<and> (\<forall>c \<in> set s. is_digit c) then Some (int (digits_val s)) else None)"

definition day_field :: "string \<Rightarrow> int option" where
  "day_field s =
     (case s of [] \<Rightarrow> None
      | c # cs \<Rightarrow> if c = CHR '' '' then (if length cs = 1 then digits_field 1 9 cs else None) else digits_field 1 31 s)"

text \<open>The day text ends at the first whitespace after its first character.\<close>

definition split_day :: "string \<Rightarrow> (string \<times> string) option" where
  "split_day s =
     (case s of [] \<Rightarrow> None
      | c # cs \<Rightarrow>
          (let day = takeWhile (\<lambda>x. \<not> is_space x) cs; rest = dropWhile (\<lambda>x. \<not> is_space x) cs
           in if rest = [] then None else Some (c # day, dropWhile is_space rest)))"

definition strptime_seconds :: "string \<Rightarrow> datetime option" where
  "strptime_seconds s =
     (case split_on (CHR ''-'') s of
        [ys, ms, rest] \<Rightarrow>
          Option.bind (split_day rest) (\<lambda>(ds, time).
          case split_on (CHR '':'') time of
            [hs, mis, ss] \<Rightarrow>
              Option.bind (year_field ys) (\<lambda>y. Option.bind (digits_field 1 12 ms) (\<lambda>m.
              Option.bind (day_field ds) (\<lambda>d. Option.bind (digits_field 0 23 hs) (\<lambda>h.
              Option.bind (digits_field 0 59 mis) (\<lambda>mi. Option.bind (digits_field 0 61 ss) (\<lambda>sec.
              let t = \<lparr>dt_year = y, dt_month = m, dt_day = d, dt_hour = h, dt_minute = mi, dt_second = sec, dt_micro = 0\<rparr>
              in if valid_datetime t then Some t else None))))))
          | _ \<Rightarrow> None)
      | _ \<Rightarrow> None)"

section \<open>Reading back what was formatted\<close>

lemma length_nat_str: "1 \<le> w \<Longrightarrow> n < 10 ^ w \<Longrightarrow> length (nat_str n) \<le> w"
proof (induction n arbitrary: w rule: nat_str.induct)
  case (1 n)
  show ?case
  proof (cases "n < 10")
    case False
    then obtain v where v: "w = Suc v" "1 \<le> v" using 1(2,3) by (cases w; cases "w - 1") auto
    then have "n div 10 < 10 ^ v" using 1(3) by (simp add: less_mult_imp_div_less mult.commute)
    then have "length (nat_str (n div 10)) \<le> v" using 1(1) [OF False v(2)] by simp
    then show ?thesis using False v(1) by (subst nat_str.simps) simp
  qed (use 1(2) in \<open>subst nat_str.simps, simp\<close>)
qed

lemma nat_str_len4: "1000 \<le> n \<Longrightarrow> n < 10000 \<Longrightarrow> length (nat_str n) = 4"
proof -
  assume n: "1000 \<le> n" "n < 10000"
  have "length (nat_str n) \<le> 4" using n by (intro length_nat_str) auto
  moreover have "digits_val s < 10 ^ length s" if "\<forall>c \<in> set s. is_digit c" for s
    using that
  proof (induction s rule: rev_induct)
    case (snoc c s)
    have "digit_val c < 10" using snoc.prems by (auto simp: digit_val_def is_digit_def Let_def)
    with snoc show ?case by (simp add: digits_val_snoc)
  qed (simp add: digits_val_def)
  then have "n < 10 ^ length (nat_str n)" using nat_str_props [of n] by metis
  then have "3 < length (nat_str n)"
  proof -
    have "\<not> length (nat_str n) \<le> 3"
    proof
      assume "length (nat_str n) \<le> 3"
      then have "(10::nat) ^ length (nat_str n) \<le> 10 ^ 3" by (intro power_increasing) auto
      with \<open>n < 10 ^ length (nat_str n)\<close> n show False by simp
    qed
    then show ?thesis by simp
  qed
  ultimately show ?thesis by simp
qed

lemma digits_val_zeros: "digits_val (replicate m (CHR ''0'') @ s) = digits_val s"
  by (induction m) (auto simp: digits_val_def digit_val_def)

lemma pad_spec:
  assumes "1 \<le> w" and "0 \<le> k" and "k < 10 ^ w"
  shows "length (pad w k) = w" "\<forall>c \<in> set (pad w k). is_digit c" "int (digits_val (pad w k)) = k"
proof -
  have "nat k < 10 ^ w" using assms(2,3) by (simp add: nat_less_iff)
  then have l: "length (int_str k) \<le> w" using length_nat_str [OF assms(1)] assms(2) by (simp add: int_str_def)
  then show "length (pad w k) = w" by (simp add: pad_def)
  show "\<forall>c \<in> set (pad w k). is_digit c"
    using nat_str_props assms(2) by (auto simp: pad_def int_str_def is_digit_def [of "CHR ''0''"])
  show "int (digits_val (pad w k)) = k"
    using nat_str_props assms(2) by (simp add: pad_def int_str_def digits_val_zeros)
qed

lemma digits_field_pad:
  "0 \<le> lo \<Longrightarrow> lo \<le> k \<Longrightarrow> k \<le> hi \<Longrightarrow> hi < 100 \<Longrightarrow> digits_field lo hi (pad 2 k) = Some k"
  using pad_spec [of 2 k] by (simp add: digits_field_def)

lemma digits_not:
  assumes "\<forall>c \<in> set s. is_digit c"
  shows "CHR ''-'' \<notin> set s" "CHR '':'' \<notin> set s" "CHR '' '' \<notin> set s" "CHR ''.'' \<notin> set s"
    "CHR '','' \<notin> set s" "\<forall>c \<in> set s. \<not> is_space c" "\<forall>c \<in> set s. \<not> is_crlf c"
  using assms by (auto dest: is_digit_plain)

lemma split3: "c \<notin> set p \<Longrightarrow> c \<notin> set q \<Longrightarrow> c \<notin> set r \<Longrightarrow> split_on c (p @ [c] @ q @ [c] @ r) = [p, q, r]"
  by (simp add: split_on_append split_on_single)

text \<open>Formatting a valid instant from the year 1000 on and parsing it gives its whole seconds back.\<close>

lemma strptime_strftime:
  assumes "valid_datetime t" and "1000 \<le> dt_year t"
  shows "strptime_seconds (strftime_seconds t) = Some (t\<lparr>dt_micro := 0\<rparr>)"
proof -
  let ?y = "int_str (dt_year t)" and ?mo = "pad 2 (dt_month t)" and ?d = "pad 2 (dt_day t)"
    and ?h = "pad 2 (dt_hour t)" and ?mi = "pad 2 (dt_minute t)" and ?s = "pad 2 (dt_second t)"
  have dim: "days_in_month a b \<le> 31" for a b
  proof (cases "1 \<le> b \<and> b \<le> 12")
    case True
    then have "nat (b - 1) < 12" by linarith
    then have "month_lengths (is_leap a) ! nat (b - 1) \<in> set (month_lengths (is_leap a))" by simp
    then show ?thesis using True by (auto simp: days_in_month_def month_lengths_def split: if_splits)
  qed (auto simp: days_in_month_def)
  note v = assms(1)[unfolded valid_datetime_def]
  have "dt_day t \<le> 31" using v dim [of "dt_year t" "dt_month t"] by linarith
  have y: "length ?y = 4" "\<forall>c \<in> set ?y. is_digit c" "int (digits_val ?y) = dt_year t"
    using v assms(2) nat_str_len4 [of "nat (dt_year t)"] nat_str_props [of "nat (dt_year t)"]
    by (simp_all add: int_str_def le_nat_iff nat_less_iff)
  have f: "digits_field 1 12 ?mo = Some (dt_month t)" "digits_field 1 31 ?d = Some (dt_day t)"
    "digits_field 0 23 ?h = Some (dt_hour t)" "digits_field 0 59 ?mi = Some (dt_minute t)"
    "digits_field 0 61 ?s = Some (dt_second t)"
    using v \<open>dt_day t \<le> 31\<close> by (simp_all add: digits_field_pad)
  have dg: "\<forall>c \<in> set ?mo. is_digit c" "\<forall>c \<in> set ?d. is_digit c" "\<forall>c \<in> set ?h. is_digit c"
    "\<forall>c \<in> set ?mi. is_digit c" "\<forall>c \<in> set ?s. is_digit c"
    using f by (auto simp: digits_field_def split: if_splits)
  have ln: "length ?d = 2" using v \<open>dt_day t \<le> 31\<close> by (simp add: pad_spec(1))
  then obtain c cs where d: "?d = c # cs" "is_digit c" "\<forall>x \<in> set cs. is_digit x" using dg(2) by (cases ?d) auto
  let ?time = "?h @ [CHR '':''] @ ?mi @ [CHR '':''] @ ?s"
  have nodash: "CHR ''-'' \<notin> set (?d @ '' '' @ ?time)" using digits_not(1) dg by auto
  have "split_on (CHR ''-'') (strftime_seconds t) = [?y, ?mo, ?d @ '' '' @ ?time]"
    using split3 [OF digits_not(1) [OF y(2)] digits_not(1) [OF dg(1)] nodash] by (simp add: strftime_seconds_def)
  moreover have "takeWhile (\<lambda>x. \<not> is_space x) (cs @ '' '' @ ?time) = cs"
    "dropWhile (\<lambda>x. \<not> is_space x) (cs @ '' '' @ ?time) = '' '' @ ?time"
    using digits_not(6) [OF d(3)] by (auto simp: is_space_def [of "CHR '' ''"])
  moreover obtain h hs where h: "?h = h # hs" "is_digit h" using v pad_spec(1) [of 2 "dt_hour t"] dg(3) by (cases ?h) auto
  ultimately have parts: "split_day (?d @ '' '' @ ?time) = Some (?d, ?time)"
    using is_digit_plain(6) [OF h(2)] by (simp add: split_day_def d(1) Let_def is_space_def [of "CHR '' ''"])
  have time: "split_on (CHR '':'') ?time = [?h, ?mi, ?s]" using split3 digits_not(2) dg by metis
  have day: "day_field ?d = Some (dt_day t)" using f(2) d is_digit_plain(8) by (simp add: day_field_def)
  have "year_field ?y = Some (dt_year t)" using y by (simp add: year_field_def)
  then show ?thesis
    using \<open>split_on (CHR ''-'') (strftime_seconds t) = _\<close> parts time day f assms(1)
    by (simp add: strptime_seconds_def valid_datetime_def)
qed


lemma py_int_pad:
  assumes "1 \<le> w" and "0 \<le> k" and "k < 10 ^ w"
  shows "py_int (pad w k) = Some k"
proof -
  note p = pad_spec [OF assms]
  have ne: "pad w k \<noteq> []" using p(1) assms(1) by auto
  then obtain c cs where c: "pad w k = c # cs" by (cases "pad w k") auto
  have "strip (pad w k) = pad w k" using digits_not(6) [OF p(2)] ne by (intro strip_id) simp
  then show ?thesis
    using c p(2,3) digit_part_digits [OF ne p(2)] is_digit_plain(2,3) [of c]
    by (auto simp: py_int_def split_sign_def)
qed

text \<open>The instants up to the ordinal of 31 December 9999 have years up to 9999.\<close>

lemma days_before_year_10000: "10000 \<le> y \<Longrightarrow> max_ordinal \<le> days_before_year y"
proof -
  assume y: "10000 \<le> y"
  define z where "z = y - 1"
  have "z * 365 + 2424 \<le> days_before_year y"
  proof -
    have "2499 \<le> z div 4" "z div 100 * 25 \<le> z div 4" "z div 400 * 4 \<le> z div 100" "z div 100 \<le> z div 400 * 4 + 3"
      "99 \<le> z div 100" "24 \<le> z div 400" "z div 4 - z div 100 + z div 400 \<ge> 2424"
      using y unfolding z_def by linarith+
    then show ?thesis by (simp add: days_before_year_def z_def [symmetric])
  qed
  then show ?thesis using y by (simp add: max_ordinal_def z_def)
qed

lemma of_micros_valid:
  assumes "of_micros us = Inr t"
  shows "valid_datetime t"
proof -
  define ord where "ord = us div 1000000 div 86400 + epoch_ordinal"
  obtain y m d where ymd: "ord2ymd ord = (y, m, d)" by (cases "ord2ymd ord")
  have o: "1 \<le> ord" "ord \<le> max_ordinal" "dt_year t = y"
    using assms ymd by (auto simp: of_micros_def ord_def Let_def split: if_splits)
  note c = ord2ymd_spec [OF o(1) ymd]
  have "0 \<le> month_lengths b ! i" if "i < 12" for b i
  proof -
    have "month_lengths b ! i \<in> set (month_lengths b)" using that by simp
    then show ?thesis by (auto simp: month_lengths_def split: if_splits)
  qed
  then have "0 \<le> days_before_month y m"
    unfolding days_before_month_def by (intro sum_list_nonneg) (auto simp: month_lengths_def dest!: in_set_takeD split: if_splits)
  then have "days_before_year y < max_ordinal" using c(4,6) o(2) by (simp add: ymd2ord_def)
  then have "y \<le> 9999" using days_before_year_10000 [of y] by linarith
  then show ?thesis using of_micros_spec [OF assms] o(3) by (simp add: valid_datetime_def)
qed

text \<open>Every calendar date has an ordinal in range.\<close>

lemma day_of_year_bound:
  assumes "1 \<le> m" "m \<le> 12" "d \<le> days_in_month y m"
  shows "0 \<le> days_before_month y m" "days_before_month y m + d \<le> (if is_leap y then 366 else 365)"
proof -
  let ?ml = "month_lengths (is_leap y)" and ?i = "nat (m - 1)"
  have nn: "\<forall>x \<in> set ?ml. 0 \<le> x" by (auto simp: month_lengths_def)
  show "0 \<le> days_before_month y m"
    unfolding days_before_month_def using nn by (intro sum_list_nonneg) (auto dest!: in_set_takeD)
  have i: "?i < length ?ml" using assms by simp
  have "sum_list ?ml = sum_list (take ?i ?ml) + ?ml ! ?i + sum_list (drop (Suc ?i) ?ml)"
    using arg_cong [OF id_take_nth_drop [OF i], of sum_list] by simp
  moreover have "0 \<le> sum_list (drop (Suc ?i) ?ml)" using nn by (intro sum_list_nonneg) (auto dest!: in_set_dropD)
  moreover have "d \<le> ?ml ! ?i" using assms by (simp add: days_in_month_def)
  ultimately have "days_before_month y m + d \<le> sum_list ?ml" unfolding days_before_month_def by linarith
  then show "days_before_month y m + d \<le> (if is_leap y then 366 else 365)" by simp
qed

lemma ymd2ord_range:
  assumes "1 \<le> y" "y \<le> 9999" "1 \<le> m" "m \<le> 12" "1 \<le> d" "d \<le> days_in_month y m"
  shows "1 \<le> ymd2ord y m d" "ymd2ord y m d \<le> max_ordinal"
proof -
  note b = day_of_year_bound [OF assms(3,4,6)]
  define z where "z = y - 1"
  have z: "0 \<le> z" "z \<le> 9998" using assms by (simp_all add: z_def)
  have "z div 100 \<le> z div 4" "0 \<le> z div 400" using z by linarith+
  then have "0 \<le> days_before_year y" using z by (simp add: days_before_year_def z_def [symmetric])
  then show "1 \<le> ymd2ord y m d" using b(1) assms(5) by (simp add: ymd2ord_def)
  have "z div 4 \<le> 25 * (z div 100) + 24" "z div 100 \<le> 99" "z div 400 \<le> 24" using z by linarith+
  then have dby: "days_before_year y \<le> z * 365 + 2424" by (simp add: days_before_year_def z_def [symmetric])
  show "ymd2ord y m d \<le> max_ordinal"
  proof (cases "y = 9999")
    case True
    have "\<not> is_leap 9999" by (simp add: is_leap_def)
    then show ?thesis using True b(2) dby by (simp add: ymd2ord_def max_ordinal_def z_def)
  next
    case False
    then have "z \<le> 9997" using assms(2) by (simp add: z_def)
    moreover have "days_before_month y m + d \<le> 366" using b(2) by (simp split: if_splits)
    ultimately show ?thesis using dby by (simp add: ymd2ord_def max_ordinal_def)
  qed
qed

end
