(* ===== verification/Net_Address.thy ===== *)
theory Net_Address
  imports Pytext
begin

text \<open>
  IP addresses as Python's \<open>ipaddress\<close> reads and prints them. An IPv4 address is four
  octets, an IPv6 address eight 16-bit groups and possibly a scope. \<open>ip_address s\<close> is
  \<open>ipaddress.ip_address(s)\<close> (\<open>None\<close>: \<open>ValueError\<close>) and \<open>ip_str\<close> is \<open>str(ip)\<close>.
\<close>

datatype ip = V4 int int int int | V6 "int list" "string option"

section \<open>IPv4\<close>

text \<open>An octet has one to three digits, no leading zero, and is at most 255.\<close>

definition parse_octet :: "string \<Rightarrow> int option" where
  "parse_octet s =
     (if s = [] \<or> \<not> list_all is_digit s \<or> 3 < length s \<or> (s \<noteq> ''0'' \<and> hd s = CHR ''0'') \<or> 255 < digits_val s
      then None else Some (int (digits_val s)))"

definition parse_ipv4 :: "string \<Rightarrow> ip option" where
  "parse_ipv4 s =
     (case map parse_octet (split_on (CHR ''.'') s) of
        [Some a, Some b, Some c, Some d] \<Rightarrow> Some (V4 a b c d)
      | _ \<Rightarrow> None)"

section \<open>IPv6\<close>

definition hex_digit :: "char \<Rightarrow> nat option" where
  "hex_digit c =
     (let n = of_char c :: nat
      in if 48 \<le> n \<and> n \<le> 57 then Some (n - 48)
         else if 97 \<le> n \<and> n \<le> 102 then Some (n - 87)
         else if 65 \<le> n \<and> n \<le> 70 then Some (n - 55) else None)"

definition is_hex :: "char \<Rightarrow> bool" where
  "is_hex c \<longleftrightarrow> hex_digit c \<noteq> None"

definition hex_val :: "string \<Rightarrow> nat" where
  "hex_val s = foldl (\<lambda>a c. 16 * a + the (hex_digit c)) 0 s"

definition hex_char :: "nat \<Rightarrow> char" where
  "hex_char d = char_of (if d < 10 then 48 + d else 87 + d)"

text \<open>A byte as two hexadecimal digits.\<close>

definition hex2 :: "nat \<Rightarrow> string" where
  "hex2 k = [hex_char (k div 16), hex_char (k mod 16)]"

fun hex_str :: "nat \<Rightarrow> string" where
  "hex_str n = (if n < 16 then [hex_char n] else hex_str (n div 16) @ [hex_char (n mod 16)])"

declare hex_str.simps [simp del]

definition parse_hextet :: "string \<Rightarrow> int option" where
  "parse_hextet s = (if s \<noteq> [] \<and> list_all is_hex s \<and> length s \<le> 4 then Some (int (hex_val s)) else None)"

text \<open>All the values of a list, if every one is there.\<close>

fun the_all :: "'a option list \<Rightarrow> 'a list option" where
  "the_all [] = Some []"
| "the_all (None # xs) = None"
| "the_all (Some x # xs) = map_option ((#) x) (the_all xs)"

text \<open>A dotted tail such as \<open>::ffff:1.2.3.4\<close> becomes two groups.\<close>

definition expand_v4_tail :: "string list \<Rightarrow> string list option" where
  "expand_v4_tail parts =
     (if CHR ''.'' \<in> set (last parts)
      then case parse_ipv4 (last parts) of
             Some (V4 a b c d) \<Rightarrow> Some (butlast parts @ [hex_str (nat (a * 256 + b)), hex_str (nat (c * 256 + d))])
           | _ \<Rightarrow> None
      else Some parts)"

text \<open>The positions of the empty groups strictly inside the list.\<close>

definition inner_gaps :: "string list \<Rightarrow> nat list" where
  "inner_gaps parts = filter (\<lambda>i. parts ! i = []) [1..<length parts - 1]"

definition parse_groups :: "string list \<Rightarrow> int list option" where
  "parse_groups parts =
     (case inner_gaps parts of
        [] \<Rightarrow>
          (if length parts = 8 \<and> hd parts \<noteq> [] \<and> last parts \<noteq> []
           then the_all (map parse_hextet parts) else None)
      | [i] \<Rightarrow>
          (let lead = (hd parts = []); trail = (last parts = []);
               hi = (if lead then i - 1 else i);
               lo = (if trail then length parts - i - 1 - 1 else length parts - i - 1)
           in if (lead \<and> hi \<noteq> 0) \<or> (trail \<and> lo \<noteq> 0) \<or> 8 < hi + lo + 1 then None
              else Option.bind (the_all (map parse_hextet (take hi parts))) (\<lambda>h.
                   Option.bind (the_all (map parse_hextet (drop (length parts - lo) parts))) (\<lambda>l.
                   Some (h @ replicate (8 - (hi + lo)) 0 @ l))))
      | _ \<Rightarrow> None)"

text \<open>\<open>addr%scope\<close>: the scope is not empty and holds no further \<open>%\<close>.\<close>

definition split_scope :: "string \<Rightarrow> (string \<times> string option) option" where
  "split_scope s =
     (case split_on (CHR ''%'') s of
        [a] \<Rightarrow> Some (a, None)
      | [a, sc] \<Rightarrow> if sc = [] then None else Some (a, Some sc)
      | _ \<Rightarrow> None)"

definition parse_ipv6 :: "string \<Rightarrow> ip option" where
  "parse_ipv6 s =
     (if CHR ''/'' \<in> set s then None
      else Option.bind (split_scope s) (\<lambda>(a, sc).
           let parts = split_on (CHR '':'') a
           in if length parts < 3 then None
              else Option.bind (expand_v4_tail parts) (\<lambda>ps.
                   if 9 < length ps then None else map_option (\<lambda>g. V6 g sc) (parse_groups ps))))"

definition ip_address :: "string \<Rightarrow> ip option" where
  "ip_address s = (case parse_ipv4 s of Some a \<Rightarrow> Some a | None \<Rightarrow> parse_ipv6 s)"

section \<open>Printing\<close>

text \<open>The longest run of zero groups, the first of them on a tie: its start and length.\<close>

fun best_run :: "string list \<Rightarrow> nat \<Rightarrow> nat \<Rightarrow> nat \<times> nat \<Rightarrow> nat \<times> nat" where
  "best_run [] i len best = best"
| "best_run (h # hs) i len best =
     (if h = ''0''
      then best_run hs (i + 1) (len + 1) (if snd best < len + 1 then (i - len, len + 1) else best)
      else best_run hs (i + 1) 0 best)"

definition compress_hextets :: "string list \<Rightarrow> string list" where
  "compress_hextets hs =
     (let (start, len) = best_run hs 0 0 (0, 0)
      in if 1 < len
         then (if start = 0 then [[]] else []) @ take start hs @ [[]] @ drop (start + len) hs
                @ (if start + len = length hs then [[]] else [])
         else hs)"

fun ip_str :: "ip \<Rightarrow> string" where
  "ip_str (V4 a b c d) = join ''.'' [int_str a, int_str b, int_str c, int_str d]"
| "ip_str (V6 gs sc) =
     join '':'' (compress_hextets (map (\<lambda>g. hex_str (nat g)) gs))
       @ (case sc of None \<Rightarrow> [] | Some s \<Rightarrow> ''%'' @ s)"

section \<open>Printed addresses are read back\<close>

definition wf_ip :: "ip \<Rightarrow> bool" where
  "wf_ip x = (case x of
     V4 a b c d \<Rightarrow> \<forall>k \<in> {a, b, c, d}. 0 \<le> k \<and> k \<le> 255
   | V6 gs sc \<Rightarrow> length gs = 8 \<and> (\<forall>g \<in> set gs. 0 \<le> g \<and> g < 65536))"

lemma nat_str_3: "n < 1000 \<Longrightarrow> length (nat_str n) \<le> 3"
  by (subst nat_str.simps, (subst nat_str.simps)?, (subst nat_str.simps)?) auto

lemma hd_nat_str: "0 < n \<Longrightarrow> hd (nat_str n) \<noteq> CHR ''0''"
proof (induction n rule: nat_str.induct)
  case (1 n)
  show ?case
  proof (cases "n < 10")
    case True
    have "of_char (digit_char n) = (48 + n :: nat)" using True by (simp add: digit_char_def)
    then have "digit_char n \<noteq> CHR ''0''" using 1(2) by auto
    then show ?thesis using True by (subst nat_str.simps) simp
  next
    case False
    then have "0 < n div 10" by simp
    with 1(1) False have "hd (nat_str (n div 10)) \<noteq> CHR ''0''" by simp
    then show ?thesis using False nat_str_props [of "n div 10"] by (subst nat_str.simps) (simp add: hd_append)
  qed
qed

lemma parse_octet_str:
  assumes "0 \<le> k" and "k \<le> 255"
  shows "parse_octet (int_str k) = Some k"
proof -
  have "int_str k = ''0'' \<or> hd (int_str k) \<noteq> CHR ''0''"
    using assms(1) hd_nat_str [of "nat k"] by (cases "k = 0") (auto simp: int_str_def nat_str.simps digit_char_def)
  moreover have "int_str k \<noteq> []" "list_all is_digit (int_str k)" "length (int_str k) \<le> 3" "digits_val (int_str k) = nat k"
    using assms nat_str_props [of "nat k"] nat_str_3 [of "nat k"] by (simp_all add: int_str_def list_all_iff)
  ultimately show ?thesis using assms by (auto simp: parse_octet_def)
qed

lemma int_str_no:
  assumes "0 \<le> k"
  shows "CHR ''.'' \<notin> set (int_str k)" "CHR '':'' \<notin> set (int_str k)" "CHR '','' \<notin> set (int_str k)"
  using assms nat_str_props [of "nat k"] by (auto simp: int_str_def dest: is_digit_plain)

lemma parse_ipv4_str: "wf_ip (V4 a b c d) \<Longrightarrow> parse_ipv4 (ip_str (V4 a b c d)) = Some (V4 a b c d)"
  by (simp add: parse_ipv4_def wf_ip_def split_join parse_octet_str int_str_no del: join.simps)

lemma ip_address_v4_str: "wf_ip (V4 a b c d) \<Longrightarrow> ip_address (ip_str (V4 a b c d)) = Some (V4 a b c d)"
  using parse_ipv4_str by (simp add: ip_address_def del: ip_str.simps)

lemma parse_octet_range: "parse_octet s = Some k \<Longrightarrow> 0 \<le> k \<and> k \<le> 255"
  by (auto simp: parse_octet_def split: if_splits)

text \<open>Parsed addresses are well formed, and printing adds no character but digits and separators.\<close>

lemma the_all_set: "the_all xs = Some ys \<Longrightarrow> y \<in> set ys \<Longrightarrow> Some y \<in> set xs"
  by (induction xs arbitrary: ys rule: the_all.induct) auto

lemma join_chars: "set (join sep ps) \<subseteq> set sep \<union> \<Union> (set ` set ps)"
  by (induction sep ps rule: join.induct) auto

lemma hex_char_plain: "d < 16 \<Longrightarrow> is_digit (hex_char d) \<or> is_lower (hex_char d)"
  by (auto simp: hex_char_def is_digit_def is_lower_def Let_def)

lemma hex_str_chars: "c \<in> set (hex_str n) \<Longrightarrow> is_digit c \<or> is_lower c"
proof (induction n rule: hex_str.induct)
  case (1 n)
  then show ?case
    using hex_char_plain [of "n mod 16"] by (cases "n < 16") (auto simp: hex_str.simps [of n] dest: hex_char_plain)
qed

lemma compress_subset: "set (compress_hextets hs) \<subseteq> insert [] (set hs)"
  using set_take_subset [of _ hs] set_drop_subset [of _ hs]
  by (auto simp: compress_hextets_def Let_def split: prod.splits if_splits dest: in_set_takeD in_set_dropD)

lemma parse_ipv4_cases:
  "parse_ipv4 s = Some x \<Longrightarrow> \<exists>a b c d. x = V4 a b c d \<and> wf_ip x"
  by (auto simp: parse_ipv4_def wf_ip_def map_eq_Cons_conv dest!: parse_octet_range split: list.splits option.splits)

lemma split_scope_subset: "split_scope s = Some (a, Some sc) \<Longrightarrow> set sc \<subseteq> set s"
proof -
  assume "split_scope s = Some (a, Some sc)"
  then have "sc \<in> set (split_on (CHR ''%'') s)"
    by (auto simp: split_scope_def split: list.splits if_splits)
  then show ?thesis by (rule split_on_chars)
qed

lemma ip_str_chars:
  assumes "ip_address s = Some x" and "ch \<in> set (ip_str x)"
  shows "ch \<in> set s \<or> is_digit ch \<or> is_lower ch \<or> ch \<in> {CHR ''.'', CHR '':'', CHR ''%''}"
proof (cases x)
  case (V4 a b c d)
  then have "parse_ipv4 s = Some x" using assms(1)
    by (auto simp: ip_address_def parse_ipv6_def Let_def split: option.splits bind_splits if_splits)
  then have "wf_ip (V4 a b c d)" using parse_ipv4_cases V4 by blast
  then have "\<forall>k \<in> {a, b, c, d}. \<forall>ch \<in> set (int_str k). is_digit ch"
    using nat_str_props by (auto simp: wf_ip_def int_str_def)
  moreover have "ch \<in> {CHR ''.''} \<union> \<Union> (set ` {int_str a, int_str b, int_str c, int_str d})"
    using assms(2) join_chars [of "''.''" "[int_str a, int_str b, int_str c, int_str d]"] V4
    by (auto simp del: join.simps)
  ultimately show ?thesis by auto
next
  case (V6 gs sc)
  then have "parse_ipv6 s = Some (V6 gs sc)" using assms(1) parse_ipv4_cases [of s]
    by (auto simp: ip_address_def split: option.splits)
  then obtain a where "split_scope s = Some (a, sc)"
    by (auto simp: parse_ipv6_def Let_def split: bind_splits if_splits)
  then have scope: "sc = Some t \<Longrightarrow> set t \<subseteq> set s" for t using split_scope_subset by blast
  let ?hs = "map (\<lambda>g. hex_str (nat g)) gs"
  have "set (join '':'' (compress_hextets ?hs)) \<subseteq> {CHR '':''} \<union> \<Union> (set ` set ?hs)"
    using join_chars [of "'':''" "compress_hextets ?hs"] compress_subset [of ?hs] by fastforce
  then have "ch \<in> set (join '':'' (compress_hextets ?hs)) \<Longrightarrow> ?thesis" using hex_str_chars by fastforce
  moreover have "ch \<in> set (join '':'' (compress_hextets ?hs)) \<or> ch = CHR ''%'' \<or> (\<exists>t. sc = Some t \<and> ch \<in> set t)"
    using assms(2) V6 by (auto split: option.splits)
  ultimately show ?thesis using scope by blast
qed

end
