(* ===== verification/Contract.thy ===== *)
theory Contract
  imports Pydate Net_Address
begin

text \<open>
  The data contract of a traffic record (\<open>contracts/record_schema.py\<close>): its eleven fields,
  the CSV line of a record, its parsing, and the validation of a row. A field value is
  \<open>None\<close>, a string, an int or a float; \<open>show\<close> is \<open>repr\<close> of a finite float.
\<close>

section \<open>Fields\<close>

record field_spec =
  fs_name :: string
  fs_type :: string
  fs_nullable :: bool
  fs_description :: string

definition fields :: "field_spec list" where
  "fields = map (\<lambda>(n, t, nu, d). \<lparr>fs_name = n, fs_type = t, fs_nullable = nu, fs_description = d\<rparr>)
     [(''timestamp'', ''string'', False, ''UTC YYYY-MM-DD HH:MM:SS.mmm''),
      (''src_ip'', ''string'', False, ''Source IPv4/IPv6''),
      (''dst_ip'', ''string'', False, ''Destination IPv4/IPv6''),
      (''src_port'', ''int'', True, ''Source Port 0-65535''),
      (''dst_port'', ''int'', True, ''Destination Port 0-65535''),
      (''protocol'', ''string'', False, ''TCP, UDP, ICMP, or OTHER''),
      (''packet_length'', ''int'', False, ''Frame length in bytes (1-65535)''),
      (''src_mac'', ''string'', True, ''Source MAC address''),
      (''dst_mac'', ''string'', True, ''Destination MAC address''),
      (''tcp_flags'', ''string'', True, ''TCP flags hex string e.g. 0x0018''),
      (''iat_ms'', ''double'', True, ''Inter-arrival time since last packet in ms'')]"

definition field_names :: "string list" where
  "field_names = map fs_name fields"

definition num_fields :: nat where "num_fields = length fields"

definition allowed_protocols :: "string list" where
  "allowed_protocols = [''TCP'', ''UDP'', ''ICMP'', ''OTHER'']"

lemma field_names_simps [simp]: "length field_names = 11" "num_fields = 11" "distinct field_names"
  by (simp_all add: field_names_def fields_def num_fields_def)

text \<open>\<open>to_spark_schema(nullable_all)\<close>: column, Spark type, nullable.\<close>

definition to_spark_schema :: "bool \<Rightarrow> (string \<times> string \<times> bool) list" where
  "to_spark_schema nullable_all =
     [(''timestamp'', ''StringType'', nullable_all), (''src_ip'', ''StringType'', nullable_all),
      (''dst_ip'', ''StringType'', nullable_all), (''src_port'', ''IntegerType'', True),
      (''dst_port'', ''IntegerType'', True), (''protocol'', ''StringType'', nullable_all),
      (''packet_length'', ''IntegerType'', nullable_all), (''src_mac'', ''StringType'', True),
      (''dst_mac'', ''StringType'', True), (''tcp_flags'', ''StringType'', True),
      (''iat_ms'', ''DoubleType'', True)]"

lemma schema_agrees:
  "to_spark_schema False = map (\<lambda>f. (fs_name f,
      (if fs_type f = ''string'' then ''StringType'' else if fs_type f = ''int'' then ''IntegerType'' else ''DoubleType''),
      fs_nullable f)) fields"
  by (simp add: to_spark_schema_def fields_def)

section \<open>Values and lines\<close>

datatype field_value = FNone | FStr string | FInt int | FFloat pyfloat

type_synonym traffic_record = "(string, field_value) dict"

fun float_str :: "(real \<Rightarrow> string) \<Rightarrow> pyfloat \<Rightarrow> string" where
  "float_str show (Fin x) = show x"
| "float_str show PosInf = ''inf''"
| "float_str show NegInf = ''-inf''"
| "float_str show NaN = ''nan''"

text \<open>\<open>str(v)\<close> and \<open>not v\<close>\<close>

fun fstr :: "(real \<Rightarrow> string) \<Rightarrow> field_value \<Rightarrow> string" where
  "fstr show FNone = ''None''"
| "fstr show (FStr s) = s"
| "fstr show (FInt k) = int_str k"
| "fstr show (FFloat x) = float_str show x"

fun falsy :: "field_value \<Rightarrow> bool" where
  "falsy FNone = True"
| "falsy (FStr s) = (s = [])"
| "falsy (FInt k) = (k = 0)"
| "falsy (FFloat x) = (x = Fin 0)"

text \<open>\<open>int(v)\<close> and \<open>float(v)\<close>\<close>

fun fint :: "field_value \<Rightarrow> int res" where
  "fint FNone = Inl TypeError"
| "fint (FStr s) = (case py_int s of None \<Rightarrow> Inl ValueError | Some k \<Rightarrow> Inr k)"
| "fint (FInt k) = Inr k"
| "fint (FFloat (Fin x)) = Inr (py_trunc x)"
| "fint (FFloat NaN) = Inl ValueError"
| "fint (FFloat _) = Inl OverflowError"

fun ffloat :: "field_value \<Rightarrow> pyfloat res" where
  "ffloat FNone = Inl TypeError"
| "ffloat (FStr s) = (case py_float s of None \<Rightarrow> Inl ValueError | Some x \<Rightarrow> Inr x)"
| "ffloat (FInt k) = Inr (Fin (of_int k))"
| "ffloat (FFloat x) = Inr x"

definition parse_line :: "string \<Rightarrow> string option list" where
  "parse_line line = map (\<lambda>v. if v \<noteq> [] then Some v else None) (split_on (CHR '','') (rstrip_crlf line))"

definition format_values :: "(real \<Rightarrow> string) \<Rightarrow> field_value list \<Rightarrow> string" where
  "format_values show vs = join '','' (map (\<lambda>v. if v = FNone then [] else fstr show v) vs)"

definition format_row :: "(real \<Rightarrow> string) \<Rightarrow> traffic_record \<Rightarrow> string" where
  "format_row show r = format_values show (map (\<lambda>n. dget_or r n FNone) field_names)"

fun of_field :: "string option \<Rightarrow> field_value" where
  "of_field None = FNone"
| "of_field (Some s) = FStr s"

section \<open>Validation\<close>

text \<open>A pattern of digits (\<open>d\<close>), hexadecimal digits (\<open>h\<close>, lower case) and literal characters.\<close>

definition matches :: "string \<Rightarrow> string \<Rightarrow> bool" where
  "matches pat s \<longleftrightarrow> length s = length pat \<and>
     list_all (\<lambda>(p, c). if p = CHR ''d'' then is_digit c
                        else if p = CHR ''h'' then is_hex c \<and> \<not> is_upper c else c = p) (zip pat s)"

definition timestamp_shape :: "string \<Rightarrow> bool" where
  "timestamp_shape s = matches ''dddd-dd-dd dd:dd:dd.ddd'' s"

definition mac_shape :: "string \<Rightarrow> bool" where
  "mac_shape s = matches ''hh:hh:hh:hh:hh:hh'' s"

definition flags_shape :: "string \<Rightarrow> bool" where
  "flags_shape s \<longleftrightarrow> take 2 s = ''0x'' \<and> drop 2 s \<noteq> [] \<and> list_all is_hex (drop 2 s)"

text \<open>A check raises, passes (\<open>None\<close>), or gives the reason of the failure.\<close>

type_synonym check = "string option res"

definition require :: "bool \<Rightarrow> string \<Rightarrow> check" where
  "require ok msg = Inr (if ok then None else Some msg)"

definition check_timestamp :: "(real \<Rightarrow> string) \<Rightarrow> field_value \<Rightarrow> check" where
  "check_timestamp show v =
     (if falsy v then Inr (Some ''Timestamp cannot be null or empty'')
      else let ts = strip (fstr show v)
           in if \<not> timestamp_shape ts
              then Inr (Some (''Invalid timestamp format (expected YYYY-MM-DD HH:MM:SS.mmm): '' @ fstr show v))
              else case split_on (CHR ''.'') ts of
                     [base, ms] \<Rightarrow>
                       require (strptime_seconds base \<noteq> None) (''Invalid timestamp calendar values: '' @ fstr show v)
                   | _ \<Rightarrow> Inr (Some (''Invalid timestamp calendar values: '' @ fstr show v)))"

definition check_ip :: "(real \<Rightarrow> string) \<Rightarrow> string \<Rightarrow> string \<Rightarrow> field_value \<Rightarrow> check" where
  "check_ip show label name v =
     (if falsy v then Inr (Some (label @ '' cannot be null or empty''))
      else require (ip_address (strip (fstr show v)) \<noteq> None) (''Invalid '' @ name @ '' address: '' @ fstr show v))"

text \<open>\<open>v is not None and str(v).strip() != ""\<close>\<close>

definition present :: "(real \<Rightarrow> string) \<Rightarrow> field_value \<Rightarrow> bool" where
  "present show v \<longleftrightarrow> v \<noteq> FNone \<and> strip (fstr show v) \<noteq> []"

definition check_int :: "(real \<Rightarrow> string) \<Rightarrow> int \<Rightarrow> string \<Rightarrow> string \<Rightarrow> field_value \<Rightarrow> check" where
  "check_int show lo label limits v =
     (case fint v of
        Inr k \<Rightarrow> require (lo \<le> k \<and> k \<le> 65535) (label @ '' out of range ('' @ limits @ ''): '' @ fstr show v)
      | Inl OverflowError \<Rightarrow> Inl OverflowError
      | Inl _ \<Rightarrow> Inr (Some (label @ '' must be an integer: '' @ fstr show v)))"

definition check_port :: "(real \<Rightarrow> string) \<Rightarrow> string \<Rightarrow> field_value \<Rightarrow> check" where
  "check_port show label v = (if present show v then check_int show 0 label ''0-65535'' v else Inr None)"

definition check_protocol :: "(real \<Rightarrow> string) \<Rightarrow> field_value \<Rightarrow> check" where
  "check_protocol show v =
     (if falsy v then Inr (Some ''Protocol cannot be null or empty'')
      else require (upper (strip (fstr show v)) \<in> set allowed_protocols)
             (''Invalid protocol (must be TCP, UDP, ICMP, or OTHER): '' @ fstr show v))"

definition check_length :: "(real \<Rightarrow> string) \<Rightarrow> field_value \<Rightarrow> check" where
  "check_length show v =
     (if present show v then check_int show 1 ''Packet length'' ''1-65535'' v
      else Inr (Some ''Packet length cannot be null or empty''))"

definition check_mac :: "(real \<Rightarrow> string) \<Rightarrow> string \<Rightarrow> field_value \<Rightarrow> check" where
  "check_mac show label v =
     (if present show v
      then require (mac_shape (lower (strip (fstr show v))))
             (''Invalid '' @ label @ '' MAC format (expected aa:bb:cc:dd:ee:ff): '' @ fstr show v)
      else Inr None)"

definition check_flags :: "(real \<Rightarrow> string) \<Rightarrow> field_value \<Rightarrow> check" where
  "check_flags show v =
     (if present show v
      then require (flags_shape (strip (fstr show v)))
             (''Invalid TCP flags format (expected hex e.g. 0x0018): '' @ fstr show v)
      else Inr None)"

definition check_iat :: "(real \<Rightarrow> string) \<Rightarrow> field_value \<Rightarrow> check" where
  "check_iat show v =
     (if present show v
      then case ffloat v of
             Inr x \<Rightarrow> require (\<not> fl_neg x) (''Inter-arrival time must be non-negative: '' @ fstr show v)
           | Inl _ \<Rightarrow> Inr (Some (''Inter-arrival time must be a float: '' @ fstr show v))
      else Inr None)"

fun first_failure :: "check list \<Rightarrow> (bool \<times> string) res" where
  "first_failure [] = Inr (True, ''OK'')"
| "first_failure (Inl e # cs) = Inl e"
| "first_failure (Inr (Some msg) # cs) = Inr (False, msg)"
| "first_failure (Inr None # cs) = first_failure cs"

definition row_checks :: "(real \<Rightarrow> string) \<Rightarrow> field_value list \<Rightarrow> check list" where
  "row_checks show row =
     [check_timestamp show (row ! 0), check_ip show ''Source IP'' ''source IP'' (row ! 1),
      check_ip show ''Destination IP'' ''destination IP'' (row ! 2),
      check_port show ''Source port'' (row ! 3), check_port show ''Destination port'' (row ! 4),
      check_protocol show (row ! 5), check_length show (row ! 6), check_mac show ''source'' (row ! 7),
      check_mac show ''destination'' (row ! 8), check_flags show (row ! 9), check_iat show (row ! 10)]"

definition validate_values :: "(real \<Rightarrow> string) \<Rightarrow> field_value list \<Rightarrow> (bool \<times> string) res" where
  "validate_values show row =
     (if length row \<noteq> num_fields
      then Inr (False, ''Expected '' @ int_str (int num_fields) @ '' columns, got '' @ int_str (int (length row)))
      else first_failure (row_checks show row))"

text \<open>\<open>str\<close> of a list of names\<close>

definition show_names :: "string list \<Rightarrow> string" where
  "show_names ns = ''['' @ join '', '' (map (\<lambda>n. [CHR 0x27] @ n @ [CHR 0x27]) ns) @ '']''"

definition validate_record :: "(real \<Rightarrow> string) \<Rightarrow> traffic_record \<Rightarrow> (bool \<times> string) res" where
  "validate_record show r =
     (let missing = filter (\<lambda>k. k \<notin> set (dkeys r)) field_names
      in if (length r \<noteq> num_fields \<or> missing \<noteq> []) \<and> missing \<noteq> []
         then Inr (False, ''Missing columns in record dict: '' @ show_names missing)
         else validate_values show (map (\<lambda>n. dget_or r n FNone) field_names))"

section \<open>Lines are read back\<close>

definition plain_value :: "(real \<Rightarrow> string) \<Rightarrow> field_value \<Rightarrow> bool" where
  "plain_value show v \<longleftrightarrow> v = FNone \<or> (fstr show v \<noteq> [] \<and> CHR '','' \<notin> set (fstr show v))"

definition csv_text :: "(real \<Rightarrow> string) \<Rightarrow> field_value \<Rightarrow> string" where
  "csv_text show v = (if v = FNone then [] else fstr show v)"

lemma last_join:
  "ps \<noteq> [] \<Longrightarrow> join '','' ps = [] \<or> last (join '','' ps) = CHR '','' \<or> (last ps \<noteq> [] \<and> last (join '','' ps) = last (last ps))"
proof (induction "'',''" ps rule: join.induct)
  case (3 p q ps)
  then show ?case by (cases "join '','' (q # ps) = []") auto
qed auto

text \<open>A line of plain values is parsed back into the texts of its fields.\<close>

lemma parse_format_values:
  assumes "vs \<noteq> []" and "\<forall>v \<in> set vs. plain_value show v"
    and "last vs = FNone \<or> \<not> is_crlf (last (fstr show (last vs)))"
  shows "parse_line (format_values show vs) = map (\<lambda>v. if v = FNone then None else Some (fstr show v)) vs"
proof -
  let ?ps = "map (csv_text show) vs"
  have line: "format_values show vs = join '','' ?ps" by (simp add: format_values_def csv_text_def [abs_def])
  have "rstrip_crlf (join '','' ?ps) = join '','' ?ps"
    unfolding rstrip_crlf_def
  proof (rule rstrip_by_id)
    have "last ?ps = csv_text show (last vs)" using assms(1) by (simp add: last_map)
    moreover have "csv_text show (last vs) \<noteq> [] \<Longrightarrow> \<not> is_crlf (last (csv_text show (last vs)))"
      using assms(3) by (auto simp: csv_text_def)
    ultimately show "join '','' ?ps = [] \<or> \<not> is_crlf (last (join '','' ?ps))"
      using last_join [of ?ps] assms(1) by (auto simp: is_crlf_def)
  qed
  moreover have "split_on (CHR '','') (join '','' ?ps) = ?ps"
    using assms(1,2) by (intro split_join) (auto simp: csv_text_def plain_value_def)
  ultimately have "parse_line (format_values show vs) = map (\<lambda>v. if v \<noteq> [] then Some v else None) ?ps"
    by (simp add: parse_line_def line)
  also have "\<dots> = map (\<lambda>v. if v = FNone then None else Some (fstr show v)) vs"
    using assms(2) by (auto simp: csv_text_def plain_value_def)
  finally show ?thesis .
qed

text \<open>A decimal integer is a float literal.\<close>

lemma py_float_neg: "py_float (CHR ''-'' # nat_str n) = Some (Fin (- real n))"
proof -
  have d: "nat_str n \<noteq> []" "\<forall>c \<in> set (nat_str n). is_digit c" "digits_val (nat_str n) = n"
    using nat_str_props by auto
  then have "strip (CHR ''-'' # nat_str n) = CHR ''-'' # nat_str n"
    using digits_not(6) [OF d(2)] by (intro strip_id) (auto simp: is_space_def [of "CHR ''-''"])
  moreover have "strip (nat_str n) = nat_str n" using d digits_not(6) [OF d(2)] by (intro strip_id) auto
  moreover have "split_sign (lower (nat_str n)) = (False, lower (nat_str n))"
    using d by (cases "nat_str n") (auto simp: split_sign_def to_lower_def is_upper_def is_digit_def Let_def)
  ultimately show ?thesis
    using py_float_int [of n] by (auto simp: py_float_def split_sign_def to_lower_def is_upper_def split: if_splits option.splits)
qed

lemma py_float_int_str: "py_float (int_str k) = Some (Fin (of_int k))"
  using py_float_int [of "nat k"] py_float_neg [of "nat (- k)"] by (simp add: int_str_def)

lemma first_failure_ok: "first_failure cs = Inr (True, ''OK'') \<longleftrightarrow> (\<forall>c \<in> set cs. c = Inr None)"
  by (induction cs rule: first_failure.induct) auto

lemma require_ok [simp]: "require b msg = Inr None \<longleftrightarrow> b"
  by (simp add: require_def)

text \<open>What the code relies on of \<open>repr\<close> of a float: it reads back as the same float, and it has
  no comma, line end or surrounding space.\<close>

fun good_show :: "(real \<Rightarrow> string) \<Rightarrow> pyfloat \<Rightarrow> bool" where
  "good_show show (Fin x) \<longleftrightarrow> py_float (show x) = Some (Fin x) \<and> strip (show x) = show x
     \<and> (\<forall>c \<in> set (show x). c \<noteq> CHR '','' \<and> \<not> is_crlf c)"
| "good_show show _ \<longleftrightarrow> True"

lemma py_float_nil: "py_float [] = None"
  by (simp add: py_float_def strip_def lstrip_by_def rstrip_by_def split_sign_def decimal_part_def mantissa_part_def)

lemma good_show_text:
  assumes "good_show show x"
  shows "float_str show x \<noteq> []" "CHR '','' \<notin> set (float_str show x)" "\<not> is_crlf (last (float_str show x))"
    "py_float (float_str show x) = Some x"
proof -
  have "py_float ''inf'' = Some PosInf" "py_float ''-inf'' = Some NegInf" "py_float ''nan'' = Some NaN"
    by code_simp+
  then show f: "py_float (float_str show x) = Some x" using assms by (cases x) auto
  show n: "float_str show x \<noteq> []" using f py_float_nil by (metis option.distinct(1))
  show "CHR '','' \<notin> set (float_str show x)" using assms by (cases x) auto
  have "last (float_str show x) \<in> set (float_str show x)" using n by simp
  then show "\<not> is_crlf (last (float_str show x))" using assms by (cases x) (auto simp: is_crlf_def)
qed

definition readable :: "(real \<Rightarrow> string) \<Rightarrow> field_value \<Rightarrow> bool" where
  "readable show v = (case v of FFloat x \<Rightarrow> good_show show x | _ \<Rightarrow> True)"

lemma strip_float_str: "good_show show x \<Longrightarrow> strip (float_str show x) = float_str show x"
proof -
  have "strip ''inf'' = ''inf''" "strip ''-inf'' = ''-inf''" "strip ''nan'' = ''nan''" by code_simp+
  then show "good_show show x \<Longrightarrow> ?thesis" by (cases x) auto
qed

text \<open>What a check accepts as a value it accepts as the value's text: a row that is valid with ints
  and floats is valid when its fields are read back as strings.\<close>

lemma reread_check_int:
  assumes "check_int show lo l t v = Inr None" and "\<forall>x. v \<noteq> FFloat x"
  shows "check_int show lo l t (FStr (fstr show v)) = Inr None"
  using assms by (cases v) (auto simp: check_int_def py_int_str split: sum.splits py_error.splits option.splits)

lemma reread_present: "v \<noteq> FNone \<Longrightarrow> present show (FStr (fstr show v)) = present show v"
  by (simp add: present_def)

lemma reread_iat:
  assumes "check_iat show v = Inr None" and "readable show v"
  shows "v = FNone \<or> check_iat show (FStr (fstr show v)) = Inr None"
  using assms
  by (cases v) (auto simp: check_iat_def reread_present readable_def good_show_text(4) present_def
      py_float_int_str split: if_splits)

definition reread :: "(real \<Rightarrow> string) \<Rightarrow> field_value \<Rightarrow> field_value" where
  "reread show v = of_field (if v = FNone then None else Some (fstr show v))"

lemma reread_text: "v \<noteq> FNone \<Longrightarrow> fstr show (reread show v) = fstr show v"
  by (simp add: reread_def)

lemma reread_none: "reread show v = FNone \<longleftrightarrow> v = FNone"
  by (simp add: reread_def)

lemma reread_falsy: "plain_value show v \<Longrightarrow> \<not> falsy v \<Longrightarrow> \<not> falsy (reread show v)"
  by (auto simp: reread_def plain_value_def)

lemma reread_present': "present show (reread show v) = present show v"
  by (cases "v = FNone") (simp_all add: present_def reread_text reread_none)

lemmas check_defs = check_timestamp_def check_ip_def check_protocol_def check_mac_def check_flags_def

lemma reread_text_checks:
  assumes "plain_value show v"
  shows "check_timestamp show v = Inr None \<Longrightarrow> check_timestamp show (reread show v) = Inr None"
    and "check_ip show l n v = Inr None \<Longrightarrow> check_ip show l n (reread show v) = Inr None"
    and "check_protocol show v = Inr None \<Longrightarrow> check_protocol show (reread show v) = Inr None"
    and "check_mac show l v = Inr None \<Longrightarrow> check_mac show l (reread show v) = Inr None"
    and "check_flags show v = Inr None \<Longrightarrow> check_flags show (reread show v) = Inr None"
proof -
  have t: "\<not> falsy v \<Longrightarrow> fstr show (reread show v) = fstr show v \<and> \<not> falsy (reread show v)"
    using reread_falsy [OF assms] by (cases "v = FNone") (simp_all add: reread_text)
  show "check_timestamp show v = Inr None \<Longrightarrow> check_timestamp show (reread show v) = Inr None"
    using t by (cases "falsy v") (auto simp: check_timestamp_def Let_def split: list.splits if_splits)
  show "check_ip show l n v = Inr None \<Longrightarrow> check_ip show l n (reread show v) = Inr None"
    using t by (cases "falsy v") (simp_all add: check_ip_def)
  show "check_protocol show v = Inr None \<Longrightarrow> check_protocol show (reread show v) = Inr None"
    using t by (cases "falsy v") (simp_all add: check_protocol_def)
  have p: "present show v \<Longrightarrow> fstr show (reread show v) = fstr show v" by (simp add: present_def reread_text)
  show "check_mac show l v = Inr None \<Longrightarrow> check_mac show l (reread show v) = Inr None"
    using p by (cases "present show v") (simp_all add: check_mac_def reread_present')
  show "check_flags show v = Inr None \<Longrightarrow> check_flags show (reread show v) = Inr None"
    using p by (cases "present show v") (simp_all add: check_flags_def reread_present')
qed

lemma reread_number_checks:
  assumes "\<forall>x. v \<noteq> FFloat x"
  shows "check_port show l v = Inr None \<Longrightarrow> check_port show l (reread show v) = Inr None"
    and "check_length show v = Inr None \<Longrightarrow> check_length show (reread show v) = Inr None"
proof -
  have r: "v \<noteq> FNone \<Longrightarrow> reread show v = FStr (fstr show v)" by (simp add: reread_def)
  have "present show v \<Longrightarrow> v \<noteq> FNone" by (simp add: present_def)
  then show "check_port show l v = Inr None \<Longrightarrow> check_port show l (reread show v) = Inr None"
    and "check_length show v = Inr None \<Longrightarrow> check_length show (reread show v) = Inr None"
    using r reread_check_int [OF _ assms]
    by (auto simp: check_port_def check_length_def reread_present' split: if_splits)
qed

lemma reread_iat_check: "check_iat show v = Inr None \<Longrightarrow> readable show v \<Longrightarrow> check_iat show (reread show v) = Inr None"
  using reread_iat [of "show" v] by (cases "v = FNone") (auto simp: reread_def)

section \<open>Properties\<close>

lemma line_reread:
  assumes valid: "validate_values show row = Inr (True, ''OK'')"
    and plain: "\<forall>v \<in> set row. plain_value show v"
    and ints: "\<forall>i \<in> {3, 4, 6}. \<forall>x. row ! i \<noteq> FFloat x"
    and iat: "readable show (row ! 10)" "row ! 10 = FNone \<or> \<not> is_crlf (last (fstr show (row ! 10)))"
  shows "parse_line (format_values show row) = map (\<lambda>v. if v = FNone then None else Some (fstr show v)) row
    \<and> validate_values show (map of_field (parse_line (format_values show row))) = Inr (True, ''OK'')"
proof -
  have len: "length row = 11" and ok: "\<forall>c \<in> set (row_checks show row). c = Inr None"
    using valid by (auto simp: validate_values_def first_failure_ok split: if_splits)
  then have ne: "row \<noteq> []" by auto
  then have last: "last row = row ! 10" using len by (simp add: last_conv_nth)
  have line: "parse_line (format_values show row) = map (\<lambda>v. if v = FNone then None else Some (fstr show v)) row"
    using parse_format_values [OF ne plain] iat(2) last by simp
  have row: "map of_field (parse_line (format_values show row)) = map (reread show) row"
    by (simp add: line reread_def)
  have p: "plain_value show (row ! i)" if "i < 11" for i using plain len that by simp
  have "\<forall>c \<in> set (row_checks show (map (reread show) row)). c = Inr None"
    using ok reread_text_checks [OF p] reread_number_checks reread_iat_check [OF _ iat(1)] ints len
    by (simp add: row_checks_def)
  then have "validate_values show (map (reread show) row) = Inr (True, ''OK'')"
    using len by (simp add: validate_values_def first_failure_ok)
  then show ?thesis unfolding row using line by blast
qed

text \<open>C7: the contract survives the CSV line.  A row of values that validates, whose values are \<open>None\<close> or have
  a text that is not empty and has no comma, with no float as a port or as the length, and with an
  inter-arrival time that does not end in a line end and, if a float, has a \<open>repr\<close> that reads back, is written as a line that
  the contract's own parser splits into the eleven texts of its fields (\<open>None\<close> where the value is), and that
  row of strings validates again.  Validation alone is not enough: see \<open>valid_not_reread\<close>.\<close>

theorem contract_roundtrip:
  assumes valid: "validate_values show row = Inr (True, ''OK'')"
    and plain: "\<forall>v \<in> set row. plain_value show v"
    and ints: "\<forall>i \<in> {3, 4, 6}. \<forall>x. row ! i \<noteq> FFloat x"
    and iat: "readable show (row ! 10)" "row ! 10 = FNone \<or> \<not> is_crlf (last (fstr show (row ! 10)))"
  shows "parse_line (format_values show row) = map (\<lambda>v. if v = FNone then None else Some (fstr show v)) row
    \<and> validate_values show (map of_field (parse_line (format_values show row))) = Inr (True, ''OK'')"
  by (rule line_reread [OF assms])

definition example_row :: "field_value list" where
  "example_row = [FStr ''2026-09-21 12:00:00.125'', FStr ''10.0.0.1'', FStr ''::1'', FInt 443, FNone, FStr ''TCP'',
     FInt 60, FStr ''00:11:22:33:44:fe'', FNone, FStr ''0x0018'', FFloat (Fin 3)]"

lemma example_row_valid: "validate_values (\<lambda>x. int_str \<lfloor>x\<rfloor>) example_row = Inr (True, ''OK'')"
  by (simp only: validate_values_def row_checks_def example_row_def num_fields_def) code_simp

theorem contract_roundtrip_witness:
  "parse_line (format_values (\<lambda>x. int_str \<lfloor>x\<rfloor>) example_row) ! 3 = Some ''443''
   \<and> validate_values (\<lambda>x. int_str \<lfloor>x\<rfloor>) (map of_field (parse_line (format_values (\<lambda>x. int_str \<lfloor>x\<rfloor>) example_row)))
     = Inr (True, ''OK'')"
proof -
  let ?show = "\<lambda>x. int_str \<lfloor>x\<rfloor>"
  have s: "int_str 443 = ''443''" "int_str 3 = ''3''" "int_str 60 = ''60''" "strip ''3'' = ''3''" by code_simp+
  have f: "py_float ''3'' = Some (Fin 3)" using py_float_int_str [of 3] s(2) by simp
  have r: "parse_line (format_values ?show example_row) = map (\<lambda>v. if v = FNone then None else Some (fstr ?show v)) example_row
      \<and> validate_values ?show (map of_field (parse_line (format_values ?show example_row))) = Inr (True, ''OK'')"
    using s f by (intro contract_roundtrip [OF example_row_valid]) (auto simp: example_row_def plain_value_def readable_def is_crlf_def)
  have "parse_line (format_values ?show example_row) ! 3 = Some ''443''"
    unfolding conjunct1 [OF r] using s by (simp add: example_row_def)
  then show ?thesis using r by blast
qed

text \<open>Each condition is needed: a valid row with a scope id with a comma is read back with twelve fields,
  one with an empty port is read back with none, and one with a float as a port does not validate when it is read back.\<close>

definition with_value :: "nat \<Rightarrow> field_value \<Rightarrow> field_value list" where
  "with_value i v = example_row[10 := FNone, i := v]"

lemma scope_id_not_reread:
  "validate_values show (with_value 1 (FStr ''::1%a,b'')) = Inr (True, ''OK'')"
  "length (parse_line (format_values show (with_value 1 (FStr ''::1%a,b'')))) = 12"
  by (simp_all only: validate_values_def row_checks_def with_value_def example_row_def num_fields_def) code_simp+

lemma empty_port_not_reread:
  "validate_values show (with_value 3 (FStr [])) = Inr (True, ''OK'')"
  "parse_line (format_values show (with_value 3 (FStr []))) ! 3 = None"
  by (simp_all only: validate_values_def row_checks_def with_value_def example_row_def num_fields_def) code_simp+

lemma free_port_checks: "list_all (\<lambda>c. c = Inr None) (row_checks show (with_value 3 FNone))"
  by (simp only: row_checks_def with_value_def example_row_def) code_simp

lemma port_checks: "row_checks show (with_value 3 v) = (row_checks show (with_value 3 FNone))[3 := check_port show ''Source port'' v]"
  by (simp add: row_checks_def with_value_def example_row_def)

lemma valid_port: "validate_values show (with_value 3 v) = Inr (True, ''OK'') \<longleftrightarrow> check_port show ''Source port'' v = Inr None"
proof -
  have "length (with_value 3 v) = 11" by (simp add: with_value_def example_row_def)
  moreover have "(\<forall>c \<in> set (cs[3 := x]). c = Inr None) \<longleftrightarrow> x = Inr None"
     if "list_all (\<lambda>c. c = Inr None) cs" "3 < length cs" for cs :: "check list" and x
    using that set_update_subset_insert [of cs 3 x] set_update_memI [of 3 cs x] by (auto simp: list_all_iff)
  moreover have "3 < length (row_checks show (with_value 3 FNone))" by (simp add: row_checks_def)
  ultimately show ?thesis using free_port_checks [of "show"]
    by (simp add: validate_values_def first_failure_ok port_checks [of "show" v])
qed

lemma float_port_not_reread:
  assumes "show (4437 / 10) = ''443.7''"
  shows "validate_values show (with_value 3 (FFloat (Fin (4437 / 10)))) = Inr (True, ''OK'')"
    and "parse_line (format_values show (with_value 3 (FFloat (Fin (4437 / 10))))) =
         parse_line (format_values show (with_value 3 (FStr ''443.7'')))"
    and "validate_values show (map of_field (parse_line (format_values show (with_value 3 (FFloat (Fin (4437 / 10)))))))
      \<noteq> Inr (True, ''OK'')"
proof -
  have st: "strip ''443.7'' = ''443.7''" "py_int ''443.7'' = None" by code_simp+
  have "py_trunc (4437 / 10) = 443" by (simp add: py_trunc_def)
  then show "validate_values show (with_value 3 (FFloat (Fin (4437 / 10)))) = Inr (True, ''OK'')"
    by (simp add: valid_port check_port_def check_int_def require_def)
  have eq: "format_values show (with_value 3 (FFloat (Fin (4437 / 10)))) = format_values show (with_value 3 (FStr ''443.7''))"
    by (simp add: format_values_def with_value_def example_row_def assms)
  then show "parse_line (format_values show (with_value 3 (FFloat (Fin (4437 / 10))))) =
         parse_line (format_values show (with_value 3 (FStr ''443.7'')))" by simp
  have "map of_field (parse_line (format_values show (with_value 3 (FStr ''443.7''))))
    = map (reread show) (with_value 3 (FStr ''443.7''))"
    by (simp only: format_values_def with_value_def example_row_def reread_def) code_simp
  moreover have "row_checks show (map (reread show) (with_value 3 (FStr ''443.7''))) ! 3 \<noteq> Inr None"
    using st by (simp add: row_checks_def with_value_def example_row_def reread_def check_port_def present_def check_int_def)
  moreover have "length (map (reread show) (with_value 3 (FStr ''443.7''))) = 11" by (simp add: with_value_def example_row_def)
  ultimately show "validate_values show (map of_field (parse_line (format_values show (with_value 3 (FFloat (Fin (4437 / 10))))))) \<noteq> Inr (True, ''OK'')"
    by (simp add: eq validate_values_def first_failure_ok) (auto simp: row_checks_def)
qed

lemmas valid_not_reread = scope_id_not_reread empty_port_not_reread float_port_not_reread

end
