(* ===== verification/Anonymize.thy ===== *)
theory Anonymize
  imports Contract
begin

text \<open>
  The keyed anonymiser of \<open>capture/anonymize.py\<close>.  HMAC-SHA256 is the parameter \<open>hmac\<close>, which maps
  a key and a text to the digest's bytes; \<open>good_hmac\<close> says that it gives 32 bytes.
\<close>

section \<open>Addresses\<close>

type_synonym digest = "string \<Rightarrow> string \<Rightarrow> nat list"

definition good_hmac :: "digest \<Rightarrow> bool" where
  "good_hmac hmac \<longleftrightarrow> (\<forall>key v. length (hmac key v) = 32 \<and> (\<forall>b \<in> set (hmac key v). b < 256))"

definition get_digest :: "digest \<Rightarrow> string \<Rightarrow> string \<Rightarrow> nat list" where
  "get_digest hmac key v = hmac key (lower (strip v))"

text \<open>The networks of \<open>_RFC1918_NETWORKS\<close>: 10/8, 172.16/12, 192.168/16, 127/8 and 169.254/16.\<close>

fun is_private_ipv4 :: "ip \<Rightarrow> bool" where
  "is_private_ipv4 (V4 a b c d) \<longleftrightarrow>
     a = 10 \<or> (a = 172 \<and> 16 \<le> b \<and> b \<le> 31) \<or> (a = 192 \<and> b = 168) \<or> a = 127 \<or> (a = 169 \<and> b = 254)"
| "is_private_ipv4 (V6 gs sc) \<longleftrightarrow> False"

definition byte_str :: "nat \<Rightarrow> string" where
  "byte_str b = int_str (int b)"

definition anonymize_ip :: "digest \<Rightarrow> string \<Rightarrow> string \<Rightarrow> string" where
  "anonymize_ip hmac s key =
     (if s = [] then s
      else case ip_address (strip s) of
        None \<Rightarrow> s
      | Some x \<Rightarrow>
          let g = get_digest hmac key s
          in case x of
               V4 _ _ _ _ \<Rightarrow>
                 if is_private_ipv4 x
                 then join ''.'' [''10'', byte_str (g ! 0), byte_str (g ! 1), byte_str (g ! 2 mod 253 + 1)]
                 else join ''.'' [''198'', ''18'', byte_str (g ! 0), byte_str (g ! 1 mod 253 + 1)]
             | V6 _ _ \<Rightarrow>
                 join '':'' [''fd00'', [], hex2 (g ! 0) @ hex2 (g ! 1), hex2 (g ! 2) @ hex2 (g ! 3),
                             hex2 (g ! 4) @ hex2 (g ! 5), hex2 (g ! 6) @ hex2 (g ! 7)])"

text \<open>\<open>_MAC_REGEX\<close>: six pairs of hexadecimal digits of either case.\<close>

definition mac_regex :: "string \<Rightarrow> bool" where
  "mac_regex s \<longleftrightarrow> length s = 17 \<and> list_all (\<lambda>i. if i mod 3 = 2 then s ! i = CHR '':'' else is_hex (s ! i)) [0..<17]"

definition anonymize_mac :: "digest \<Rightarrow> string \<Rightarrow> string \<Rightarrow> string" where
  "anonymize_mac hmac s key =
     (if s = [] \<or> \<not> mac_regex (strip s) then s
      else let g = get_digest hmac key s
           in join '':'' [''02'', hex2 (g ! 0), hex2 (g ! 1), hex2 (g ! 2), hex2 (g ! 3), hex2 (g ! 4)])"

section \<open>Records and files\<close>

definition anonymize_field ::
  "(real \<Rightarrow> string) \<Rightarrow> (string \<Rightarrow> string) \<Rightarrow> string \<Rightarrow> traffic_record \<Rightarrow> traffic_record" where
  "anonymize_field show f name out =
     (let v = dget_or out name FNone in if falsy v then out else dset name (FStr (f (fstr show v))) out)"

definition anonymize_record_dict :: "digest \<Rightarrow> (real \<Rightarrow> string) \<Rightarrow> traffic_record \<Rightarrow> string \<Rightarrow> traffic_record" where
  "anonymize_record_dict hmac show rec key =
     (let out1 = anonymize_field show (\<lambda>s. anonymize_ip hmac s key) ''src_ip'' rec;
          out2 = anonymize_field show (\<lambda>s. anonymize_ip hmac s key) ''dst_ip'' out1;
          out3 = anonymize_field show (\<lambda>s. anonymize_mac hmac s key) ''src_mac'' out2
      in anonymize_field show (\<lambda>s. anonymize_mac hmac s key) ''dst_mac'' out3)"

text \<open>The loop of \<open>anonymize_file\<close> over the lines of the input: the lines written and their number.\<close>

definition anonymize_line :: "digest \<Rightarrow> (real \<Rightarrow> string) \<Rightarrow> string \<Rightarrow> string \<Rightarrow> string option" where
  "anonymize_line hmac show key line =
     (let clean = strip line
      in if clean = [] then None
         else let vs = parse_line clean
              in if length vs \<noteq> num_fields then None
                 else Some (format_row show (anonymize_record_dict hmac show (zip field_names (map of_field vs)) key)
                              @ [CHR 0x0A]))"

definition anonymize_file :: "digest \<Rightarrow> (real \<Rightarrow> string) \<Rightarrow> string \<Rightarrow> string list \<Rightarrow> string list \<times> nat" where
  "anonymize_file hmac show key lines =
     (let out = List.map_filter (anonymize_line hmac show key) lines in (out, length out))"

section \<open>Addresses keep their class\<close>

lemma good_hmac_byte: "good_hmac hmac \<Longrightarrow> i < 32 \<Longrightarrow> get_digest hmac key s ! i < 256"
  unfolding good_hmac_def get_digest_def by (metis nth_mem)

lemma mod_253: "(n :: nat) mod 253 + 1 \<le> 253"
  using mod_less_divisor [of 253 n] by linarith

lemma int_str_small: "int_str 10 = ''10''" "int_str 198 = ''198''" "int_str 18 = ''18''"
  by code_simp+

lemma anonymize_v4:
  assumes hm: "good_hmac hmac" and s: "ip_address (strip s) = Some (V4 a b c d)" and ne: "s \<noteq> []"
  shows "\<exists>x y z. ip_address (anonymize_ip hmac s key)
      = Some (if is_private_ipv4 (V4 a b c d) then V4 10 x y z else V4 198 18 y z) \<and> 1 \<le> z \<and> z \<le> 253
    \<and> anonymize_ip hmac s key = ip_str (if is_private_ipv4 (V4 a b c d) then V4 10 x y z else V4 198 18 y z)"
proof -
  define g where "g = get_digest hmac key s"
  have b: "g ! 0 < 256" "g ! 1 < 256" using good_hmac_byte [OF hm] by (simp_all add: g_def)
  define x y z where xyz: "x = int (g ! 0)" "y = (if is_private_ipv4 (V4 a b c d) then int (g ! 1) else int (g ! 0))"
    "z = (if is_private_ipv4 (V4 a b c d) then int (g ! 2 mod 253 + 1) else int (g ! 1 mod 253 + 1))"
  let ?r = "if is_private_ipv4 (V4 a b c d) then V4 10 x y z else V4 198 18 y z"
  have z: "1 \<le> z" "z \<le> 253" using mod_253 [of "g ! 2"] mod_253 [of "g ! 1"] by (auto simp: xyz)
  have eq: "anonymize_ip hmac s key = ip_str ?r"
    using s ne int_str_small by (simp add: anonymize_ip_def g_def [symmetric] byte_str_def xyz)
  have "ip_address (ip_str ?r) = Some ?r"
    using b z ip_address_v4_str [of 10 x y z] ip_address_v4_str [of 198 18 y z]
    by (auto simp: wf_ip_def xyz simp del: ip_str.simps)
  with eq z show ?thesis by metis
qed

lemma hex_digit_char: "d < 16 \<Longrightarrow> hex_digit (hex_char d) = Some d"
  by (auto simp: hex_digit_def hex_char_def Let_def)

lemma hex2_props:
  assumes "b < 256"
  shows "length (hex2 b) = 2" "list_all is_hex (hex2 b)" "hex_val (hex2 b) = b"
    "ch \<in> set (hex2 b) \<Longrightarrow> is_digit ch \<or> is_lower ch"
proof -
  have d: "b div 16 < 16" "b mod 16 < 16" using assms by (simp_all add: less_mult_imp_div_less)
  show "length (hex2 b) = 2" by (simp add: hex2_def)
  show "list_all is_hex (hex2 b)" "hex_val (hex2 b) = b"
    using d hex_digit_char by (simp_all add: hex2_def is_hex_def hex_val_def)
  show "ch \<in> set (hex2 b) \<Longrightarrow> is_digit ch \<or> is_lower ch" using hex_char_plain [OF d(1)] hex_char_plain [OF d(2)] by (auto simp: hex2_def)
qed

lemma hextet_props:
  assumes "a < 256" "b < 256"
  shows "parse_hextet (hex2 a @ hex2 b) = Some (int (256 * a + b))"
    and "ch \<in> set (hex2 a @ hex2 b) \<Longrightarrow> is_digit ch \<or> is_lower ch" and "hex2 a @ hex2 b \<noteq> []"
proof -
  have "foldl (\<lambda>a c. 16 * a + the (hex_digit c)) n (hex2 b) = 256 * n + b" for n
    using hex_digit_char [of "b div 16"] hex_digit_char [of "b mod 16"] assms(2)
    by (simp add: hex2_def less_mult_imp_div_less)
  then have "hex_val (hex2 a @ hex2 b) = 256 * a + b"
    using hex2_props(3) [OF assms(1)] by (simp add: hex_val_def)
  then show "parse_hextet (hex2 a @ hex2 b) = Some (int (256 * a + b))"
    using hex2_props(1,2) [OF assms(1)] hex2_props(1,2) [OF assms(2)]
    by (simp add: parse_hextet_def) (simp add: hex2_def)
  show "ch \<in> set (hex2 a @ hex2 b) \<Longrightarrow> is_digit ch \<or> is_lower ch" and "hex2 a @ hex2 b \<noteq> []"
    using hex2_props(4) [OF assms(1)] hex2_props(4) [OF assms(2)] by (auto simp: hex2_def)
qed

lemma fd00_address:
  assumes h: "\<And>h. h \<in> {h1, h2, h3, h4} \<Longrightarrow> h \<noteq> [] \<and> (\<forall>ch \<in> set h. is_digit ch \<or> is_lower ch)"
    and p: "parse_hextet h1 = Some g1" "parse_hextet h2 = Some g2" "parse_hextet h3 = Some g3" "parse_hextet h4 = Some g4"
  shows "ip_address (join '':'' [''fd00'', [], h1, h2, h3, h4]) = Some (V6 [64768, 0, 0, 0, g1, g2, g3, g4] None)"
    (is "ip_address ?s = _")
proof -
  have no: "c \<notin> set h" if "h \<in> {h1, h2, h3, h4}" "c \<in> {CHR ''.'', CHR '':'', CHR ''%'', CHR ''/''}" for c h
    using h [OF that(1)] that(2) by (auto simp: is_digit_def is_lower_def Let_def)
  then have chars: "c \<notin> set ?s" if "c \<in> {CHR ''.'', CHR ''%'', CHR ''/''}" for c
    using no [of _ c] that by auto
  have v4: "parse_ipv4 ?s = None"
    using chars split_on_single [of "CHR ''.''" ?s] by (simp add: parse_ipv4_def del: join.simps split: option.splits)
  have sc: "split_scope ?s = Some (?s, None)"
    using chars split_on_single [of "CHR ''%''" ?s] by (simp add: split_scope_def del: join.simps)
  have sp: "split_on (CHR '':'') ?s = [''fd00'', [], h1, h2, h3, h4]"
    by (rule split_join) (use no in auto)
  have gap: "inner_gaps [''fd00'', [], h1, h2, h3, h4] = [1]"
    using h by (simp add: inner_gaps_def upt_rec)
  have "parse_hextet ''fd00'' = Some 64768"
    by (simp add: parse_hextet_def hex_val_def is_hex_def hex_digit_def)
  then have "parse_groups [''fd00'', [], h1, h2, h3, h4] = Some [64768, 0, 0, 0, g1, g2, g3, g4]"
    unfolding parse_groups_def gap using h p by (simp add: numeral_eq_Suc Let_def)
  moreover have "expand_v4_tail [''fd00'', [], h1, h2, h3, h4] = Some [''fd00'', [], h1, h2, h3, h4]"
    using no by (simp add: expand_v4_tail_def)
  ultimately show ?thesis using v4 sc sp chars by (simp add: ip_address_def parse_ipv6_def del: join.simps)
qed


text \<open>The class of an address: private or public IPv4, or IPv6.\<close>

fun same_class :: "ip \<Rightarrow> ip \<Rightarrow> bool" where
  "same_class (V4 a b c d) y \<longleftrightarrow>
     (\<exists>i j k. y = (if is_private_ipv4 (V4 a b c d) then V4 10 i j k else V4 198 18 j k) \<and> 1 \<le> k \<and> k \<le> 253)"
| "same_class (V6 gs sc) y \<longleftrightarrow> (\<exists>a b c d. y = V6 [64768, 0, 0, 0, a, b, c, d] None)"

lemma strip_no_space: "\<forall>c \<in> set s. \<not> is_space c \<Longrightarrow> strip s = s"
  by (intro strip_id) (cases s, auto)

lemma anonymize_ip_class:
  assumes hm: "good_hmac hmac" and s: "ip_address (strip s) = Some x"
  shows "strip (anonymize_ip hmac s key) = anonymize_ip hmac s key"
    "\<exists>y. ip_address (anonymize_ip hmac s key) = Some y \<and> same_class x y" "anonymize_ip hmac s key \<noteq> []"
proof -
  have e: "ip_address [] = None" "strip [] = []" by code_simp+
  have ne: "s \<noteq> []" using s e by auto
  have sep: "\<not> is_space ch" if "is_digit ch \<or> is_lower ch \<or> ch \<in> {CHR ''.'', CHR '':'', CHR ''-''}" for ch
    using that by (auto simp: is_space_def is_digit_def is_lower_def Let_def)
  show y: "\<exists>y. ip_address (anonymize_ip hmac s key) = Some y \<and> same_class x y"
    and st: "strip (anonymize_ip hmac s key) = anonymize_ip hmac s key"
  proof (atomize (full), cases x)
    case (V4 a b c d)
    obtain i j k where r: "ip_address (anonymize_ip hmac s key)
        = Some (if is_private_ipv4 (V4 a b c d) then V4 10 i j k else V4 198 18 j k)" "1 \<le> k" "k \<le> 253"
      "anonymize_ip hmac s key = ip_str (if is_private_ipv4 (V4 a b c d) then V4 10 i j k else V4 198 18 j k)"
      using anonymize_v4 [OF hm, of s a b c d key] s ne V4 by blast
    have "ch \<in> set (ip_str (V4 p q v w)) \<Longrightarrow> is_digit ch \<or> ch \<in> {CHR ''.'', CHR ''-''}" for p q v w ch
      by (auto dest: int_str_chars)
    then have "\<forall>ch \<in> set (ip_str (V4 p q v w)). \<not> is_space ch" for p q v w using sep by blast
    then have "\<forall>ch \<in> set (anonymize_ip hmac s key). \<not> is_space ch" unfolding r(4) by (simp only: split: if_split) simp
    then show "(\<exists>y. ip_address (anonymize_ip hmac s key) = Some y \<and> same_class x y)
        \<and> strip (anonymize_ip hmac s key) = anonymize_ip hmac s key"
      using r strip_no_space unfolding V4 same_class.simps by blast
  next
    case (V6 gs sc)
    define g where "g = get_digest hmac key s"
    let ?h = "\<lambda>i j. hex2 (g ! i) @ hex2 (g ! j)"
    have eq: "anonymize_ip hmac s key = join '':'' [''fd00'', [], ?h 0 1, ?h 2 3, ?h 4 5, ?h 6 7]"
      using s ne V6 by (simp add: anonymize_ip_def g_def Let_def)
    have b: "g ! i < 256" if "i < 8" for i using good_hmac_byte [OF hm] that by (simp add: g_def)
    note hx = hextet_props [OF b b]
    have hp: "?h i j \<noteq> [] \<and> (\<forall>ch \<in> set (?h i j). is_digit ch \<or> is_lower ch)" if "i < 8" "j < 8" for i j
      using hx(2,3) [OF that] by blast
    have hs: "\<forall>h \<in> {?h 0 1, ?h 2 3, ?h 4 5, ?h 6 7}. h \<noteq> [] \<and> (\<forall>ch \<in> set h. is_digit ch \<or> is_lower ch)"
      unfolding ball_simps by (intro conjI TrueI; (rule hp [THEN conjunct1] | rule hp [THEN conjunct2]); simp)
    have "ip_address (anonymize_ip hmac s key) = Some (V6 [64768, 0, 0, 0, int (256 * g ! 0 + g ! 1),
        int (256 * g ! 2 + g ! 3), int (256 * g ! 4 + g ! 5), int (256 * g ! 6 + g ! 7)] None)"
      unfolding eq by (rule fd00_address) (use hs in blast, simp_all add: hx(1))
    moreover have sub: "set (anonymize_ip hmac s key) \<subseteq> set '':'' \<union> \<Union> (set ` set [''fd00'', [], ?h 0 1, ?h 2 3, ?h 4 5, ?h 6 7])"
      unfolding eq by (rule join_chars)
    have "\<not> is_space ch" if inch: "ch \<in> set (anonymize_ip hmac s key)" for ch
    proof -
      consider (colon) "ch \<in> set '':''" | (part) p where "p \<in> set [''fd00'', [], ?h 0 1, ?h 2 3, ?h 4 5, ?h 6 7]" "ch \<in> set p"
        using subsetD [OF sub inch] by blast
      then have "is_digit ch \<or> is_lower ch \<or> ch = CHR '':''"
      proof cases
        case part
        then consider "p = ''fd00''" | "p \<in> {?h 0 1, ?h 2 3, ?h 4 5, ?h 6 7}" by fastforce
        then show ?thesis
        proof cases
          case 1
          then show ?thesis using part(2) by (auto simp: is_digit_def is_lower_def)
        next
          case 2
          then show ?thesis using bspec [OF hs 2] part(2) by blast
        qed
      qed simp
      with sep show ?thesis by blast
    qed
    ultimately show "(\<exists>y. ip_address (anonymize_ip hmac s key) = Some y \<and> same_class x y)
        \<and> strip (anonymize_ip hmac s key) = anonymize_ip hmac s key"
      using strip_no_space unfolding V6 same_class.simps by blast
  qed
  show "anonymize_ip hmac s key \<noteq> []"
  proof
    assume "anonymize_ip hmac s key = []"
    then show False using y e by simp
  qed
qed

lemma anonymize_mac_shape:
  assumes hm: "good_hmac hmac" and m: "mac_shape (lower (strip s))"
  shows "mac_shape (lower (strip (anonymize_mac hmac s key)))"
proof (cases "s = [] \<or> \<not> mac_regex (strip s)")
  case False
  define g where "g = get_digest hmac key s"
  have d: "g ! i div 16 < 16" "g ! i mod 16 < 16" if "i < 8" for i
    using good_hmac_byte [OF hm, of i key s] that by (simp_all add: g_def less_mult_imp_div_less)
  have hc: "is_hex (hex_char k)" "\<not> is_upper (hex_char k)" "\<not> is_space (hex_char k)" "to_lower (hex_char k) = hex_char k"
    if "k < 16" for k
    using hex_digit_char [OF that] hex_char_plain [OF that]
    by (auto simp: is_hex_def to_lower_def is_upper_def is_lower_def is_digit_def is_space_def Let_def)
  have eq: "anonymize_mac hmac s key = join '':'' [''02'', hex2 (g ! 0), hex2 (g ! 1), hex2 (g ! 2), hex2 (g ! 3), hex2 (g ! 4)]"
    using False by (simp add: anonymize_mac_def g_def Let_def)
  have "strip (anonymize_mac hmac s key) = anonymize_mac hmac s key"
    by (rule strip_no_space) (use hc d in \<open>auto simp: eq hex2_def is_space_def\<close>)
  moreover have "lower (anonymize_mac hmac s key) = anonymize_mac hmac s key"
    using hc d by (simp add: eq hex2_def) (simp add: to_lower_def is_upper_def)
  moreover have "mac_shape (anonymize_mac hmac s key)"
    using hc d by (simp add: mac_shape_def matches_def eq hex2_def) (simp add: is_hex_def hex_digit_def is_upper_def)
  ultimately show ?thesis by simp
qed (use m in \<open>auto simp: anonymize_mac_def\<close>)


section \<open>Properties\<close>

lemma anonymize_field_get:
  "dget_or (anonymize_field show f n d) m FNone
     = (if m = n \<and> \<not> falsy (dget_or d n FNone) then FStr (f (fstr show (dget_or d n FNone))) else dget_or d m FNone)"
  by (simp add: anonymize_field_def Let_def dget_or_def)

text \<open>The row of an anonymised record: the four addresses replaced, the rest as it was.\<close>

lemma anonymized_values:
  assumes "length row = 11"
  shows "map (\<lambda>n. dget_or (anonymize_record_dict hmac show (zip field_names row) key) n FNone) field_names
    = (let ip = (\<lambda>v. if falsy v then v else FStr (anonymize_ip hmac (fstr show v) key));
           mac = (\<lambda>v. if falsy v then v else FStr (anonymize_mac hmac (fstr show v) key))
       in [row ! 0, ip (row ! 1), ip (row ! 2), row ! 3, row ! 4, row ! 5, row ! 6, mac (row ! 7), mac (row ! 8),
           row ! 9, row ! 10])"
proof -
  obtain a b c d e f g h i j k where row: "row = [a, b, c, d, e, f, g, h, i, j, k]"
    using assms by (auto simp: length_Suc_conv numeral_eq_Suc)
  have "map (\<lambda>n. dget_or (zip field_names row) n FNone) field_names = [a, b, c, d, e, f, g, h, i, j, k]"
    unfolding row by (simp add: field_names_def fields_def dget_or_def)
  then show ?thesis unfolding row
    by (simp add: anonymize_record_dict_def anonymize_field_get field_names_def fields_def Let_def)
qed

lemma anonymized_ip_check:
  assumes hm: "good_hmac hmac" and ok: "check_ip show l n v = Inr None"
  shows "\<not> falsy v" "\<exists>x y. ip_address (strip (fstr show v)) = Some x
      \<and> ip_address (anonymize_ip hmac (fstr show v) key) = Some y \<and> same_class x y"
    "check_ip show l n (FStr (anonymize_ip hmac (fstr show v) key)) = Inr None"
proof -
  show f: "\<not> falsy v" using ok by (auto simp: check_ip_def)
  obtain x where x: "ip_address (strip (fstr show v)) = Some x"
    using ok f by (auto simp: check_ip_def require_def split: if_splits)
  note c = anonymize_ip_class [OF hm x, of key]
  show "\<exists>x y. ip_address (strip (fstr show v)) = Some x
      \<and> ip_address (anonymize_ip hmac (fstr show v) key) = Some y \<and> same_class x y" using x c(2) by blast
  show "check_ip show l n (FStr (anonymize_ip hmac (fstr show v) key)) = Inr None"
    using c by (auto simp: check_ip_def require_def)
qed

lemma anonymized_mac_check:
  assumes hm: "good_hmac hmac" and ok: "check_mac show l v = Inr None"
  shows "check_mac show l (if falsy v then v else FStr (anonymize_mac hmac (fstr show v) key)) = Inr None"
proof (cases "falsy v")
  case False
  then have n: "v \<noteq> FNone" by auto
  have "mac_shape (lower (strip (anonymize_mac hmac (fstr show v) key)))" if "strip (anonymize_mac hmac (fstr show v) key) \<noteq> []"
  proof (cases "strip (fstr show v) = []")
    case True
    then have "anonymize_mac hmac (fstr show v) key = fstr show v" by (simp add: anonymize_mac_def mac_regex_def)
    with True that show ?thesis by simp
  next
    case c: False
    then have "mac_shape (lower (strip (fstr show v)))"
      using ok n by (auto simp: check_mac_def present_def require_def split: if_splits)
    then show ?thesis by (rule anonymize_mac_shape [OF hm])
  qed
  then show ?thesis using False by (simp add: check_mac_def present_def require_def)
qed (use ok in simp)

text \<open>C14: an anonymised record still satisfies the contract.  If the digest has 32 bytes and a row
  validates, the anonymised record validates; it differs from the row in the two addresses and the two
  MAC addresses only, and each IP address keeps its class: private IPv4 goes to 10.x.y.z, public IPv4 to
  198.18.y.z with \<open>z\<close> between 1 and 253, IPv6 to fd00::a:b:c:d.\<close>

theorem anonymized_valid:
  assumes hm: "good_hmac hmac" and valid: "validate_values show row = Inr (True, ''OK'')"
  shows "let row' = map (\<lambda>n. dget_or (anonymize_record_dict hmac show (zip field_names row) key) n FNone) field_names in
      validate_values show row' = Inr (True, ''OK'')
    \<and> (\<forall>i \<in> {0, 3, 4, 5, 6, 9, 10}. row' ! i = row ! i)
    \<and> (\<forall>i \<in> {1, 2}. \<exists>x y. ip_address (strip (fstr show (row ! i))) = Some x
          \<and> ip_address (fstr show (row' ! i)) = Some y \<and> same_class x y)"
proof -
  have len: "length row = 11" and ok: "\<forall>c \<in> set (row_checks show row). c = Inr None"
    using valid by (auto simp: validate_values_def first_failure_ok split: if_splits)
  have ip: "check_ip show ''Source IP'' ''source IP'' (row ! 1) = Inr None"
    "check_ip show ''Destination IP'' ''destination IP'' (row ! 2) = Inr None"
    and mac: "check_mac show ''source'' (row ! 7) = Inr None" "check_mac show ''destination'' (row ! 8) = Inr None"
    using ok by (simp_all add: row_checks_def)
  note i = anonymized_ip_check [OF hm ip(1)] anonymized_ip_check [OF hm ip(2)]
  note m = anonymized_mac_check [OF hm mac(1)] anonymized_mac_check [OF hm mac(2)]
  let ?row = "map (\<lambda>n. dget_or (anonymize_record_dict hmac show (zip field_names row) key) n FNone) field_names"
  have row': "?row = [row ! 0, FStr (anonymize_ip hmac (fstr show (row ! 1)) key),
      FStr (anonymize_ip hmac (fstr show (row ! 2)) key), row ! 3, row ! 4, row ! 5, row ! 6,
      (if falsy (row ! 7) then row ! 7 else FStr (anonymize_mac hmac (fstr show (row ! 7)) key)),
      (if falsy (row ! 8) then row ! 8 else FStr (anonymize_mac hmac (fstr show (row ! 8)) key)), row ! 9, row ! 10]"
    unfolding anonymized_values [OF len] Let_def using i(1,4) by simp
  have "\<forall>c \<in> set (row_checks show ?row). c = Inr None"
    unfolding row' using ok i(3,6) m [of key] by (simp add: row_checks_def)
  then have "validate_values show ?row = Inr (True, ''OK'')"
    using len by (simp add: validate_values_def first_failure_ok)
  moreover have "\<forall>i \<in> {0, 3, 4, 5, 6, 9, 10}. ?row ! i = row ! i" unfolding row' by simp
  moreover have "\<forall>i \<in> {1, 2}. \<exists>x y. ip_address (strip (fstr show (row ! i))) = Some x
      \<and> ip_address (fstr show (?row ! i)) = Some y \<and> same_class x y"
    unfolding row' using i(2,5) by simp
  ultimately show ?thesis unfolding Let_def by blast
qed

theorem anonymized_valid_witness:
  "let row' = map (\<lambda>n. dget_or (anonymize_record_dict (\<lambda>_ _. replicate 32 7) (\<lambda>x. int_str \<lfloor>x\<rfloor>)
        (zip field_names example_row) ''k'') n FNone) field_names in
     validate_values (\<lambda>x. int_str \<lfloor>x\<rfloor>) row' = Inr (True, ''OK'') \<and> row' ! 5 = FStr ''TCP''"
proof -
  have "good_hmac (\<lambda>_ _. replicate 32 7)" by (simp add: good_hmac_def)
  from anonymized_valid [OF this example_row_valid, where key = "''k''"]
  show ?thesis unfolding Let_def by (auto simp: example_row_def)
qed

end
