(* ===== verification/Capture_Parser.thy ===== *)
theory Capture_Parser
  imports Contract
begin

text \<open>
  The TShark command line (\<open>capture/tshark_cmd.py\<close>) and the parser of its output lines
  (\<open>capture/parser.py\<close>): one raw line becomes a contract record or a reject with its
  reason. \<open>exc v\<close> is the text of the exception that a conversion of \<open>v\<close> raises, \<open>show\<close>
  is \<open>repr\<close> of a float.
\<close>

section \<open>The command\<close>

definition raw_fields :: "string list" where
  "raw_fields = [''frame.time_epoch'', ''ip.src'', ''ip.dst'', ''ipv6.src'', ''ipv6.dst'', ''tcp.srcport'',
     ''tcp.dstport'', ''udp.srcport'', ''udp.dstport'', ''ip.proto'', ''ipv6.nxt'', ''frame.len'', ''eth.src'',
     ''eth.dst'', ''tcp.flags'', ''frame.time_delta'']"

definition build_command :: "string \<Rightarrow> string option \<Rightarrow> int option \<Rightarrow> string \<Rightarrow> string list res" where
  "build_command iface capture_filter duration_s tshark_path =
     (let cmd = [tshark_path, ''-i'', iface, ''-l'', ''-n'', ''-T'', ''fields'', ''-E'', ''separator=,'', ''-E'',
                 ''occurrence=f'', ''-E'', ''header=n'', ''-E'', ''quote=n'']
                @ concat (map (\<lambda>f. [''-e'', f]) raw_fields)
                @ (case capture_filter of None \<Rightarrow> [] | Some f \<Rightarrow> if f = [] then [] else [''-f'', f])
      in case duration_s of
           None \<Rightarrow> Inr cmd
         | Some d \<Rightarrow> if d \<le> 0 then Inl ValueError else Inr (cmd @ [''-a'', ''duration:'' @ int_str d]))"

definition expected_raw_columns :: nat where "expected_raw_columns = length raw_fields"

section \<open>Records and rejects\<close>

datatype reject_reason =
  WRONG_COLUMNS | NON_IP | BAD_TIMESTAMP | BAD_LENGTH | BAD_PORT | BAD_IP | VALIDATION

fun reason_value :: "reject_reason \<Rightarrow> string" where
  "reason_value WRONG_COLUMNS = ''WRONG_COLUMNS''"
| "reason_value NON_IP = ''NON_IP''"
| "reason_value BAD_TIMESTAMP = ''BAD_TIMESTAMP''"
| "reason_value BAD_LENGTH = ''BAD_LENGTH''"
| "reason_value BAD_PORT = ''BAD_PORT''"
| "reason_value BAD_IP = ''BAD_IP''"
| "reason_value VALIDATION = ''VALIDATION''"

record capture_record =
  cr_timestamp :: string
  cr_src_ip :: string
  cr_dst_ip :: string
  cr_src_port :: "int option"
  cr_dst_port :: "int option"
  cr_protocol :: string
  cr_packet_length :: int
  cr_src_mac :: "string option"
  cr_dst_mac :: "string option"
  cr_tcp_flags :: "string option"
  cr_iat_ms :: "pyfloat option"

record reject =
  reason :: reject_reason
  raw_line :: string
  detail :: string

definition opt_value :: "('a \<Rightarrow> field_value) \<Rightarrow> 'a option \<Rightarrow> field_value" where
  "opt_value f v = (case v of None \<Rightarrow> FNone | Some x \<Rightarrow> f x)"

definition record_values :: "capture_record \<Rightarrow> field_value list" where
  "record_values r =
     [FStr (cr_timestamp r), FStr (cr_src_ip r), FStr (cr_dst_ip r), opt_value FInt (cr_src_port r),
      opt_value FInt (cr_dst_port r), FStr (cr_protocol r), FInt (cr_packet_length r),
      opt_value FStr (cr_src_mac r), opt_value FStr (cr_dst_mac r), opt_value FStr (cr_tcp_flags r),
      opt_value FFloat (cr_iat_ms r)]"

definition to_dict :: "capture_record \<Rightarrow> traffic_record" where
  "to_dict r = zip field_names (record_values r)"

definition to_csv_row :: "(real \<Rightarrow> string) \<Rightarrow> capture_record \<Rightarrow> string" where
  "to_csv_row show r = format_row show (to_dict r)"

section \<open>The parser\<close>

text \<open>The epoch becomes UTC text with the milliseconds cut off.\<close>

definition timestamp_text :: "string \<Rightarrow> string res" where
  "timestamp_text v =
     (case py_float v of
        None \<Rightarrow> Inl ValueError
      | Some x \<Rightarrow> bindE (from_pyfloat x) (\<lambda>t.
          Inr (strftime_seconds t @ ''.'' @ pad 3 (dt_micro t div 1000))))"

type_synonym 'a parsed = "(reject_reason \<times> string) + 'a"

fun bindR :: "'a parsed \<Rightarrow> ('a \<Rightarrow> 'b parsed) \<Rightarrow> 'b parsed" where
  "bindR (Inl e) f = Inl e"
| "bindR (Inr x) f = f x"

definition parse_ips :: "(string \<Rightarrow> string) \<Rightarrow> string \<Rightarrow> string \<Rightarrow> (string \<times> string) parsed" where
  "parse_ips exc src dst =
     (if src = [] \<or> dst = [] then Inl (BAD_IP, ''Missing source or destination IP'')
      else case ip_address (strip src) of
             None \<Rightarrow> Inl (BAD_IP, exc (strip src))
           | Some a \<Rightarrow> (case ip_address (strip dst) of
                          None \<Rightarrow> Inl (BAD_IP, exc (strip dst))
                        | Some b \<Rightarrow> Inr (ip_str a, ip_str b)))"

definition parse_epoch :: "(string \<Rightarrow> string) \<Rightarrow> string \<Rightarrow> string parsed" where
  "parse_epoch exc v =
     (if v = [] then Inl (BAD_TIMESTAMP, ''Empty timestamp'')
      else case timestamp_text v of Inl e \<Rightarrow> Inl (BAD_TIMESTAMP, exc v) | Inr t \<Rightarrow> Inr t)"

definition parse_length :: "(string \<Rightarrow> string) \<Rightarrow> string \<Rightarrow> int parsed" where
  "parse_length exc v =
     (if v = [] then Inl (BAD_LENGTH, ''Empty packet length'')
      else case py_int v of
             None \<Rightarrow> Inl (BAD_LENGTH, exc v)
           | Some n \<Rightarrow> if 1 \<le> n \<and> n \<le> 65535 then Inr n
                      else Inl (BAD_LENGTH, ''Packet length '' @ int_str n @ '' out of bounds (1-65535)''))"

definition map_protocol :: "int \<Rightarrow> string" where
  "map_protocol n = (if n = 6 then ''TCP'' else if n = 17 then ''UDP'' else if n = 1 \<or> n = 58 then ''ICMP'' else ''OTHER'')"

definition parse_protocol :: "string \<Rightarrow> string parsed" where
  "parse_protocol v =
     (case py_int v of
        None \<Rightarrow> Inl (VALIDATION, ''Invalid protocol number: '' @ v)
      | Some n \<Rightarrow> Inr (map_protocol n))"

definition parse_port :: "string \<Rightarrow> string \<Rightarrow> string \<Rightarrow> int option parsed" where
  "parse_port label small v =
     (if v = [] then Inr None
      else case py_int v of
             None \<Rightarrow> Inl (BAD_PORT, ''Invalid '' @ small @ '' port: '' @ v)
           | Some p \<Rightarrow> if 0 \<le> p \<and> p \<le> 65535 then Inr (Some p)
                      else Inl (BAD_PORT, label @ '' port '' @ int_str p @ '' out of range''))"

definition parse_delta :: "string \<Rightarrow> pyfloat option parsed" where
  "parse_delta v =
     (if v = [] then Inr None
      else case py_float v of
             None \<Rightarrow> Inl (VALIDATION, ''Invalid frame time delta: '' @ v)
           | Some x \<Rightarrow> if fl_neg (fl_scale 1000 x) then Inl (VALIDATION, ''Negative frame time delta'')
                      else Inr (Some (fl_scale 1000 x)))"

definition or_none :: "string \<Rightarrow> string option" where
  "or_none s = (if s \<noteq> [] then Some s else None)"

definition port_columns :: "string \<Rightarrow> string list \<Rightarrow> string \<times> string" where
  "port_columns proto c =
     (if proto = ''TCP'' then (c ! 5, c ! 6) else if proto = ''UDP'' then (c ! 7, c ! 8) else ([], []))"

definition parse_columns :: "(string \<Rightarrow> string) \<Rightarrow> string list \<Rightarrow> capture_record parsed" where
  "parse_columns exc c =
     (if c ! 9 = [] \<and> c ! 10 = [] then Inl (NON_IP, ''Neither ip.proto nor ipv6.nxt present'')
      else
        bindR (parse_ips exc (if c ! 1 \<noteq> [] then c ! 1 else c ! 3) (if c ! 2 \<noteq> [] then c ! 2 else c ! 4)) (\<lambda>(src, dst).
        bindR (parse_epoch exc (c ! 0)) (\<lambda>ts.
        bindR (parse_length exc (c ! 11)) (\<lambda>len.
        bindR (parse_protocol (if c ! 9 \<noteq> [] then c ! 9 else c ! 10)) (\<lambda>proto.
        bindR (parse_port ''Source'' ''source'' (fst (port_columns proto c))) (\<lambda>sp.
        bindR (parse_port ''Destination'' ''destination'' (snd (port_columns proto c))) (\<lambda>dp.
        bindR (parse_delta (c ! 15)) (\<lambda>iat.
        Inr \<lparr>cr_timestamp = ts, cr_src_ip = src, cr_dst_ip = dst, cr_src_port = sp, cr_dst_port = dp,
             cr_protocol = proto, cr_packet_length = len, cr_src_mac = or_none (lower (strip (c ! 12))),
             cr_dst_mac = or_none (lower (strip (c ! 13))), cr_tcp_flags = or_none (strip (c ! 14)),
             cr_iat_ms = iat\<rparr>))))))))"

text \<open>\<open>parse_line\<close>: a reject, a record, or an exception that the validation raises.\<close>

definition capture_line :: "(string \<Rightarrow> string) \<Rightarrow> (real \<Rightarrow> string) \<Rightarrow> string \<Rightarrow> (reject + capture_record) res" where
  "capture_line exc show raw =
     (let cols = split_on (CHR '','') (rstrip_crlf raw);
          rej = (\<lambda>(why, d). Inl \<lparr>reason = why, raw_line = raw, detail = d\<rparr>)
      in if length cols \<noteq> expected_raw_columns
         then Inr (rej (WRONG_COLUMNS, ''Expected '' @ int_str (int expected_raw_columns) @ '' columns, got ''
                          @ int_str (int (length cols))))
         else case parse_columns exc cols of
                Inl e \<Rightarrow> Inr (rej e)
              | Inr r \<Rightarrow> bindE (validate_record show (to_dict r)) (\<lambda>(ok, msg).
                  Inr (if ok then Inr r else rej (VALIDATION, msg))))"

text \<open>\<open>parse_tshark_line\<close>, the older interface: a reject is a \<open>ValueError\<close>.\<close>

definition parse_tshark_line :: "(string \<Rightarrow> string) \<Rightarrow> (real \<Rightarrow> string) \<Rightarrow> string \<Rightarrow> traffic_record res" where
  "parse_tshark_line exc show line =
     bindE (capture_line exc show line) (\<lambda>r. case r of Inl _ \<Rightarrow> Inl ValueError | Inr c \<Rightarrow> Inr (to_dict c))"

section \<open>What an accepted record is\<close>

lemma bindR_Inr_iff: "bindR m f = Inr y \<longleftrightarrow> (\<exists>x. m = Inr x \<and> f x = Inr y)"
  by (cases m) auto

lemma bindR_Inl_iff: "bindR m f = Inl e \<longleftrightarrow> m = Inl e \<or> (\<exists>x. m = Inr x \<and> f x = Inl e)"
  by (cases m) auto

lemma dget_zip: "distinct ns \<Longrightarrow> length vs = length ns \<Longrightarrow> map (\<lambda>n. dget_or (zip ns vs) n d) ns = vs"
  by (intro nth_equalityI) (simp_all add: dget_or_def map_of_zip_nth)

lemma length_record_values [simp]: "length (record_values r) = 11"
  by (simp add: record_values_def)

lemma to_dict_values: "map (\<lambda>n. dget_or (to_dict r) n FNone) field_names = record_values r"
  by (simp add: to_dict_def dget_zip)

lemma validate_to_dict: "validate_record show (to_dict r) = validate_values show (record_values r)"
proof -
  have "dkeys (to_dict r) = field_names" by (simp add: to_dict_def)
  then show ?thesis by (simp add: validate_record_def to_dict_values)
qed

lemma csv_row_values: "to_csv_row show r = format_values show (record_values r)"
  by (simp add: to_csv_row_def format_row_def to_dict_values)

lemma capture_accepted:
  assumes "capture_line exc show raw = Inr (Inr r)"
  shows "length (split_on (CHR '','') (rstrip_crlf raw)) = 16"
    and "parse_columns exc (split_on (CHR '','') (rstrip_crlf raw)) = Inr r"
    and "validate_values show (record_values r) = Inr (True, ''OK'')"
proof -
  have n: "expected_raw_columns = 16" by (simp add: expected_raw_columns_def raw_fields_def)
  obtain ok msg where v: "length (split_on (CHR '','') (rstrip_crlf raw)) = 16"
    "parse_columns exc (split_on (CHR '','') (rstrip_crlf raw)) = Inr r"
    "validate_values show (record_values r) = Inr (ok, msg)" "ok"
    using assms by (auto simp: capture_line_def n validate_to_dict res_simps Let_def split: if_splits sum.splits)
  have "first_failure cs = Inr (True, m) \<Longrightarrow> m = ''OK''" for cs m
    by (induction cs rule: first_failure.induct) auto
  then have "msg = ''OK''" using v(3,4) by (auto simp: validate_values_def split: if_splits)
  then show "length (split_on (CHR '','') (rstrip_crlf raw)) = 16"
    "parse_columns exc (split_on (CHR '','') (rstrip_crlf raw)) = Inr r"
    "validate_values show (record_values r) = Inr (True, ''OK'')" using v by auto
qed

lemma parse_port_range: "parse_port l s v = Inr (Some p) \<Longrightarrow> 0 \<le> p \<and> p \<le> 65535"
  by (auto simp: parse_port_def split: if_splits option.splits)

lemma map_protocol_cases: "map_protocol n \<in> {''TCP'', ''UDP'', ''ICMP'', ''OTHER''}"
  by (simp add: map_protocol_def)

lemma parse_columns_typed:
  assumes "parse_columns exc c = Inr r"
  shows "cr_protocol r \<in> {''TCP'', ''UDP'', ''ICMP'', ''OTHER''}"
    and "1 \<le> cr_packet_length r" "cr_packet_length r \<le> 65535"
    and "\<forall>p \<in> set_option (cr_src_port r) \<union> set_option (cr_dst_port r).
           0 \<le> p \<and> p \<le> 65535 \<and> cr_protocol r \<in> {''TCP'', ''UDP''}"
    and "\<forall>x \<in> set_option (cr_iat_ms r). \<not> fl_neg x"
    and "\<exists>a b. ip_address (strip (if c ! 1 \<noteq> [] then c ! 1 else c ! 3)) = Some a \<and> cr_src_ip r = ip_str a
           \<and> ip_address (strip (if c ! 2 \<noteq> [] then c ! 2 else c ! 4)) = Some b \<and> cr_dst_ip r = ip_str b"
    and "timestamp_text (c ! 0) = Inr (cr_timestamp r)"
    and "cr_src_mac r = or_none (lower (strip (c ! 12)))" "cr_dst_mac r = or_none (lower (strip (c ! 13)))"
      "cr_tcp_flags r = or_none (strip (c ! 14))"
proof -
  have "\<not> (c ! 9 = [] \<and> c ! 10 = [])" using assms by (intro notI) (simp add: parse_columns_def)
  note run = assms [unfolded parse_columns_def if_not_P [OF this]]
  obtain src dst ts len proto sp dp iat where
    ips: "parse_ips exc (if c ! 1 \<noteq> [] then c ! 1 else c ! 3) (if c ! 2 \<noteq> [] then c ! 2 else c ! 4) = Inr (src, dst)"
    and ts: "parse_epoch exc (c ! 0) = Inr ts" and len: "parse_length exc (c ! 11) = Inr len"
    and proto: "parse_protocol (if c ! 9 \<noteq> [] then c ! 9 else c ! 10) = Inr proto"
    and ports: "parse_port ''Source'' ''source'' (fst (port_columns proto c)) = Inr sp"
      "parse_port ''Destination'' ''destination'' (snd (port_columns proto c)) = Inr dp"
    and iat: "parse_delta (c ! 15) = Inr iat"
    and r: "r = \<lparr>cr_timestamp = ts, cr_src_ip = src, cr_dst_ip = dst, cr_src_port = sp, cr_dst_port = dp,
             cr_protocol = proto, cr_packet_length = len, cr_src_mac = or_none (lower (strip (c ! 12))),
             cr_dst_mac = or_none (lower (strip (c ! 13))), cr_tcp_flags = or_none (strip (c ! 14)),
             cr_iat_ms = iat\<rparr>"
    using run by (auto simp: bindR_Inr_iff case_prod_beta)
  show "cr_protocol r \<in> {''TCP'', ''UDP'', ''ICMP'', ''OTHER''}"
    using proto map_protocol_cases by (auto simp: r parse_protocol_def split: option.splits)
  show "1 \<le> cr_packet_length r" "cr_packet_length r \<le> 65535"
    using len by (auto simp: r parse_length_def split: if_splits option.splits)
  have "parse_port l s [] = Inr None" for l s by (simp add: parse_port_def)
  then have "p \<in> set_option sp \<union> set_option dp \<Longrightarrow> proto \<in> {''TCP'', ''UDP''}" for p
    using ports by (auto simp: port_columns_def split: if_splits)
  then show "\<forall>p \<in> set_option (cr_src_port r) \<union> set_option (cr_dst_port r).
           0 \<le> p \<and> p \<le> 65535 \<and> cr_protocol r \<in> {''TCP'', ''UDP''}"
    using parse_port_range [of _ _ _] ports unfolding r by fastforce
  show "\<forall>x \<in> set_option (cr_iat_ms r). \<not> fl_neg x"
    using iat by (auto simp: r parse_delta_def split: if_splits option.splits)
  show "\<exists>a b. ip_address (strip (if c ! 1 \<noteq> [] then c ! 1 else c ! 3)) = Some a \<and> cr_src_ip r = ip_str a
           \<and> ip_address (strip (if c ! 2 \<noteq> [] then c ! 2 else c ! 4)) = Some b \<and> cr_dst_ip r = ip_str b"
    using ips by (auto simp: r parse_ips_def split: if_splits option.splits)
  show "timestamp_text (c ! 0) = Inr (cr_timestamp r)"
    using ts by (auto simp: r parse_epoch_def split: if_splits sum.splits)
  show "cr_src_mac r = or_none (lower (strip (c ! 12)))" "cr_dst_mac r = or_none (lower (strip (c ! 13)))"
    "cr_tcp_flags r = or_none (strip (c ! 14))" by (simp_all add: r)
qed

lemma no_comma_lower: "CHR '','' \<notin> set s \<Longrightarrow> CHR '','' \<notin> set (lower s)"
proof -
  have "x = CHR '',''" if "CHR '','' = to_lower x" for x
  proof (cases "is_upper x")
    case True
    then have "of_char (to_lower x) = (of_char x + 32) mod (256 :: nat)" by (simp add: to_lower_def)
    with arg_cong [OF that, of "of_char :: char \<Rightarrow> nat"] True show ?thesis by (simp add: is_upper_def Let_def)
  qed (use that in \<open>simp add: to_lower_def\<close>)
  then show "CHR '','' \<notin> set s \<Longrightarrow> ?thesis" by (auto simp del: set_map simp add: in_set_conv_nth) (metis nth_mem)
qed

lemma int_str_no_comma: "CHR '','' \<notin> set (int_str k)"
  using int_str_chars [of "CHR '',''" k] by (auto simp: is_digit_def)

lemma strftime_chars:
  "ch \<in> set (strftime_seconds t) \<Longrightarrow> is_digit ch \<or> ch \<in> {CHR ''-'', CHR '' '', CHR '':''}"
  by (auto simp: strftime_seconds_def pad_def is_digit_def [of "CHR ''0''"] dest: int_str_chars)

lemma pad_chars: "ch \<in> set (pad w k) \<Longrightarrow> is_digit ch \<or> ch = CHR ''-''"
  by (auto simp: pad_def is_digit_def [of "CHR ''0''"] dest: int_str_chars)

lemma timestamp_no_comma:
  assumes "timestamp_text v = Inr ts"
  shows "CHR '','' \<notin> set ts"
proof -
  obtain t where "ts = strftime_seconds t @ ''.'' @ pad 3 (dt_micro t div 1000)"
    using assms by (auto simp: timestamp_text_def res_simps split: option.splits)
  then show ?thesis
    using strftime_chars [of "CHR '',''" t] pad_chars [of "CHR '',''"] by (auto simp: is_digit_def)
qed

lemma ip_str_no_comma: "ip_address s = Some x \<Longrightarrow> CHR '','' \<notin> set s \<Longrightarrow> CHR '','' \<notin> set (ip_str x)"
  using ip_str_chars [of s x "CHR '',''"] by (auto simp: is_digit_def is_lower_def)

lemma ip_str_nonempty: "ip_address s = Some x \<Longrightarrow> strip (ip_str x) \<noteq> [] \<Longrightarrow> ip_str x \<noteq> []"
  by (auto simp: strip_def lstrip_by_def rstrip_by_def)

text \<open>No accepted text holds a comma, so the record's CSV line has its eleven fields.\<close>

lemma captured_plain:
  assumes c: "parse_columns exc c = Inr r" and nc: "\<forall>f \<in> set c. CHR '','' \<notin> set f" and len: "length c = 16"
    and valid: "validate_values show (record_values r) = Inr (True, ''OK'')"
    and iat: "\<forall>x \<in> set_option (cr_iat_ms r). good_show show x"
  shows "\<forall>v \<in> set (record_values r). plain_value show v"
proof -
  note t = parse_columns_typed [OF c]
  have f: "CHR '','' \<notin> set (strip (c ! i))" if "i < 16" for i
    using nc that len strip_subset [of "c ! i"] by auto
  have ok: "\<forall>k \<in> set (row_checks show (record_values r)). k = Inr None"
    using valid by (simp add: validate_values_def first_failure_ok)
  then have ips: "cr_src_ip r \<noteq> []" "cr_dst_ip r \<noteq> []" "cr_timestamp r \<noteq> []"
    by (auto simp: row_checks_def record_values_def check_ip_def check_timestamp_def)
  have "CHR '','' \<notin> set (cr_timestamp r)" by (rule timestamp_no_comma [OF t(7)])
  moreover have "CHR '','' \<notin> set (cr_src_ip r)" "CHR '','' \<notin> set (cr_dst_ip r)"
    using t(6) ip_str_no_comma f by (auto split: if_splits)
  moreover have "plain_value show (opt_value FInt p)" for p
    using int_str_no_comma by (cases p) (auto simp: plain_value_def opt_value_def)
  moreover have "plain_value show (opt_value FStr (or_none (lower (strip (c ! i)))))"
    "plain_value show (opt_value FStr (or_none (strip (c ! i))))" if "i < 16" for i
    using f [OF that] no_comma_lower by (auto simp: plain_value_def opt_value_def or_none_def)
  moreover have "plain_value show (opt_value FFloat (cr_iat_ms r))"
    using iat good_show_text by (cases "cr_iat_ms r") (auto simp: plain_value_def opt_value_def)
  moreover have "plain_value show (FStr (cr_protocol r))" using t(1) by (auto simp: plain_value_def)
  moreover have "plain_value show (FInt (cr_packet_length r))"
    using int_str_no_comma by (auto simp: plain_value_def)
  ultimately show ?thesis
    using ips by (simp add: record_values_def t(8-10)) (simp add: plain_value_def)
qed

section \<open>Properties\<close>

lemma captured_texts:
  assumes acc: "capture_line exc show raw = Inr (Inr r)"
    and iat: "\<forall>x \<in> set_option (cr_iat_ms r). good_show show x"
  shows "parse_line (to_csv_row show r) = map (\<lambda>v. if v = FNone then None else Some (fstr show v)) (record_values r)"
    and "validate_values show (map of_field (parse_line (to_csv_row show r))) = Inr (True, ''OK'')"
proof -
  let ?c = "split_on (CHR '','') (rstrip_crlf raw)" and ?vs = "record_values r"
  note a = capture_accepted [OF acc]
  have plain: "\<forall>v \<in> set ?vs. plain_value show v"
    using captured_plain [OF a(2) _ a(1,3) iat] split_on_no_sep by blast
  have nth: "?vs ! 3 = opt_value FInt (cr_src_port r)" "?vs ! 4 = opt_value FInt (cr_dst_port r)"
    "?vs ! 6 = FInt (cr_packet_length r)" "?vs ! 10 = opt_value FFloat (cr_iat_ms r)"
    "?vs ! 1 = FStr (cr_src_ip r)" "?vs ! 2 = FStr (cr_dst_ip r)" "?vs ! 5 = FStr (cr_protocol r)"
    by (simp_all add: record_values_def)
  have rd: "readable show (?vs ! 10)" "?vs ! 10 = FNone \<or> \<not> is_crlf (last (fstr show (?vs ! 10)))"
    using iat good_show_text(3) unfolding nth by (auto simp: readable_def opt_value_def split: option.splits)
  have ints: "\<forall>i \<in> {3, 4, 6}. \<forall>x. ?vs ! i \<noteq> FFloat x"
    unfolding ball_simps nth by (auto simp: nth opt_value_def split: option.splits)
  note rt = line_reread [OF a(3) plain ints rd]
  show "parse_line (to_csv_row show r) = map (\<lambda>v. if v = FNone then None else Some (fstr show v)) ?vs"
    and "validate_values show (map of_field (parse_line (to_csv_row show r))) = Inr (True, ''OK'')"
    unfolding csv_row_values using rt by blast+
qed

text \<open>C4: what the capture layer writes, the rest of the pipeline accepts.  If a raw TShark line is
  accepted, its protocol, length, ports and inter-arrival time are in the contract's ranges (ports only
  for TCP and UDP), and the CSV line written for it has, read back by the contract's parser, eleven
  fields that validate and that are the record's: its timestamp, addresses, protocol, MACs and flags as
  they are, an absent value as an absent field, and its ports, length and inter-arrival time as numbers
  with the same values.\<close>

theorem captured_line_valid:
  assumes acc: "capture_line exc show raw = Inr (Inr r)"
    and iat: "\<forall>x \<in> set_option (cr_iat_ms r). good_show show x"
  shows "cr_protocol r \<in> {''TCP'', ''UDP'', ''ICMP'', ''OTHER''} \<and> 1 \<le> cr_packet_length r \<and> cr_packet_length r \<le> 65535
    \<and> (\<forall>p \<in> set_option (cr_src_port r) \<union> set_option (cr_dst_port r).
          0 \<le> p \<and> p \<le> 65535 \<and> cr_protocol r \<in> {''TCP'', ''UDP''})
    \<and> (\<forall>x \<in> set_option (cr_iat_ms r). \<not> fl_neg x)
    \<and> (let fs = parse_line (to_csv_row show r) in
         length fs = 11 \<and> validate_values show (map of_field fs) = Inr (True, ''OK'')
       \<and> fs ! 0 = Some (cr_timestamp r) \<and> fs ! 1 = Some (cr_src_ip r) \<and> fs ! 2 = Some (cr_dst_ip r)
       \<and> fs ! 5 = Some (cr_protocol r) \<and> fs ! 7 = cr_src_mac r \<and> fs ! 8 = cr_dst_mac r \<and> fs ! 9 = cr_tcp_flags r
       \<and> map_option py_int (fs ! 3) = map_option Some (cr_src_port r)
       \<and> map_option py_int (fs ! 4) = map_option Some (cr_dst_port r)
       \<and> map_option py_int (fs ! 6) = Some (Some (cr_packet_length r))
       \<and> map_option py_float (fs ! 10) = map_option Some (cr_iat_ms r))"
proof -
  let ?vs = "record_values r"
  note t = parse_columns_typed [OF capture_accepted(2) [OF acc]]
  note fs = captured_texts(1) [OF assms] and v = captured_texts(2) [OF assms]
  have nth: "?vs ! 3 = opt_value FInt (cr_src_port r)" "?vs ! 4 = opt_value FInt (cr_dst_port r)"
    "?vs ! 6 = FInt (cr_packet_length r)" "?vs ! 10 = opt_value FFloat (cr_iat_ms r)"
    "?vs ! 1 = FStr (cr_src_ip r)" "?vs ! 2 = FStr (cr_dst_ip r)" "?vs ! 5 = FStr (cr_protocol r)"
    "?vs ! 0 = FStr (cr_timestamp r)" "?vs ! 7 = opt_value FStr (cr_src_mac r)" "?vs ! 8 = opt_value FStr (cr_dst_mac r)"
    "?vs ! 9 = opt_value FStr (cr_tcp_flags r)" "length ?vs = 11"
    by (simp_all add: record_values_def)
  have "map_option py_int (parse_line (to_csv_row show r) ! 3) = map_option Some (cr_src_port r)"
    "map_option py_int (parse_line (to_csv_row show r) ! 4) = map_option Some (cr_dst_port r)"
    "map_option py_int (parse_line (to_csv_row show r) ! 6) = Some (Some (cr_packet_length r))"
    "map_option py_float (parse_line (to_csv_row show r) ! 10) = map_option Some (cr_iat_ms r)"
    unfolding fs using iat good_show_text(4)
    by (auto simp: nth opt_value_def py_int_str split: option.splits)
  moreover have "length (parse_line (to_csv_row show r)) = 11" "parse_line (to_csv_row show r) ! 1 = Some (cr_src_ip r)"
    "parse_line (to_csv_row show r) ! 2 = Some (cr_dst_ip r)" "parse_line (to_csv_row show r) ! 5 = Some (cr_protocol r)"
    unfolding fs by (simp_all add: nth del: One_nat_def)
  moreover have "parse_line (to_csv_row show r) ! 0 = Some (cr_timestamp r)" "parse_line (to_csv_row show r) ! 7 = cr_src_mac r"
    "parse_line (to_csv_row show r) ! 8 = cr_dst_mac r" "parse_line (to_csv_row show r) ! 9 = cr_tcp_flags r"
    unfolding fs by (simp_all add: nth opt_value_def split: option.splits)
  ultimately show ?thesis using t(1-5) v unfolding Let_def by blast
qed

definition example_raw :: string where
  "example_raw = ''0,10.0.0.1,10.0.0.2,,,443,80,,,6,,60,00:11:22:33:44:55,,0x0018,''"

definition example_record :: capture_record where
  "example_record = \<lparr>cr_timestamp = ''1970-01-01 00:00:00.000'', cr_src_ip = ''10.0.0.1'', cr_dst_ip = ''10.0.0.2'',
     cr_src_port = Some 443, cr_dst_port = Some 80, cr_protocol = ''TCP'', cr_packet_length = 60,
     cr_src_mac = Some ''00:11:22:33:44:55'', cr_dst_mac = None, cr_tcp_flags = Some ''0x0018'', cr_iat_ms = None\<rparr>"

lemma example_epoch: "parse_epoch (\<lambda>_. []) ''0'' = Inr ''1970-01-01 00:00:00.000''"
proof -
  let ?t = "\<lparr>dt_year = 1970, dt_month = 1, dt_day = 1, dt_hour = 0, dt_minute = 0, dt_second = 0, dt_micro = 0\<rparr>"
  have "of_micros 0 = Inr ?t" "strftime_seconds ?t = ''1970-01-01 00:00:00''" "pad 3 0 = ''000''" "int_str 0 = ''0''"
    by code_simp+
  moreover have "py_float ''0'' = Some (Fin 0)" using py_float_int_str [of 0] calculation(4) by simp
  moreover have "from_timestamp 0 = of_micros 0" using round_half_even_of_int [of 0] by (simp add: from_timestamp_def)
  ultimately show ?thesis by (simp add: parse_epoch_def timestamp_text_def)
qed

lemma example_columns:
  "split_on (CHR '','') (rstrip_crlf example_raw)
     = [''0'', ''10.0.0.1'', ''10.0.0.2'', [], [], ''443'', ''80'', [], [], ''6'', [], ''60'',
        ''00:11:22:33:44:55'', [], ''0x0018'', []]"
  by code_simp

lemma example_texts:
  "parse_ips (\<lambda>_. []) ''10.0.0.1'' ''10.0.0.2'' = Inr (''10.0.0.1'', ''10.0.0.2'')"
  "py_int ''443'' = Some 443" "py_int ''80'' = Some 80" "py_int ''60'' = Some 60" "py_int ''6'' = Some 6"
  "or_none (lower (strip ''00:11:22:33:44:55'')) = Some ''00:11:22:33:44:55''" "or_none (lower (strip [])) = None"
  "or_none (strip ''0x0018'') = Some ''0x0018''"
  by code_simp+

lemma example_checks:
  "strip ''1970-01-01 00:00:00.000'' = ''1970-01-01 00:00:00.000''" "timestamp_shape ''1970-01-01 00:00:00.000''"
  "split_on (CHR ''.'') ''1970-01-01 00:00:00.000'' = [''1970-01-01 00:00:00'', ''000'']"
  "strptime_seconds ''1970-01-01 00:00:00'' \<noteq> None" "ip_address (strip ''10.0.0.1'') \<noteq> None"
  "ip_address (strip ''10.0.0.2'') \<noteq> None" "mac_shape (lower (strip ''00:11:22:33:44:55''))"
  "flags_shape (strip ''0x0018'')" "upper (strip ''TCP'') \<in> set allowed_protocols"
  "strip (int_str 443) \<noteq> []" "strip (int_str 80) \<noteq> []" "strip (int_str 60) \<noteq> []"
  by code_simp+

lemma example_valid: "validate_values (\<lambda>x. int_str \<lfloor>x\<rfloor>) (record_values example_record) = Inr (True, ''OK'')"
proof -
  have "row_checks (\<lambda>x. int_str \<lfloor>x\<rfloor>) (record_values example_record) = replicate 11 (Inr None)"
    using example_checks
    by (simp add: row_checks_def record_values_def example_record_def opt_value_def check_timestamp_def check_ip_def
        check_port_def check_length_def check_int_def check_protocol_def check_mac_def check_flags_def check_iat_def
        present_def require_def numeral_eq_Suc)
  then show ?thesis by (simp add: validate_values_def numeral_eq_Suc)
qed

lemma example_capture: "capture_line (\<lambda>_. []) (\<lambda>x. int_str \<lfloor>x\<rfloor>) example_raw = Inr (Inr example_record)"
proof -
  have "parse_columns (\<lambda>_. []) (split_on (CHR '','') (rstrip_crlf example_raw)) = Inr example_record"
    unfolding example_columns parse_columns_def
    by (simp add: example_texts example_epoch parse_length_def parse_protocol_def map_protocol_def parse_port_def
        parse_delta_def port_columns_def example_record_def)
  then show ?thesis
    by (simp add: capture_line_def example_columns expected_raw_columns_def raw_fields_def validate_to_dict example_valid)
qed

theorem captured_line_valid_witness:
  "cr_protocol example_record = ''TCP''
   \<and> parse_line (to_csv_row (\<lambda>x. int_str \<lfloor>x\<rfloor>) example_record) ! 1 = Some ''10.0.0.1''
   \<and> parse_line (to_csv_row (\<lambda>x. int_str \<lfloor>x\<rfloor>) example_record) ! 7 = Some ''00:11:22:33:44:55''"
  using captured_line_valid [OF example_capture] by (simp add: example_record_def Let_def)

text \<open>The reasons a column can give.\<close>

lemma parser_reasons:
  "parse_ips exc a b = Inl (w, d) \<Longrightarrow> w = BAD_IP"
  "parse_epoch exc v = Inl (w, d) \<Longrightarrow> w = BAD_TIMESTAMP"
  "parse_length exc v = Inl (w, d) \<Longrightarrow> w = BAD_LENGTH"
  "parse_protocol v = Inl (w, d) \<Longrightarrow> w = VALIDATION"
  "parse_port l s v = Inl (w, d) \<Longrightarrow> w = BAD_PORT"
  "parse_delta v = Inl (w, d) \<Longrightarrow> w = VALIDATION"
  by (auto simp: parse_ips_def parse_epoch_def parse_length_def parse_protocol_def parse_port_def parse_delta_def
      split: if_splits option.splits sum.splits)

lemma parse_columns_protocol: "parse_columns exc c = Inr r \<Longrightarrow> \<not> (c ! 9 = [] \<and> c ! 10 = [])"
  by (intro notI) (simp add: parse_columns_def)

lemma parse_columns_reason:
  assumes "parse_columns exc c = Inl (w, d)"
  shows "w \<noteq> WRONG_COLUMNS \<and> (w = NON_IP \<longleftrightarrow> c ! 9 = [] \<and> c ! 10 = [])"
proof (cases "c ! 9 = [] \<and> c ! 10 = []")
  case True
  then show ?thesis using assms by (simp add: parse_columns_def)
next
  case False
  have "w \<in> {BAD_IP, BAD_TIMESTAMP, BAD_LENGTH, VALIDATION, BAD_PORT}"
    using assms unfolding parse_columns_def if_not_P [OF False] bindR_Inl_iff case_prod_beta
    using parser_reasons by (elim disjE exE conjE) (blast | simp)+
  with False show ?thesis by auto
qed

text \<open>A record's own values never make the validation raise, so parsing a line always returns.\<close>

lemma validate_returns: "\<exists>ok msg. validate_values show (record_values r) = Inr (ok, msg)"
proof -
  have int: "check_port show l (opt_value FInt p) \<noteq> Inl e" "check_length show (FInt k) \<noteq> Inl e" for l p k e
    by (cases p; simp add: check_port_def check_length_def check_int_def require_def opt_value_def)+
  have iat: "check_iat show (opt_value FFloat x) \<noteq> Inl e" for x e
    by (cases x) (auto simp: check_iat_def require_def opt_value_def split: if_splits)
  have oth: "check_timestamp show v \<noteq> Inl e" "check_ip show l m v \<noteq> Inl e" "check_protocol show v \<noteq> Inl e"
    "check_mac show l v \<noteq> Inl e" "check_flags show v \<noteq> Inl e" for v l m e
    by (auto simp: check_defs require_def Let_def split: list.splits)
  have "\<forall>k \<in> set (row_checks show (record_values r)). \<forall>e. k \<noteq> Inl e"
    using int iat oth by (simp add: row_checks_def record_values_def)
  moreover have "\<forall>k \<in> set cs. \<forall>e. k \<noteq> Inl e \<Longrightarrow> \<exists>ok msg. first_failure cs = Inr (ok, msg)" for cs
    by (induction cs rule: first_failure.induct) auto
  ultimately show ?thesis by (simp add: validate_values_def)
qed

lemma capture_line_total: "\<exists>res. capture_line exc show raw = Inr res"
proof (cases "parse_columns exc (split_on (CHR '','') (rstrip_crlf raw))")
  case (Inr r)
  then show ?thesis using validate_returns [of "show" r] by (auto simp: capture_line_def validate_to_dict Let_def)
qed (simp add: capture_line_def Let_def)

text \<open>C29: rejects.  Parsing a line never raises; a reject keeps the raw line; it says
  \<open>WRONG_COLUMNS\<close> exactly when the line does not have the sixteen columns, and \<open>NON_IP\<close> exactly
  when it has them but neither protocol column.\<close>

theorem capture_rejects:
  "\<exists>res. capture_line exc show raw = Inr res
    \<and> (let c = split_on (CHR '','') (rstrip_crlf raw) in
       (length c \<noteq> 16 \<longleftrightarrow> (\<exists>j. res = Inl j \<and> reason j = WRONG_COLUMNS))
     \<and> (length c = 16 \<and> c ! 9 = [] \<and> c ! 10 = [] \<longleftrightarrow> (\<exists>j. res = Inl j \<and> reason j = NON_IP)))
    \<and> (\<forall>j. res = Inl j \<longrightarrow> raw_line j = raw)"
proof -
  let ?c = "split_on (CHR '','') (rstrip_crlf raw)"
  have n: "expected_raw_columns = 16" by (simp add: expected_raw_columns_def raw_fields_def)
  show ?thesis
  proof (cases "parse_columns exc ?c")
    case (Inl e)
    then show ?thesis using parse_columns_reason [of exc ?c "fst e" "snd e"]
      by (cases e) (simp add: capture_line_def n Let_def)
  next
    case (Inr r)
    obtain ok msg where "validate_values show (record_values r) = Inr (ok, msg)" using validate_returns by blast
    then show ?thesis using parse_columns_protocol [OF Inr] Inr
      by (simp add: capture_line_def n validate_to_dict Let_def)
  qed
qed

theorem capture_rejects_witness:
  "\<exists>j. capture_line (\<lambda>_. []) (\<lambda>_. []) ''0,10.0.0.1'' = Inr (Inl j) \<and> reason j = WRONG_COLUMNS"
proof -
  have c: "length (split_on (CHR '','') (rstrip_crlf ''0,10.0.0.1'')) \<noteq> 16" by code_simp
  show ?thesis using capture_rejects [of "\<lambda>_. []" "\<lambda>_. []" "''0,10.0.0.1''"] c unfolding Let_def by blast
qed

end
