(* ===== verification/Writers.thy ===== *)
theory Writers
  imports Capture_Parser "HOL-Library.Sublist"
begin

text \<open>
  The output side of the capture layer, \<open>capture/writers.py\<close>: the writer interface, the rotating CSV
  writer, the JSON lines writer, the TCP writer with its bounded buffer, and the stdout writer.
  A file is the list of the chunks written to it and a directory is the list of its files in the
  order of their creation; files are line buffered, so a written line is in the file at once.
  The clock is an argument of each call, the outcomes of the network calls are a stream of the state.
\<close>

section \<open>The interface\<close>

datatype ('e, 'r) sink_op = Write 'e 'r | Flush 'e | Close 'e

text \<open>A run of calls on a writer, with the records whose \<open>write\<close> returned.\<close>

fun sink_run :: "('e \<Rightarrow> 'r \<Rightarrow> 's \<Rightarrow> 's \<times> unit res) \<Rightarrow> ('e \<Rightarrow> 's \<Rightarrow> 's) \<Rightarrow> ('e \<Rightarrow> 's \<Rightarrow> 's) \<Rightarrow>
    ('e, 'r) sink_op list \<Rightarrow> 's \<Rightarrow> 's \<times> 'r list" where
  "sink_run put flush close [] s = (s, [])"
| "sink_run put flush close (Write e r # ops) s =
     (case put e r s of
        (s1, Inl _) \<Rightarrow> sink_run put flush close ops s1
      | (s1, Inr _) \<Rightarrow> (case sink_run put flush close ops s1 of (s2, rs) \<Rightarrow> (s2, r # rs)))"
| "sink_run put flush close (Flush e # ops) s = sink_run put flush close ops (flush e s)"
| "sink_run put flush close (Close e # ops) s = sink_run put flush close ops (close e s)"

lemma subseq_step: "subseq a b \<Longrightarrow> subseq c (a @ x) \<Longrightarrow> subseq c (b @ x)"
  by (rule subseq_order.order_trans [OF _ list_emb_append_mono [OF _ subseq_order.order_refl]])

text \<open>Every writer delivers lines at most once and in order: what it has delivered or still holds is a
  subsequence of what it was given.\<close>

locale line_sink =
  fixes put :: "'e \<Rightarrow> 'r \<Rightarrow> 's \<Rightarrow> 's \<times> unit res"
    and flush :: "'e \<Rightarrow> 's \<Rightarrow> 's"
    and close :: "'e \<Rightarrow> 's \<Rightarrow> 's"
    and line :: "'r \<Rightarrow> string"
    and out :: "'s \<Rightarrow> string list"
    and good :: "'s \<Rightarrow> bool"
  assumes write_good: "good s \<Longrightarrow> put e r s = (s', x) \<Longrightarrow> good s'"
    and flush_good: "good s \<Longrightarrow> good (flush e s)"
    and close_good: "good s \<Longrightarrow> good (close e s)"
    and write_out: "good s \<Longrightarrow> put e r s = (s', Inr u) \<Longrightarrow> subseq (out s') (out s @ [line r])"
    and write_error: "good s \<Longrightarrow> put e r s = (s', Inl er) \<Longrightarrow> subseq (out s') (out s)"
    and flush_out: "good s \<Longrightarrow> subseq (out (flush e s)) (out s)"
    and close_out: "good s \<Longrightarrow> subseq (out (close e s)) (out s)"
begin

lemma run_good: "good s \<Longrightarrow> good (fst (sink_run put flush close ops s))"
proof (induction ops arbitrary: s)
  case (Cons a ops)
  then show ?case
  proof (cases a)
    case (Write e r)
    obtain s1 x where w: "put e r s = (s1, x)" by (cases "put e r s")
    show ?thesis using Cons.IH [OF write_good [OF Cons.prems w]]
      by (cases x) (simp_all add: Write w case_prod_beta)
  qed (simp_all add: flush_good close_good)
qed simp

lemma run_out:
  "good s \<Longrightarrow> sink_run put flush close ops s = (s', rs) \<Longrightarrow> subseq (out s') (out s @ map line rs)"
proof (induction ops arbitrary: s rs)
  case (Cons a ops)
  show ?case
  proof (cases a)
    case (Write e r)
    obtain s1 x where w: "put e r s = (s1, x)" by (cases "put e r s")
    note g = write_good [OF Cons.prems(1) w]
    show ?thesis
    proof (cases x)
      case (Inl y)
      then have "sink_run put flush close ops s1 = (s', rs)" using Cons.prems(2) by (simp add: Write w)
      from Cons.IH [OF g this] write_error [OF Cons.prems(1), of e r s1 y] w Inl
      show ?thesis by (auto intro: subseq_step)
    next
      case (Inr u)
      obtain s2 rs' where r: "sink_run put flush close ops s1 = (s2, rs')"
        by (cases "sink_run put flush close ops s1")
      then have "s2 = s'" "rs = r # rs'" using Cons.prems(2) Inr by (simp_all add: Write w)
      moreover have "subseq (out s1) (out s @ [line r])" using write_out [OF Cons.prems(1)] w Inr by simp
      ultimately show ?thesis using Cons.IH [OF g, of rs'] r subseq_step [of "out s1" "out s @ [line r]"] by auto
    qed
  next
    case (Flush e)
    then show ?thesis using Cons.IH [OF flush_good [OF Cons.prems(1)], of e rs] Cons.prems flush_out [OF Cons.prems(1), of e]
      by (auto intro: subseq_step)
  next
    case (Close e)
    then show ?thesis using Cons.IH [OF close_good [OF Cons.prems(1)], of e rs] Cons.prems close_out [OF Cons.prems(1), of e]
      by (auto intro: subseq_step)
  qed
qed simp

text \<open>What every call preserves, in one state after the other, a run preserves.\<close>

lemma run_rel:
  assumes refl: "\<And>t. R t t" and trans: "\<And>t u v. R t u \<Longrightarrow> R u v \<Longrightarrow> R t v"
    and step: "\<And>t e r t' x. good t \<Longrightarrow> put e r t = (t', x) \<Longrightarrow> R t t'"
    "\<And>t e. good t \<Longrightarrow> R t (flush e t)" "\<And>t e. good t \<Longrightarrow> R t (close e t)"
    and "good s"
  shows "R s (fst (sink_run put flush close ops s))"
  using assms(6)
proof (induction ops arbitrary: s)
  case (Cons a ops)
  show ?case
  proof (cases a)
    case (Write e r)
    obtain s1 x where w: "put e r s = (s1, x)" by (cases "put e r s")
    have "R s1 (fst (sink_run put flush close ops s1))" using Cons.IH [OF write_good [OF Cons.prems w]] .
    then show ?thesis using trans [OF step(1) [OF Cons.prems w]] by (cases x) (simp_all add: Write w case_prod_beta)
  next
    case (Flush e)
    show ?thesis using trans [OF step(2) [OF Cons.prems] Cons.IH [OF flush_good [OF Cons.prems]]] by (simp add: Flush)
  next
    case (Close e)
    show ?thesis using trans [OF step(3) [OF Cons.prems] Cons.IH [OF close_good [OF Cons.prems]]] by (simp add: Close)
  qed
qed (simp add: refl)

end

text \<open>The writers to files lose nothing: they refine an append-only log.\<close>

locale line_log =
  fixes put :: "'e \<Rightarrow> 'r \<Rightarrow> 's \<Rightarrow> 's \<times> unit res"
    and flush :: "'e \<Rightarrow> 's \<Rightarrow> 's"
    and close :: "'e \<Rightarrow> 's \<Rightarrow> 's"
    and line :: "'r \<Rightarrow> string"
    and out :: "'s \<Rightarrow> string list"
    and good :: "'s \<Rightarrow> bool"
  assumes log_write_good: "good s \<Longrightarrow> put e r s = (s', x) \<Longrightarrow> good s'"
    and log_flush_good: "good s \<Longrightarrow> good (flush e s)"
    and log_close_good: "good s \<Longrightarrow> good (close e s)"
    and log_write: "good s \<Longrightarrow> put e r s = (s', Inr u) \<Longrightarrow> out s' = out s @ [line r]"
    and log_error: "good s \<Longrightarrow> put e r s = (s', Inl er) \<Longrightarrow> out s' = out s"
    and log_flush: "good s \<Longrightarrow> out (flush e s) = out s"
    and log_close: "good s \<Longrightarrow> out (close e s) = out s"
begin

lemma log_run:
  "good s \<Longrightarrow> sink_run put flush close ops s = (s', rs) \<Longrightarrow> good s' \<and> out s' = out s @ map line rs"
proof (induction ops arbitrary: s rs)
  case (Cons a ops)
  show ?case
  proof (cases a)
    case (Write e r)
    obtain s1 x where w: "put e r s = (s1, x)" by (cases "put e r s")
    note g = log_write_good [OF Cons.prems(1) w]
    show ?thesis using Cons.IH [OF g] Cons.prems w log_write log_error
      by (cases x; cases "sink_run put flush close ops s1") (auto simp: Write)
  qed (use Cons.IH [OF log_flush_good [OF Cons.prems(1)]] Cons.IH [OF log_close_good [OF Cons.prems(1)]]
         Cons.prems log_flush log_close in auto)
qed simp

end

sublocale line_log \<subseteq> line_sink
  by unfold_locales (auto simp: log_write_good log_flush_good log_close_good log_write log_error log_flush log_close)


section \<open>Records as lines\<close>

datatype any_record = RObj capture_record | RDict traffic_record | RSeq "field_value list" | ROther

fun record_to_dict :: "any_record \<Rightarrow> traffic_record res" where
  "record_to_dict (RObj r) = Inr (to_dict r)"
| "record_to_dict (RDict d) = Inr d"
| "record_to_dict (RSeq vs) = (if length vs = num_fields then Inr (zip field_names vs) else Inl ValueError)"
| "record_to_dict ROther = Inl TypeError"

definition newline :: char where "newline = CHR 0x0A"

definition csv_line :: "(real \<Rightarrow> string) \<Rightarrow> any_record \<Rightarrow> string res" where
  "csv_line show r = bindE (record_to_dict r) (\<lambda>d. Inr (format_row show d @ [newline]))"

text \<open>The line of a record that has one.\<close>

definition the_line :: "string res \<Rightarrow> string" where
  "the_line x = (case x of Inl _ \<Rightarrow> [] | Inr l \<Rightarrow> l)"

lemma the_line_Inr [simp]: "the_line (Inr l) = l" by (simp add: the_line_def)

section \<open>The rotating CSV writer\<close>

record csv_writer =
  rotate_seconds :: int
  rotate_bytes :: int
  current_path :: "string option"
  file_start_time :: "real option"
  bytes_written :: nat
  last_flush_time :: real
  out_dir :: "(string, string list) dict"

definition csv_writer_init :: "int \<Rightarrow> int \<Rightarrow> (string, string list) dict \<Rightarrow> csv_writer" where
  "csv_writer_init seconds mb dir =
     \<lparr>rotate_seconds = seconds, rotate_bytes = mb * 1024 * 1024, current_path = None, file_start_time = None,
      bytes_written = 0, last_flush_time = 0, out_dir = dir\<rparr>"

definition should_rotate :: "real \<Rightarrow> csv_writer \<Rightarrow> bool" where
  "should_rotate now w =
     (if current_path w = None then True
      else if rotate_seconds w > 0 \<and> (case file_start_time w of None \<Rightarrow> False
                | Some t \<Rightarrow> now - t \<ge> of_int (rotate_seconds w)) then True
      else rotate_bytes w > 0 \<and> int (bytes_written w) \<ge> rotate_bytes w)"

text \<open>\<open>strftime('%Y%m%d_%H%M%S')\<close> and the names tried for a new file.\<close>

definition base_name :: "datetime \<Rightarrow> string" where
  "base_name t = ''traffic_'' @ int_str (dt_year t) @ pad 2 (dt_month t) @ pad 2 (dt_day t) @ ''_''
     @ pad 2 (dt_hour t) @ pad 2 (dt_minute t) @ pad 2 (dt_second t)"

definition numbered :: "string \<Rightarrow> nat \<Rightarrow> string" where
  "numbered base k = base @ ''_'' @ int_str (int k) @ ''.csv''"

lemma inj_numbered: "inj (numbered base)"
proof (rule injI)
  fix i j assume "numbered base i = numbered base j"
  then have "py_int (int_str (int i)) = py_int (int_str (int j))" by (simp add: numbered_def)
  then show "i = j" by (simp only: py_int_str option.inject of_nat_eq_iff)
qed

text \<open>The loop \<open>while file_path.exists()\<close>: the names in use are finite, so it ends.\<close>

definition taken_from :: "string list \<Rightarrow> string \<Rightarrow> nat \<Rightarrow> nat set" where
  "taken_from names base k = {j. k \<le> j \<and> numbered base j \<in> set names}"

lemma finite_taken: "finite (taken_from names base k)"
proof -
  have "finite (numbered base -` set names)" by (rule finite_vimageI [OF finite_set inj_numbered])
  then show ?thesis by (rule rev_finite_subset) (auto simp: taken_from_def)
qed

lemma taken_from_Suc:
  "card (taken_from names base k)
     = (if numbered base k \<in> set names then 1 else 0) + card (taken_from names base (Suc k))"
proof (cases "numbered base k \<in> set names")
  case True
  then have "taken_from names base k = insert k (taken_from names base (Suc k))"
    by (auto simp: taken_from_def Suc_le_eq le_less)
  moreover have "k \<notin> taken_from names base (Suc k)" by (simp add: taken_from_def)
  ultimately show ?thesis using True finite_taken by simp
next
  case False
  then have "taken_from names base k = taken_from names base (Suc k)"
    by (auto simp: taken_from_def Suc_le_eq le_less)
  then show ?thesis using False by simp
qed

function free_path :: "string list \<Rightarrow> string \<Rightarrow> string \<Rightarrow> nat \<Rightarrow> string" where
  "free_path names base path k =
     (if path \<in> set names then free_path names base (numbered base k) (Suc k) else path)"
  by pat_completeness auto
termination
  by (relation "measure (\<lambda>(names, base, path, k).
        (if path \<in> set names then 1 else 0) + card (taken_from names base k))")
     (simp_all add: taken_from_Suc [symmetric])

declare free_path.simps [simp del]

definition new_path :: "string list \<Rightarrow> datetime \<Rightarrow> string" where
  "new_path names t = free_path names (base_name t) (base_name t @ ''.csv'') 1"

definition close_current :: "csv_writer \<Rightarrow> csv_writer" where
  "close_current w = w\<lparr>current_path := None, file_start_time := None, bytes_written := 0\<rparr>"

definition open_new_file :: "real \<Rightarrow> csv_writer \<Rightarrow> csv_writer \<times> unit res" where
  "open_new_file now w =
     (case from_timestamp now of
        Inl e \<Rightarrow> (w, Inl e)
      | Inr t \<Rightarrow>
          let path = new_path (dkeys (out_dir w)) t
          in (w\<lparr>current_path := Some path, file_start_time := Some now, bytes_written := 0,
                last_flush_time := now, out_dir := out_dir w @ [(path, [])]\<rparr>, Inr ()))"

definition rotate_if_needed :: "real \<Rightarrow> csv_writer \<Rightarrow> csv_writer \<times> unit res" where
  "rotate_if_needed now w =
     (if should_rotate now w then open_new_file now (close_current w) else (w, Inr ()))"

text \<open>The length of \<open>line.encode("utf-8")\<close>; a character is below 256.\<close>

definition utf8_length :: "string \<Rightarrow> nat" where
  "utf8_length s = sum_list (map (\<lambda>c. if of_char c < (128 :: nat) then 1 else 2) s)"

definition append_line :: "real \<Rightarrow> string \<Rightarrow> csv_writer \<Rightarrow> csv_writer \<times> unit res" where
  "append_line now l w =
     (case current_path w of
        None \<Rightarrow> (w, Inl AssertionError)
      | Some path \<Rightarrow>
          (w\<lparr>out_dir := dset path (dget_or (out_dir w) path [] @ [l]) (out_dir w),
             bytes_written := bytes_written w + utf8_length l,
             last_flush_time := (if now - last_flush_time w \<ge> 1 then now else last_flush_time w)\<rparr>, Inr ()))"

definition csv_put :: "(real \<Rightarrow> string) \<Rightarrow> real \<Rightarrow> any_record \<Rightarrow> csv_writer \<Rightarrow> csv_writer \<times> unit res" where
  "csv_put show now r w =
     (case rotate_if_needed now w of
        (w1, Inl e) \<Rightarrow> (w1, Inl e)
      | (w1, Inr _) \<Rightarrow> (case csv_line show r of
            Inl e \<Rightarrow> (w1, Inl e)
          | Inr l \<Rightarrow> append_line now l w1))"

definition csv_flush :: "real \<Rightarrow> csv_writer \<Rightarrow> csv_writer" where
  "csv_flush now w = (if current_path w \<noteq> None then w\<lparr>last_flush_time := now\<rparr> else w)"

definition csv_close :: "real \<Rightarrow> csv_writer \<Rightarrow> csv_writer" where
  "csv_close now w = close_current w"


lemma free_path_spec:
  "(free_path names base path k = path \<and> path \<notin> set names)
   \<or> (path \<in> set names \<and> (\<exists>j \<ge> k. free_path names base path k = numbered base j \<and> numbered base j \<notin> set names
        \<and> (\<forall>i. k \<le> i \<and> i < j \<longrightarrow> numbered base i \<in> set names)))"
proof (induction names base path k rule: free_path.induct)
  case (1 names base path k)
  show ?case
  proof (cases "path \<in> set names")
    case True
    then have eq: "free_path names base path k = free_path names base (numbered base k) (Suc k)"
      by (subst free_path.simps) simp
    from 1 [OF True] show ?thesis
    proof
      assume "free_path names base (numbered base k) (Suc k) = numbered base k \<and> numbered base k \<notin> set names"
      then show ?thesis unfolding eq using True by auto
    next
      assume "numbered base k \<in> set names \<and> (\<exists>j \<ge> Suc k. free_path names base (numbered base k) (Suc k) = numbered base j
        \<and> numbered base j \<notin> set names \<and> (\<forall>i. Suc k \<le> i \<and> i < j \<longrightarrow> numbered base i \<in> set names))"
      then obtain j where j: "j \<ge> Suc k" "free_path names base (numbered base k) (Suc k) = numbered base j"
        "numbered base j \<notin> set names" "\<And>i. Suc k \<le> i \<Longrightarrow> i < j \<Longrightarrow> numbered base i \<in> set names"
        and k: "numbered base k \<in> set names" by blast
      have "i < j \<Longrightarrow> k \<le> i \<Longrightarrow> numbered base i \<in> set names" for i
        using j(4) [of i] k by (cases "i = k") auto
      then show ?thesis unfolding eq using j True by (intro disjI2 conjI exI [of _ j]) auto
    qed
  qed (subst free_path.simps, simp)
qed

definition csv_out :: "csv_writer \<Rightarrow> string list" where
  "csv_out w = concat (map snd (out_dir w))"

definition chunks_size :: "string list \<Rightarrow> nat" where
  "chunks_size ls = sum_list (map utf8_length ls)"

text \<open>The files that are no longer written.\<close>

definition closed_files :: "csv_writer \<Rightarrow> (string, string list) dict" where
  "closed_files w = (if current_path w = None then out_dir w else butlast (out_dir w))"

text \<open>The invariant: the current file is the newest and its size is known; the files made after the first
  \<open>n\<close> stay below the limit \<open>B\<close> before their last line.\<close>

definition csv_good :: "int \<Rightarrow> nat \<Rightarrow> csv_writer \<Rightarrow> bool" where
  "csv_good B n w \<longleftrightarrow> rotate_bytes w = B \<and> wf_dict (out_dir w) \<and> n \<le> length (closed_files w)
     \<and> (\<forall>p. current_path w = Some p \<longrightarrow> (\<exists>ls. out_dir w = closed_files w @ [(p, ls)] \<and> bytes_written w = chunks_size ls))
     \<and> (\<forall>f \<in> set (drop n (out_dir w)). B > 0 \<longrightarrow> snd f \<noteq> [] \<longrightarrow> int (chunks_size (butlast (snd f))) < B)"

lemma dset_last: "p \<notin> set (dkeys d) \<Longrightarrow> dset p v (d @ [(p, c)]) = d @ [(p, v)]"
  by (induction d) auto

lemma dget_last: "p \<notin> set (dkeys d) \<Longrightarrow> dget_or (d @ [(p, c)]) p x = c"
  by (induction d) (auto simp: dget_or_def)

lemma close_current_good:
  assumes "csv_good B n w"
  shows "csv_good B n (close_current w)" "csv_out (close_current w) = csv_out w"
    "prefix (closed_files w) (closed_files (close_current w))" "out_dir (close_current w) = out_dir w"
proof -
  show "prefix (closed_files w) (closed_files (close_current w))"
    by (simp add: closed_files_def close_current_def prefixeq_butlast)
  have "length (closed_files w) \<le> length (out_dir w)" by (simp add: closed_files_def)
  then show "csv_good B n (close_current w)"
    using assms by (simp add: csv_good_def close_current_def closed_files_def)
qed (simp_all add: csv_out_def close_current_def)

lemma open_new_file_good:
  assumes good: "csv_good B n w" and closed: "current_path w = None" and run: "open_new_file now w = (w', x)"
  shows "csv_good B n w'" "csv_out w' = csv_out w" "prefix (closed_files w) (closed_files w')"
    "x = Inr u \<Longrightarrow> \<exists>p. current_path w' = Some p \<and> bytes_written w' = 0 \<and> out_dir w' = out_dir w @ [(p, [])]"
proof -
  show "csv_good B n w'"
  proof (cases "from_timestamp now")
    case (Inr t)
    define p where "p = new_path (dkeys (out_dir w)) t"
    have "p \<notin> set (dkeys (out_dir w))" using free_path_spec unfolding p_def new_path_def by metis
    moreover have w': "out_dir w' = out_dir w @ [(p, [])]" "current_path w' = Some p" "rotate_bytes w' = rotate_bytes w"
      "bytes_written w' = 0" using run Inr by (auto simp: open_new_file_def p_def Let_def)
    moreover have "closed_files w' = out_dir w" using w' by (simp add: closed_files_def)
    ultimately show ?thesis using good closed
      by (auto simp: csv_good_def chunks_size_def closed_files_def)
  qed (use good run in \<open>simp add: open_new_file_def\<close>)
  show "csv_out w' = csv_out w" "prefix (closed_files w) (closed_files w')"
    "x = Inr u \<Longrightarrow> \<exists>p. current_path w' = Some p \<and> bytes_written w' = 0 \<and> out_dir w' = out_dir w @ [(p, [])]"
    using run closed by (auto simp: open_new_file_def csv_out_def closed_files_def Let_def split: sum.splits)
qed

lemma rotate_good:
  assumes good: "csv_good B n w" and run: "rotate_if_needed now w = (w', x)"
  shows "csv_good B n w'" "csv_out w' = csv_out w" "prefix (closed_files w) (closed_files w')"
    "x = Inr u \<Longrightarrow> current_path w' \<noteq> None \<and> (B > 0 \<longrightarrow> int (bytes_written w') < B)"
proof -
  note c = close_current_good [OF good]
  have none: "current_path (close_current w) = None" by (simp add: close_current_def)
  have "csv_good B n w' \<and> csv_out w' = csv_out w \<and> prefix (closed_files w) (closed_files w')
      \<and> (x = Inr u \<longrightarrow> current_path w' \<noteq> None \<and> (B > 0 \<longrightarrow> int (bytes_written w') < B))"
  proof (cases "should_rotate now w")
    case True
    then have "open_new_file now (close_current w) = (w', x)" using run by (simp add: rotate_if_needed_def)
    note o = open_new_file_good [OF c(1) none this]
    show ?thesis using o(1,2) o(4) [of u] c(2) prefix_order.order_trans [OF c(3) o(3)] by auto
  next
    case False
    then have "w' = w" using run by (simp add: rotate_if_needed_def)
    moreover have "current_path w \<noteq> None" "rotate_bytes w > 0 \<longrightarrow> int (bytes_written w) < rotate_bytes w"
      using False unfolding should_rotate_def by (meson linorder_not_le)+
    ultimately show ?thesis using good by (simp add: csv_good_def)
  qed
  then show "csv_good B n w'" "csv_out w' = csv_out w" "prefix (closed_files w) (closed_files w')"
    "x = Inr u \<Longrightarrow> current_path w' \<noteq> None \<and> (B > 0 \<longrightarrow> int (bytes_written w') < B)" by blast+
qed

lemma append_line_good:
  assumes good: "csv_good B n w" and path: "current_path w = Some p" and small: "B > 0 \<Longrightarrow> int (bytes_written w) < B"
    and run: "append_line now l w = (w', x)"
  shows "csv_good B n w'" "csv_out w' = csv_out w @ [l]" "closed_files w' = closed_files w" "x = Inr ()"
proof -
  obtain ls where ls: "out_dir w = closed_files w @ [(p, ls)]" "bytes_written w = chunks_size ls"
    using good path unfolding csv_good_def by blast
  have new: "p \<notin> set (dkeys (closed_files w))" using good unfolding csv_good_def ls(1) by simp
  have w': "out_dir w' = closed_files w @ [(p, ls @ [l])]" "current_path w' = Some p" "rotate_bytes w' = rotate_bytes w"
    "bytes_written w' = bytes_written w + utf8_length l"
    using run by (auto simp: append_line_def path ls(1) dset_last [OF new] dget_last [OF new])
  then show cl: "closed_files w' = closed_files w" by (simp add: closed_files_def)
  show "x = Inr ()" using run by (simp add: append_line_def path)
  show "csv_out w' = csv_out w @ [l]" by (simp add: csv_out_def w' ls(1))
  have "n \<le> length (closed_files w)" using good by (simp add: csv_good_def)
  then show "csv_good B n w'" using good small unfolding csv_good_def w' cl ls by (simp add: chunks_size_def)
qed

lemma csv_put_good:
  assumes good: "csv_good B n w" and run: "csv_put show now r w = (w', x)"
  shows "csv_good B n w'" "prefix (closed_files w) (closed_files w')"
    "x = Inr u \<Longrightarrow> csv_out w' = csv_out w @ [the_line (csv_line show r)]" "x = Inl e \<Longrightarrow> csv_out w' = csv_out w"
proof -
  obtain w1 y where rot: "rotate_if_needed now w = (w1, y)" by (cases "rotate_if_needed now w")
  note r = rotate_good [OF good rot]
  have app: "append_line now l w1 = (w', x) \<Longrightarrow> y = Inr () \<Longrightarrow> csv_good B n w' \<and> csv_out w' = csv_out w @ [l]
      \<and> closed_files w' = closed_files w1 \<and> x = Inr ()" for l
  proof -
    assume a: "append_line now l w1 = (w', x)" "y = Inr ()"
    obtain p where "current_path w1 = Some p" "B > 0 \<longrightarrow> int (bytes_written w1) < B" using r(4) [OF a(2)] by auto
    from append_line_good [OF r(1) this(1) _ a(1)] this(2) r(2) show ?thesis by simp
  qed
  have "csv_good B n w' \<and> prefix (closed_files w) (closed_files w')
      \<and> (x = Inr u \<longrightarrow> csv_out w' = csv_out w @ [the_line (csv_line show r)]) \<and> (x = Inl e \<longrightarrow> csv_out w' = csv_out w)"
  proof (cases y)
    case (Inl a)
    then show ?thesis using run r(1-3) by (auto simp: csv_put_def rot)
  next
    case (Inr a)
    show ?thesis
    proof (cases "csv_line show r")
      case (Inl b)
      then show ?thesis using run r(1-3) Inr by (auto simp: csv_put_def rot)
    next
      case (Inr l)
      then have "append_line now l w1 = (w', x)" using run \<open>y = Inr a\<close> by (simp add: csv_put_def rot)
      with app [of l] show ?thesis using r(3) Inr \<open>y = Inr a\<close> by auto
    qed
  qed
  then show "csv_good B n w'" "prefix (closed_files w) (closed_files w')"
    "x = Inr u \<Longrightarrow> csv_out w' = csv_out w @ [the_line (csv_line show r)]" "x = Inl e \<Longrightarrow> csv_out w' = csv_out w" by blast+
qed

lemma csv_flush_good:
  assumes "csv_good B n w"
  shows "csv_good B n (csv_flush e w)" "csv_out (csv_flush e w) = csv_out w"
    "closed_files (csv_flush e w) = closed_files w"
proof -
  show c: "closed_files (csv_flush e w) = closed_files w" by (simp add: csv_flush_def closed_files_def)
  show "csv_out (csv_flush e w) = csv_out w" by (simp add: csv_flush_def csv_out_def)
  show "csv_good B n (csv_flush e w)"
    using assms unfolding csv_good_def c by (simp add: csv_flush_def)
qed

interpretation csv: line_log "csv_put show" csv_flush csv_close "\<lambda>r. the_line (csv_line show r)" csv_out "csv_good B n"
  by unfold_locales (auto simp: csv_put_good csv_flush_good close_current_good csv_close_def)

lemma csv_closed_rel: "csv_good B n w \<Longrightarrow>
  prefix (closed_files w) (closed_files (fst (sink_run (csv_put show) csv_flush csv_close ops w)))"
  by (rule csv.run_rel [where R = "\<lambda>v w. prefix (closed_files v) (closed_files w)"])
     (auto intro: csv_put_good close_current_good prefix_order.order_trans simp: csv_flush_good csv_close_def)

lemma csv_init_good: "wf_dict dir \<Longrightarrow> csv_good (mb * 1024 * 1024) (length dir) (csv_writer_init seconds mb dir)"
  by (simp add: csv_good_def csv_writer_init_def closed_files_def)

section \<open>The JSON lines writer\<close>

text \<open>\<open>json.dumps\<close> of a string: ASCII only, control characters escaped.\<close>

definition json_char :: "char \<Rightarrow> string" where
  "json_char c =
     (if c = CHR 0x22 then [CHR 0x5C, CHR 0x22]
      else if c = CHR 0x5C then [CHR 0x5C, CHR 0x5C]
      else if c = CHR 0x0A then [CHR 0x5C, CHR ''n'']
      else if c = CHR 0x0D then [CHR 0x5C, CHR ''r'']
      else if c = CHR 0x09 then [CHR 0x5C, CHR ''t'']
      else if c = CHR 0x08 then [CHR 0x5C, CHR ''b'']
      else if c = CHR 0x0C then [CHR 0x5C, CHR ''f'']
      else if 32 \<le> (of_char c :: nat) \<and> (of_char c :: nat) < 127 then [c]
      else CHR 0x5C # ''u00'' @ hex2 (of_char c))"

definition json_string :: "string \<Rightarrow> string" where
  "json_string s = [CHR 0x22] @ concat (map json_char s) @ [CHR 0x22]"

fun json_value :: "(real \<Rightarrow> string) \<Rightarrow> field_value \<Rightarrow> string" where
  "json_value show FNone = ''null''"
| "json_value show (FStr s) = json_string s"
| "json_value show (FInt k) = int_str k"
| "json_value show (FFloat (Fin x)) = show x"
| "json_value show (FFloat PosInf) = ''Infinity''"
| "json_value show (FFloat NegInf) = ''-Infinity''"
| "json_value show (FFloat NaN) = ''NaN''"

definition json_object :: "(real \<Rightarrow> string) \<Rightarrow> traffic_record \<Rightarrow> string" where
  "json_object show d = ''{'' @ join '', '' (map (\<lambda>(k, v). json_string k @ '': '' @ json_value show v) d) @ ''}''"

definition json_line :: "(real \<Rightarrow> string) \<Rightarrow> any_record \<Rightarrow> string res" where
  "json_line show r =
     bindE (record_to_dict r) (\<lambda>d.
       Inr (json_object show (map (\<lambda>k. (k, dget_or d k FNone)) field_names) @ [newline]))"

record json_writer =
  json_file :: "string list"
  json_closed :: bool

definition json_writer_init :: "string list \<Rightarrow> json_writer" where
  "json_writer_init content = \<lparr>json_file = content, json_closed = False\<rparr>"

definition json_put :: "(real \<Rightarrow> string) \<Rightarrow> unit \<Rightarrow> any_record \<Rightarrow> json_writer \<Rightarrow> json_writer \<times> unit res" where
  "json_put show u r w =
     (case json_line show r of
        Inl e \<Rightarrow> (w, Inl e)
      | Inr l \<Rightarrow> if json_closed w then (w, Inl ValueError) else (w\<lparr>json_file := json_file w @ [l]\<rparr>, Inr ()))"

definition json_flush :: "unit \<Rightarrow> json_writer \<Rightarrow> json_writer" where
  "json_flush u w = w"

definition json_close :: "unit \<Rightarrow> json_writer \<Rightarrow> json_writer" where
  "json_close u w = (if json_closed w then w else w\<lparr>json_closed := True\<rparr>)"

interpretation jsonl: line_log "json_put show" json_flush json_close "\<lambda>r. the_line (json_line show r)" json_file "\<lambda>_. True"
  by unfold_locales (auto simp: json_put_def json_flush_def json_close_def split: sum.splits if_splits)


section \<open>The TCP writer\<close>

text \<open>\<open>tcp_net n\<close> is the outcome of the \<open>n\<close>-th call to \<open>connect\<close> or \<open>sendall\<close>; \<open>tcp_out\<close> holds the lines
  whose \<open>sendall\<close> returned, and \<open>tcp_lost\<close> those taken from the buffer whose \<open>sendall\<close> raised.  These four
  fields are the outside and the history; the code keeps no count of the lost lines.\<close>

record tcp_writer =
  buffer_size :: nat
  tcp_buffer :: "string list"
  tcp_socket :: bool
  dropped_records :: nat
  records_sent :: nat
  last_connect_attempt :: real
  backoff :: real
  tcp_net :: "nat \<Rightarrow> bool"
  net_calls :: nat
  tcp_out :: "string list"
  tcp_lost :: "string list"

definition max_backoff :: real where "max_backoff = 8"

definition tcp_writer_init :: "nat \<Rightarrow> (nat \<Rightarrow> bool) \<Rightarrow> tcp_writer" where
  "tcp_writer_init cap net =
     \<lparr>buffer_size = cap, tcp_buffer = [], tcp_socket = False, dropped_records = 0, records_sent = 0,
      last_connect_attempt = 0, backoff = 1 / 2, tcp_net = net, net_calls = 0, tcp_out = [], tcp_lost = []\<rparr>"

definition net_call :: "tcp_writer \<Rightarrow> bool \<times> tcp_writer" where
  "net_call w = (tcp_net w (net_calls w), w\<lparr>net_calls := net_calls w + 1\<rparr>)"

text \<open>\<open>sendall\<close> and the counter behind it.\<close>

definition send_line :: "string \<Rightarrow> tcp_writer \<Rightarrow> bool \<times> tcp_writer" where
  "send_line l w =
     (case net_call w of (ok, w1) \<Rightarrow>
        if ok then (True, w1\<lparr>tcp_out := tcp_out w1 @ [l], records_sent := records_sent w1 + 1\<rparr>) else (False, w1))"

text \<open>The loop that empties the buffer; a line leaves the buffer before it is sent.\<close>

fun drain :: "string list \<Rightarrow> tcp_writer \<Rightarrow> bool \<times> tcp_writer" where
  "drain [] w = (True, w\<lparr>tcp_buffer := []\<rparr>)"
| "drain (l # ls) w =
     (case send_line l (w\<lparr>tcp_buffer := ls\<rparr>) of
        (ok, w1) \<Rightarrow> if ok then drain ls w1 else (False, w1\<lparr>tcp_lost := tcp_lost w1 @ [l]\<rparr>))"

definition connect_failed :: "tcp_writer \<Rightarrow> bool \<times> tcp_writer" where
  "connect_failed w = (False, w\<lparr>tcp_socket := False, backoff := min (backoff w * 2) max_backoff\<rparr>)"

definition ensure_connected :: "real \<Rightarrow> tcp_writer \<Rightarrow> bool \<times> tcp_writer" where
  "ensure_connected now w =
     (if tcp_socket w then (True, w)
      else if now - last_connect_attempt w < backoff w then (False, w)
      else case net_call (w\<lparr>last_connect_attempt := now\<rparr>) of (ok, w1) \<Rightarrow>
        if \<not> ok then connect_failed w1
        else case drain (tcp_buffer w1) (w1\<lparr>tcp_socket := True, backoff := 1 / 2\<rparr>) of (ok2, w2) \<Rightarrow>
               if ok2 then (True, w2) else connect_failed w2)"

text \<open>\<open>deque(maxlen)\<close>\<close>

definition push_bounded :: "nat \<Rightarrow> string \<Rightarrow> string list \<Rightarrow> string list" where
  "push_bounded n l q = drop (length q + 1 - n) (q @ [l])"

definition enqueue :: "string \<Rightarrow> tcp_writer \<Rightarrow> tcp_writer" where
  "enqueue l w =
     w\<lparr>dropped_records := (if length (tcp_buffer w) \<ge> buffer_size w then dropped_records w + 1 else dropped_records w),
       tcp_buffer := push_bounded (buffer_size w) l (tcp_buffer w)\<rparr>"

definition tcp_send :: "real \<Rightarrow> string \<Rightarrow> tcp_writer \<Rightarrow> tcp_writer" where
  "tcp_send now l w =
     (case ensure_connected now w of (conn, w1) \<Rightarrow>
        if conn \<and> tcp_socket w1
        then case send_line l w1 of (ok, w2) \<Rightarrow> if ok then w2 else enqueue l (w2\<lparr>tcp_socket := False\<rparr>)
        else enqueue l w1)"

definition tcp_put :: "(real \<Rightarrow> string) \<Rightarrow> real \<Rightarrow> any_record \<Rightarrow> tcp_writer \<Rightarrow> tcp_writer \<times> unit res" where
  "tcp_put show now r w =
     (case csv_line show r of Inl e \<Rightarrow> (w, Inl e) | Inr l \<Rightarrow> (tcp_send now l w, Inr ()))"

definition tcp_flush :: "real \<Rightarrow> tcp_writer \<Rightarrow> tcp_writer" where
  "tcp_flush now w =
     (case ensure_connected now w of (conn, w1) \<Rightarrow>
        if tcp_socket w1 \<and> tcp_buffer w1 \<noteq> []
        then case drain (tcp_buffer w1) w1 of (ok, w2) \<Rightarrow> if ok then w2 else w2\<lparr>tcp_socket := False\<rparr>
        else w1)"

definition tcp_close :: "real \<Rightarrow> tcp_writer \<Rightarrow> tcp_writer" where
  "tcp_close now w = (tcp_flush now w)\<lparr>tcp_socket := False\<rparr>"

definition tcp_pending :: "tcp_writer \<Rightarrow> string list" where
  "tcp_pending w = tcp_out w @ tcp_buffer w"

text \<open>The invariant: the counter is the number of lines sent, the buffer respects its size, a connected
  writer has nothing buffered, and the back-off stays between its bounds.\<close>

definition tcp_good :: "tcp_writer \<Rightarrow> bool" where
  "tcp_good w \<longleftrightarrow> records_sent w = length (tcp_out w) \<and> length (tcp_buffer w) \<le> buffer_size w
     \<and> (tcp_socket w \<longrightarrow> tcp_buffer w = []) \<and> 1 / 2 \<le> backoff w \<and> backoff w \<le> max_backoff"

text \<open>The network calls that failed so far, and what the writer accounts for.\<close>

definition net_failures :: "tcp_writer \<Rightarrow> nat" where
  "net_failures w = card {i. i < net_calls w \<and> \<not> tcp_net w i}"

definition accounted :: "tcp_writer \<Rightarrow> nat" where
  "accounted w = records_sent w + dropped_records w + length (tcp_buffer w) + length (tcp_lost w)"

definition keeps :: "nat \<Rightarrow> tcp_writer \<Rightarrow> tcp_writer \<Rightarrow> bool" where
  "keeps k w w' \<longleftrightarrow> tcp_net w' = tcp_net w \<and> buffer_size w' = buffer_size w \<and> accounted w' = accounted w + k
     \<and> length (tcp_lost w') + net_failures w \<le> length (tcp_lost w) + net_failures w'"

lemma net_failures_step:
  "net_calls w' = net_calls w + 1 \<Longrightarrow> tcp_net w' = tcp_net w \<Longrightarrow>
     net_failures w' = net_failures w + (if tcp_net w (net_calls w) then 0 else 1)"
proof -
  assume a: "net_calls w' = net_calls w + 1" "tcp_net w' = tcp_net w"
  have "{i. i < net_calls w' \<and> \<not> tcp_net w' i}
      = (if tcp_net w (net_calls w) then {} else {net_calls w}) \<union> {i. i < net_calls w \<and> \<not> tcp_net w i}"
    using a by (auto simp: less_Suc_eq)
  then show ?thesis by (simp add: net_failures_def)
qed

lemma net_failures_same: "net_calls w' = net_calls w \<Longrightarrow> tcp_net w' = tcp_net w \<Longrightarrow> net_failures w' = net_failures w"
  by (simp add: net_failures_def)

lemma keeps_refl: "keeps 0 w w" by (simp add: keeps_def)

lemma keeps_trans: "keeps j u v \<Longrightarrow> keeps k v w \<Longrightarrow> keeps (j + k) u w"
  by (simp add: keeps_def)

lemma drain_spec:
  "drain ls w = (ok, w') \<Longrightarrow> tcp_buffer w = ls \<Longrightarrow> records_sent w = length (tcp_out w) \<Longrightarrow>
     keeps 0 w w' \<and> subseq (tcp_pending w') (tcp_pending w) \<and> records_sent w' = length (tcp_out w')
   \<and> length (tcp_buffer w') \<le> length ls \<and> (ok \<longrightarrow> tcp_buffer w' = [])
   \<and> tcp_socket w' = tcp_socket w \<and> backoff w' = backoff w"
proof (induction ls arbitrary: w)
  case Nil
  then show ?case by (auto simp: keeps_def accounted_def net_failures_def tcp_pending_def)
next
  case (Cons l ls)
  let ?v = "w\<lparr>tcp_buffer := ls, net_calls := net_calls w + 1\<rparr>"
  have f: "net_failures ?v = net_failures w + (if tcp_net w (net_calls w) then 0 else 1)"
    by (rule net_failures_step) simp_all
  show ?case
  proof (cases "tcp_net w (net_calls w)")
    case False
    let ?l = "?v\<lparr>tcp_lost := tcp_lost w @ [l]\<rparr>"
    have "w' = ?l" "\<not> ok" using Cons.prems(1) False by (auto simp: send_line_def net_call_def)
    moreover have "net_failures ?l = net_failures w + 1" using f False by (simp add: net_failures_def)
    ultimately show ?thesis using Cons.prems
      by (auto simp: keeps_def accounted_def tcp_pending_def intro: list_emb_append_mono)
  next
    case True
    let ?u = "?v\<lparr>tcp_out := tcp_out w @ [l], records_sent := records_sent w + 1\<rparr>"
    have r: "drain ls ?u = (ok, w')" using Cons.prems(1) True by (simp add: send_line_def net_call_def)
    have "net_failures ?u = net_failures w" using f True by (simp add: net_failures_def)
    then have "keeps 0 w ?u" using Cons.prems by (simp add: keeps_def accounted_def)
    moreover have "tcp_pending ?u = tcp_pending w" using Cons.prems by (simp add: tcp_pending_def)
    ultimately show ?thesis using Cons.IH [OF r] Cons.prems keeps_trans [of 0 w ?u 0 w'] by simp
  qed
qed


lemma ensure_connected_spec:
  assumes good: "tcp_good w" and run: "ensure_connected now w = (c, w')"
  shows "tcp_good w' \<and> keeps 0 w w' \<and> subseq (tcp_pending w') (tcp_pending w) \<and> (c \<longleftrightarrow> tcp_socket w')"
proof (cases "tcp_socket w \<or> now - last_connect_attempt w < backoff w")
  case True
  then show ?thesis using good run by (auto simp: ensure_connected_def keeps_refl split: if_splits)
next
  case False
  let ?u = "w\<lparr>last_connect_attempt := now, net_calls := net_calls w + 1\<rparr>"
  have f: "net_failures ?u = net_failures w + (if tcp_net w (net_calls w) then 0 else 1)"
    by (rule net_failures_step) simp_all
  have b: "1 / 2 \<le> min (x * 2) max_backoff \<and> min (x * 2) max_backoff \<le> max_backoff" if "1 / 2 \<le> x" for x :: real
    using that by (simp add: max_backoff_def)
  have acc: "accounted (v\<lparr>tcp_socket := b, backoff := x\<rparr>) = accounted v"
    "net_failures (v\<lparr>tcp_socket := b, backoff := x\<rparr>) = net_failures v" for v b x
    by (simp_all add: accounted_def net_failures_def)
  show ?thesis
  proof (cases "tcp_net w (net_calls w)")
    case False
    then have "w' = ?u\<lparr>tcp_socket := False, backoff := min (backoff w * 2) max_backoff\<rparr>" "\<not> c"
      using run \<open>\<not> (tcp_socket w \<or> _)\<close> by (auto simp: ensure_connected_def net_call_def connect_failed_def)
    then show ?thesis using good f b [of "backoff w"]
      by (simp add: tcp_good_def keeps_def acc) (simp add: accounted_def tcp_pending_def)
  next
    case True
    let ?v = "?u\<lparr>tcp_socket := True, backoff := 1 / 2\<rparr>"
    obtain ok w2 where d: "drain (tcp_buffer w) ?v = (ok, w2)" by (cases "drain (tcp_buffer w) ?v")
    have r: "(c, w') = (if ok then (True, w2) else connect_failed w2)"
      using run True \<open>\<not> (tcp_socket w \<or> _)\<close> d by (simp add: ensure_connected_def net_call_def)
    have v: "keeps 0 w ?v" using f True by (simp add: keeps_def acc) (simp add: accounted_def)
    have sp: "keeps 0 ?v w2" "subseq (tcp_pending w2) (tcp_pending w)" "records_sent w2 = length (tcp_out w2)"
      "length (tcp_buffer w2) \<le> buffer_size w" "ok \<longrightarrow> tcp_buffer w2 = []" "tcp_socket w2" "backoff w2 = 1 / 2"
      using drain_spec [OF d] good by (auto simp: tcp_good_def tcp_pending_def)
    have k: "keeps 0 w w2" "buffer_size w2 = buffer_size w"
      using keeps_trans [OF v sp(1)] by (simp_all add: keeps_def)
    show ?thesis
    proof (cases ok)
      case True
      then show ?thesis using r k sp by (simp add: tcp_good_def max_backoff_def)
    next
      case False
      let ?x = "w2\<lparr>tcp_socket := False, backoff := min (backoff w2 * 2) max_backoff\<rparr>"
      have "keeps 0 w2 ?x" "tcp_pending ?x = tcp_pending w2" by (simp_all add: keeps_def acc tcp_pending_def)
      then have "keeps 0 w ?x" "tcp_pending ?x = tcp_pending w2" using keeps_trans [OF k(1)] by fastforce+
      moreover have "tcp_good ?x" using k(2) sp(3,4,7) by (simp add: tcp_good_def max_backoff_def)
      ultimately show ?thesis using r False sp(2) by (simp add: connect_failed_def)
    qed
  qed
qed

lemma push_bounded_length: "length q \<le> n \<Longrightarrow> length (push_bounded n l q) \<le> n"
  by (simp add: push_bounded_def)

lemma enqueue_spec:
  assumes "tcp_good w" "\<not> tcp_socket w"
  shows "tcp_good (enqueue l w)" "keeps 1 w (enqueue l w)" "subseq (tcp_pending (enqueue l w)) (tcp_pending w @ [l])"
proof -
  have len: "length (tcp_buffer w) \<le> buffer_size w" using assms by (simp add: tcp_good_def)
  then show "tcp_good (enqueue l w)" using assms by (simp add: tcp_good_def enqueue_def push_bounded_length)
  show "keeps 1 w (enqueue l w)" using len
    by (auto simp: keeps_def accounted_def enqueue_def push_bounded_def net_failures_def)
  show "subseq (tcp_pending (enqueue l w)) (tcp_pending w @ [l])"
    by (auto simp: tcp_pending_def enqueue_def push_bounded_def intro: list_emb_append_mono suffix_imp_subseq suffix_drop)
qed

lemma tcp_send_spec:
  assumes "tcp_good w"
  shows "tcp_good (tcp_send now l w) \<and> keeps 1 w (tcp_send now l w)
    \<and> subseq (tcp_pending (tcp_send now l w)) (tcp_pending w @ [l])"
proof -
  obtain c w1 where e: "ensure_connected now w = (c, w1)" by (cases "ensure_connected now w")
  note i = ensure_connected_spec [OF assms e]
  show ?thesis
  proof (cases c)
    case False
    then show ?thesis using i enqueue_spec [of w1 l] keeps_trans [of 0 w w1 1 "enqueue l w1"]
        subseq_step [of "tcp_pending w1" "tcp_pending w"] by (simp add: tcp_send_def e)
  next
    case c: True
    let ?u = "w1\<lparr>net_calls := net_calls w1 + 1\<rparr>"
    have f: "net_failures ?u = net_failures w1 + (if tcp_net w1 (net_calls w1) then 0 else 1)"
      by (rule net_failures_step) simp_all
    have empty: "tcp_buffer w1 = []" using i c by (simp add: tcp_good_def)
    show ?thesis
    proof (cases "tcp_net w1 (net_calls w1)")
      case True
      let ?v = "?u\<lparr>tcp_out := tcp_out w1 @ [l], records_sent := records_sent w1 + 1\<rparr>"
      have "tcp_send now l w = ?v" using e c i True by (simp add: tcp_send_def send_line_def net_call_def)
      moreover have "net_failures ?v = net_failures w1" using f True by (simp add: net_failures_def)
      then have "keeps 1 w1 ?v" by (simp add: keeps_def accounted_def)
      moreover have "tcp_good ?v" using i by (simp add: tcp_good_def)
      moreover have "tcp_pending ?v = tcp_pending w1 @ [l]" using empty by (simp add: tcp_pending_def)
      ultimately show ?thesis using i keeps_trans [of 0 w w1 1 ?v] by (simp add: list_emb_append_mono)
    next
      case False
      let ?v = "?u\<lparr>tcp_socket := False\<rparr>"
      have "tcp_send now l w = enqueue l ?v" using e c i False by (simp add: tcp_send_def send_line_def net_call_def)
      moreover have v: "tcp_good ?v" using i by (simp add: tcp_good_def)
      moreover have "keeps 0 w1 ?v" "tcp_pending ?v = tcp_pending w1" using f False
        by (simp_all add: keeps_def accounted_def net_failures_def tcp_pending_def)
      ultimately show ?thesis
        using i enqueue_spec [OF v] keeps_trans [of 0 w w1 0 ?v] keeps_trans [of 0 w ?v 1 "enqueue l ?v"]
          subseq_step [of "tcp_pending w1" "tcp_pending w"] by simp
    qed
  qed
qed

lemma tcp_flush_spec:
  assumes "tcp_good w"
  shows "tcp_good (tcp_flush now w) \<and> keeps 0 w (tcp_flush now w) \<and> subseq (tcp_pending (tcp_flush now w)) (tcp_pending w)"
proof -
  obtain c w1 where e: "ensure_connected now w = (c, w1)" by (cases "ensure_connected now w")
  note i = ensure_connected_spec [OF assms e]
  then have "tcp_flush now w = w1" by (auto simp: tcp_flush_def e tcp_good_def)
  with i show ?thesis by simp
qed

lemma tcp_close_spec:
  assumes "tcp_good w"
  shows "tcp_good (tcp_close now w) \<and> keeps 0 w (tcp_close now w) \<and> subseq (tcp_pending (tcp_close now w)) (tcp_pending w)"
proof -
  have "keeps 0 v (v\<lparr>tcp_socket := False\<rparr>)" "tcp_pending (v\<lparr>tcp_socket := False\<rparr>) = tcp_pending v"
    "tcp_good v \<Longrightarrow> tcp_good (v\<lparr>tcp_socket := False\<rparr>)" for v
    by (simp_all add: keeps_def accounted_def net_failures_def tcp_pending_def tcp_good_def)
  moreover have "keeps 0 w (tcp_close now w)"
    using keeps_trans [OF _ calculation(1)] tcp_flush_spec [OF assms] unfolding tcp_close_def by fastforce
  ultimately show ?thesis using tcp_flush_spec [OF assms, of now] unfolding tcp_close_def by simp
qed

interpretation tcp: line_sink "tcp_put show" tcp_flush tcp_close "\<lambda>r. the_line (csv_line show r)" tcp_pending tcp_good
  by unfold_locales (auto simp: tcp_put_def tcp_send_spec tcp_flush_spec tcp_close_spec split: sum.splits)


section \<open>The stdout writer\<close>

text \<open>\<open>stdout_ok n\<close> says whether the \<open>n\<close>-th write or flush of stdout goes through; a failure is
  swallowed, and leaves the line undelivered.\<close>

record stdout_writer =
  stdout_ok :: "nat \<Rightarrow> bool"
  stdout_calls :: nat
  stdout_lines :: "string list"

definition stdout_put :: "(real \<Rightarrow> string) \<Rightarrow> unit \<Rightarrow> any_record \<Rightarrow> stdout_writer \<Rightarrow> stdout_writer \<times> unit res" where
  "stdout_put show u r w =
     (case csv_line show r of
        Inl e \<Rightarrow> (w, Inl e)
      | Inr l \<Rightarrow>
          (if stdout_ok w (stdout_calls w)
           then w\<lparr>stdout_lines := stdout_lines w @ [l], stdout_calls := stdout_calls w + 2\<rparr>
           else w\<lparr>stdout_calls := stdout_calls w + 1\<rparr>, Inr ()))"

definition stdout_flush :: "unit \<Rightarrow> stdout_writer \<Rightarrow> stdout_writer" where
  "stdout_flush u w = w\<lparr>stdout_calls := stdout_calls w + 1\<rparr>"

interpretation stdout: line_sink "stdout_put show" stdout_flush stdout_flush "\<lambda>r. the_line (csv_line show r)" stdout_lines
  "\<lambda>_. True"
  by unfold_locales (auto simp: stdout_put_def stdout_flush_def split: sum.splits if_splits)

section \<open>Properties\<close>

text \<open>C12: the rotating CSV writer refines an append-only log.  Over any run of writes, flushes and
  closes, with any clock, the contents of the directory's files in the order of their creation are the
  contents before the run followed by the lines of the accepted records, in order; the files that were
  there are untouched, and no file name is used twice.\<close>

theorem csv_writer_log:
  assumes "wf_dict dir"
    and "sink_run (csv_put show) csv_flush csv_close ops (csv_writer_init seconds mb dir) = (w, rs)"
  shows "concat (map snd (out_dir w)) = concat (map snd dir) @ map (\<lambda>r. the_line (csv_line show r)) rs
    \<and> prefix dir (out_dir w) \<and> wf_dict (out_dir w)"
proof -
  note g = csv_init_good [OF assms(1), of mb seconds]
  have "csv_good (mb * 1024 * 1024) (length dir) w"
    and "csv_out w = csv_out (csv_writer_init seconds mb dir) @ map (\<lambda>r. the_line (csv_line show r)) rs"
    using csv.log_run [OF g assms(2)] by blast+
  moreover have "prefix dir (closed_files w)"
    using csv_closed_rel [OF g, of "show" ops] assms(2)
    by (simp add: closed_files_def [of "csv_writer_init seconds mb dir"]) (simp add: csv_writer_init_def)
  moreover have "prefix (closed_files w) (out_dir w)" by (simp add: closed_files_def prefixeq_butlast)
  ultimately show ?thesis
    using prefix_order.order_trans by (auto simp: csv_out_def csv_writer_init_def csv_good_def)
qed

lemma from_timestamp_0: "\<exists>t. from_timestamp 0 = Inr t"
proof -
  have "of_micros 0 = Inr \<lparr>dt_year = 1970, dt_month = 1, dt_day = 1, dt_hour = 0, dt_minute = 0, dt_second = 0, dt_micro = 0\<rparr>"
    by code_simp
  then show ?thesis using round_half_even_of_int [of 0] by (simp add: from_timestamp_def)
qed

text \<open>One record goes to a new file; an unusable one is refused and leaves the file as it is.\<close>

lemma csv_example: "\<exists>w. sink_run (csv_put (\<lambda>_. [])) csv_flush csv_close [Write 0 (RDict []), Write 0 ROther, Close 0]
    (csv_writer_init 60 10 [(''old'', [''x''])]) = (w, [RDict []])"
  using from_timestamp_0
  by (auto simp: csv_put_def rotate_if_needed_def should_rotate_def open_new_file_def close_current_def csv_line_def
      append_line_def csv_writer_init_def csv_close_def Let_def)

theorem csv_writer_log_witness:
  "\<exists>w. sink_run (csv_put (\<lambda>_. [])) csv_flush csv_close [Write 0 (RDict []), Write 0 ROther, Close 0]
       (csv_writer_init 60 10 [(''old'', [''x''])]) = (w, [RDict []])
     \<and> concat (map snd (out_dir w)) = [''x'', the_line (csv_line (\<lambda>_. []) (RDict []))]"
proof -
  obtain w where w: "sink_run (csv_put (\<lambda>_. [])) csv_flush csv_close [Write 0 (RDict []), Write 0 ROther, Close 0]
    (csv_writer_init 60 10 [(''old'', [''x''])]) = (w, [RDict []])" using csv_example by blast
  show ?thesis using w csv_writer_log [OF _ w] by (intro exI [of _ w]) simp
qed

text \<open>rotation.  A file that is not the current one is never changed again, and no file the writer
  makes reaches the size limit before its last line.\<close>

theorem csv_rotation_bounds:
  assumes "wf_dict dir" "0 < mb"
    and "sink_run (csv_put show) csv_flush csv_close ops (csv_writer_init seconds mb dir) = (w, rs)"
    and "sink_run (csv_put show) csv_flush csv_close ops2 w = (w', rs')"
  shows "prefix (closed_files w) (closed_files w')
    \<and> (\<forall>f \<in> set (drop (length dir) (out_dir w')).
         snd f \<noteq> [] \<longrightarrow> int (sum_list (map utf8_length (butlast (snd f)))) < mb * 1048576)"
proof -
  have g: "csv_good (mb * 1024 * 1024) (length dir) w"
    using csv.log_run [OF csv_init_good [OF assms(1)] assms(3)] by blast
  have "csv_good (mb * 1024 * 1024) (length dir) w'" using csv.log_run [OF g assms(4)] by blast
  then show ?thesis using csv_closed_rel [OF g, of "show" ops2] assms(2,4)
    by (auto simp: csv_good_def chunks_size_def)
qed

theorem csv_rotation_bounds_witness:
  "\<exists>w w' rs'. sink_run (csv_put (\<lambda>_. [])) csv_flush csv_close [Write 0 (RDict []), Write 0 ROther, Close 0]
       (csv_writer_init 60 10 [(''old'', [''x''])]) = (w, [RDict []])
     \<and> sink_run (csv_put (\<lambda>_. [])) csv_flush csv_close [Write 0 (RDict [])] w = (w', rs')
     \<and> prefix (closed_files w) (closed_files w')"
proof -
  obtain w where w: "sink_run (csv_put (\<lambda>_. [])) csv_flush csv_close [Write 0 (RDict []), Write 0 ROther, Close 0]
    (csv_writer_init 60 10 [(''old'', [''x''])]) = (w, [RDict []])" using csv_example by blast
  obtain w' rs' where w': "sink_run (csv_put (\<lambda>_. [])) csv_flush csv_close [Write 0 (RDict [])] w = (w', rs')"
    by (cases "sink_run (csv_put (\<lambda>_. [])) csv_flush csv_close [Write 0 (RDict [])] w")
  show ?thesis using csv_rotation_bounds [OF _ _ w w'] w w' by auto
qed

text \<open>the search for a free file name ends: it gives the plain name, or the first numbered name that
  is not in use, whatever the directory holds.\<close>

theorem new_path_first_free:
  "new_path names t \<notin> set names
   \<and> (new_path names t = base_name t @ ''.csv''
      \<or> (\<exists>j \<ge> 1. new_path names t = numbered (base_name t) j \<and> base_name t @ ''.csv'' \<in> set names
           \<and> (\<forall>i \<in> {1..<j}. numbered (base_name t) i \<in> set names)))"
proof -
  note f = free_path_spec [of names "base_name t" "base_name t @ ''.csv''" 1]
  then show ?thesis unfolding new_path_def
  proof
    assume "base_name t @ ''.csv'' \<in> set names \<and> (\<exists>j \<ge> 1. free_path names (base_name t) (base_name t @ ''.csv'') 1
        = numbered (base_name t) j \<and> numbered (base_name t) j \<notin> set names
        \<and> (\<forall>i. 1 \<le> i \<and> i < j \<longrightarrow> numbered (base_name t) i \<in> set names))"
    then show "free_path names (base_name t) (base_name t @ ''.csv'') 1 \<notin> set names
      \<and> (free_path names (base_name t) (base_name t @ ''.csv'') 1 = base_name t @ ''.csv''
         \<or> (\<exists>j \<ge> 1. free_path names (base_name t) (base_name t @ ''.csv'') 1 = numbered (base_name t) j
              \<and> base_name t @ ''.csv'' \<in> set names \<and> (\<forall>i \<in> {1..<j}. numbered (base_name t) i \<in> set names)))"
      by auto
  qed auto
qed

text \<open>The plain name is taken, so the first numbered one is used.\<close>

theorem new_path_first_free_witness:
  "new_path [''traffic_19700101_000000.csv''] \<lparr>dt_year = 1970, dt_month = 1, dt_day = 1, dt_hour = 0, dt_minute = 0,
     dt_second = 0, dt_micro = 0\<rparr> = ''traffic_19700101_000000_1.csv''"
proof -
  let ?t = "\<lparr>dt_year = 1970, dt_month = 1, dt_day = 1, dt_hour = 0, dt_minute = 0, dt_second = 0, dt_micro = 0\<rparr>"
    and ?names = "[''traffic_19700101_000000.csv'']"
  have b: "base_name ?t = ''traffic_19700101_000000''" by code_simp
  have n: "numbered ''traffic_19700101_000000'' 1 = ''traffic_19700101_000000_1.csv''" by code_simp
  obtain j where j: "1 \<le> j" "new_path ?names ?t = numbered ''traffic_19700101_000000'' j"
    "\<forall>i \<in> {1..<j}. numbered ''traffic_19700101_000000'' i \<in> set ?names"
    using new_path_first_free [of ?names ?t] unfolding b by auto
  have "\<not> 1 < j" using j(3) n by fastforce
  with j(1) have "j = 1" by linarith
  with j(2) n show ?thesis by simp
qed

text \<open>C17: the TCP writer.  In any run, with any network, the lines sent followed by the lines buffered are
  a subsequence of the lines written: nothing is duplicated or reordered.  The buffer respects its size.  The
  counter \<open>records_sent\<close> is the number of lines sent, and \<open>dropped_records\<close> is exactly the number of lines written that
  are neither sent nor buffered nor lost, where a line is lost when it is taken from the buffer and its \<open>sendall\<close>
  raises; there are no more lost lines than failed network calls.\<close>

theorem tcp_writer_accounts:
  assumes "sink_run (tcp_put show) tcp_flush tcp_close ops (tcp_writer_init n net) = (w, rs)"
  shows "subseq (tcp_out w @ tcp_buffer w) (map (\<lambda>r. the_line (csv_line show r)) rs)
    \<and> records_sent w = length (tcp_out w) \<and> length (tcp_buffer w) \<le> n
    \<and> length rs = records_sent w + dropped_records w + length (tcp_buffer w) + length (tcp_lost w)
    \<and> length (tcp_lost w) \<le> card {i. i < net_calls w \<and> \<not> net i}"
proof -
  let ?w0 = "tcp_writer_init n net"
  have g: "tcp_good ?w0" by (simp add: tcp_good_def tcp_writer_init_def max_backoff_def)
  have count: "tcp_good v \<Longrightarrow> sink_run (tcp_put show) tcp_flush tcp_close ops v = (v', qs) \<Longrightarrow> keeps (length qs) v v'"
    for v v' qs
  proof (induction ops arbitrary: v qs)
    case (Cons a ops)
    show ?case
    proof (cases a)
      case (Write e r)
      show ?thesis
      proof (cases "csv_line show r")
        case (Inl x)
        then have "tcp_put show e r v = (v, Inl x)" by (simp add: tcp_put_def)
        then show ?thesis using Cons Write by simp
      next
        case (Inr l)
        obtain qs' where q: "sink_run (tcp_put show) tcp_flush tcp_close ops (tcp_send e l v) = (v', qs')" "qs = r # qs'"
        proof -
          have "tcp_put show e r v = (tcp_send e l v, Inr ())" using Inr by (simp add: tcp_put_def)
          then show ?thesis using that Cons.prems(2) Write by (auto split: prod.splits)
        qed
        then show ?thesis using keeps_trans [OF _ Cons.IH [OF _ q(1)]] tcp_send_spec [OF Cons.prems(1)] by fastforce
      qed
    next
      case (Flush e)
      then show ?thesis using keeps_trans [OF _ Cons.IH [of "tcp_flush e v" qs]] tcp_flush_spec [OF Cons.prems(1)] Cons.prems
        by fastforce
    next
      case (Close e)
      then show ?thesis using keeps_trans [OF _ Cons.IH [of "tcp_close e v" qs]] tcp_close_spec [OF Cons.prems(1)] Cons.prems
        by fastforce
    qed
  qed (simp add: keeps_refl)
  have "tcp_good w" using tcp.run_good [OF g, of "show" ops] assms by simp
  moreover have "subseq (tcp_pending w) (map (\<lambda>r. the_line (csv_line show r)) rs)"
    using tcp.run_out [OF g assms] by (simp add: tcp_pending_def tcp_writer_init_def)
  ultimately show ?thesis using count [OF g assms]
    by (auto simp add: keeps_def accounted_def net_failures_def tcp_pending_def tcp_good_def tcp_writer_init_def)
qed


text \<open>A line popped from the buffer when \<open>sendall\<close> fails is lost without being counted: here the
  connection fails, then succeeds, the resend of the first line fails, and only the second line is left.\<close>

lemma tcp_line_lost:
  "\<exists>w r. sink_run (tcp_put (\<lambda>_. [])) tcp_flush tcp_close [Write 1 r, Write 3 r]
          (tcp_writer_init 5 (\<lambda>i. i = 1)) = (w, [r, r])
      \<and> records_sent w + dropped_records w + length (tcp_buffer w) = 1 \<and> tcp_lost w = [the_line (csv_line (\<lambda>_. []) r)]"
proof -
  let ?run = "sink_run (tcp_put (\<lambda>_. [])) tcp_flush tcp_close [Write 1 (RDict []), Write 3 (RDict [])]
    (tcp_writer_init 5 (\<lambda>i. i = 1))"
  have "snd ?run = [RDict [], RDict []]"
    "records_sent (fst ?run) + dropped_records (fst ?run) + length (tcp_buffer (fst ?run)) = 1"
    "tcp_lost (fst ?run) = [the_line (csv_line (\<lambda>_. []) (RDict []))]"
    by (simp_all add: tcp_put_def csv_line_def tcp_send_def ensure_connected_def tcp_writer_init_def net_call_def
        connect_failed_def enqueue_def push_bounded_def send_line_def max_backoff_def)
  then show ?thesis by (metis prod.collapse)
qed

theorem tcp_writer_accounts_witness:
  "\<exists>w. sink_run (tcp_put (\<lambda>_. [])) tcp_flush tcp_close [Write 1 (RDict [])] (tcp_writer_init 5 (\<lambda>_. True)) = (w, [RDict []])
     \<and> records_sent w + dropped_records w + length (tcp_buffer w) + length (tcp_lost w) = 1"
proof -
  have "\<exists>w. sink_run (tcp_put (\<lambda>_. [])) tcp_flush tcp_close [Write 1 (RDict [])] (tcp_writer_init 5 (\<lambda>_. True))
      = (w, [RDict []])" by (simp add: tcp_put_def csv_line_def)
  then obtain w where w: "sink_run (tcp_put (\<lambda>_. [])) tcp_flush tcp_close [Write 1 (RDict [])]
    (tcp_writer_init 5 (\<lambda>_. True)) = (w, [RDict []])" by blast
  show ?thesis using w tcp_writer_accounts [OF w] by (intro exI [of _ w]) simp
qed

text \<open>Every control character is escaped, so a JSON line has its newline at the end only.\<close>

lemma hex_char_not_newline: "k < 16 \<Longrightarrow> hex_char k \<noteq> newline"
  by (auto simp: hex_char_def newline_def dest: arg_cong [where f = "of_char :: char \<Rightarrow> nat"])

lemma json_char_framed: "newline \<notin> set (json_char c)"
proof -
  have "(of_char c :: nat) div 16 < 16" by (simp add: less_mult_imp_div_less)
  then show ?thesis
    using hex_char_not_newline [of "of_char c div 16"] hex_char_not_newline [of "of_char c mod 16"]
    by (auto simp: json_char_def hex2_def newline_def)
qed

lemma json_string_framed: "newline \<notin> set (json_string s)"
  using json_char_framed by (auto simp: json_string_def newline_def)

lemma join_no_char: "c \<notin> set sep \<Longrightarrow> \<forall>p \<in> set ps. c \<notin> set p \<Longrightarrow> c \<notin> set (join sep ps)"
  by (induction sep ps rule: join.induct) auto

lemma json_line_framed:
  assumes "json_line show r = Inr l" and plain: "\<And>x. newline \<notin> set (show x)"
  shows "\<exists>b. l = b @ [newline] \<and> newline \<notin> set b"
proof -
  have v: "newline \<notin> set (json_value show v)" for v
  proof (cases v)
    case (FFloat f)
    then show ?thesis using plain by (cases f) (auto simp: newline_def)
  next
    case (FInt k)
    then show ?thesis by (auto simp: newline_def is_digit_def dest: int_str_chars)
  qed (use json_string_framed in \<open>auto simp: newline_def\<close>)
  have "newline \<notin> set (json_object show d)" for d
  proof -
    have "newline \<notin> set (join '', '' (map (\<lambda>(k, v). json_string k @ '': '' @ json_value show v) d))"
      by (rule join_no_char) (use v json_string_framed in \<open>auto simp: newline_def\<close>)
    then show ?thesis by (simp add: json_object_def newline_def)
  qed
  then show ?thesis using assms(1) by (auto simp: json_line_def res_simps)
qed

end
