(* ===== verification/Replay.thy ===== *)
theory Replay
  imports Writers
begin

text \<open>
  The replay tool, \<open>capture/replay.py\<close>: reading back the timestamps of a capture, pacing, restamping
  and the loop over the file.  The writer is a parameter \<open>put\<close> that gets the number of the call; the
  flag \<open>_stop\<close>, which a signal handler sets, is a stream \<open>stops\<close> of the values read at each test of it;
  sleeping only records the requested times.
\<close>

section \<open>Timestamps\<close>

text \<open>\<open>_parse_ts_epoch\<close>; \<open>None\<close> is an exception, which the caller swallows.\<close>

definition parse_ts_epoch :: "string \<Rightarrow> real option" where
  "parse_ts_epoch s =
     (case split_on (CHR ''.'') (strip s) of
        [] \<Rightarrow> None
      | base # rest \<Rightarrow>
          Option.bind (strptime_seconds base) (\<lambda>t.
          Option.bind (if rest = [] then Some 0 else py_int (hd rest)) (\<lambda>millis.
          Some (of_int (to_micros t) / 1000000 + of_int millis / 1000))))"

definition format_ts_epoch :: "real \<Rightarrow> string res" where
  "format_ts_epoch epoch =
     bindE (from_timestamp epoch) (\<lambda>t.
       let millis = py_trunc ((epoch - of_int (py_trunc epoch)) * 1000);
           clamped = (if millis < 0 then 0 else if millis > 999 then 999 else millis)
       in Inr (strftime_seconds t @ ''.'' @ pad 3 clamped))"

section \<open>The engine\<close>

record replay_cfg =
  speed :: real
  pps :: "real option"
  restamp :: bool
  loop :: bool

definition replay_cfg_init :: "real \<Rightarrow> real option \<Rightarrow> bool \<Rightarrow> bool \<Rightarrow> replay_cfg" where
  "replay_cfg_init sp p re lo =
     \<lparr>speed = (if sp > 0 then sp else 1),
      pps = (case p of None \<Rightarrow> None | Some x \<Rightarrow> if x > 0 then Some x else None),
      restamp = re, loop = lo\<rparr>"

record 'w replay_state =
  stop_flag :: bool
  polls :: nat
  records_replayed :: nat
  cum_simulated :: real
  prev_orig_epoch :: "real option"
  sleeps :: "real list"
  sink :: 'w

definition replay_init :: "'w \<Rightarrow> 'w replay_state" where
  "replay_init w = \<lparr>stop_flag = False, polls = 0, records_replayed = 0, cum_simulated = 0,
     prev_orig_epoch = None, sleeps = [], sink = w\<rparr>"

text \<open>A line gives a record and its epoch, or is skipped.\<close>

definition read_record :: "string \<Rightarrow> (traffic_record \<times> real) option" where
  "read_record line =
     (let clean = strip line
      in if clean = [] then None
         else let vs = parse_line clean
              in if length vs \<noteq> num_fields then None
                 else let rec = zip field_names (map of_field vs)
                      in case hd vs of
                           None \<Rightarrow> None
                         | Some ts \<Rightarrow> (case parse_ts_epoch ts of None \<Rightarrow> None | Some e \<Rightarrow> Some (rec, e)))"

definition gap_of :: "replay_cfg \<Rightarrow> real option \<Rightarrow> real \<Rightarrow> real" where
  "gap_of cfg prev epoch =
     (case pps cfg of
        Some p \<Rightarrow> 1 / p
      | None \<Rightarrow> (case prev of None \<Rightarrow> 0 | Some q \<Rightarrow> max 0 ((epoch - q) / speed cfg)))"

definition restamped :: "replay_cfg \<Rightarrow> real \<Rightarrow> nat \<Rightarrow> real \<Rightarrow> real \<Rightarrow> traffic_record \<Rightarrow> traffic_record res" where
  "restamped cfg wall_start n cum gap rec =
     (if \<not> restamp cfg then Inr rec
      else bindE (format_ts_epoch (wall_start + cum)) (\<lambda>ts.
        Inr (dset ''iat_ms'' (FFloat (Fin (if n > 0 then py_round (gap * 1000) 3 else 0)))
              (dset ''timestamp'' (FStr ts) rec))))"

text \<open>One record; an \<open>OSError\<close> of the writer stops the replay, any other exception leaves it.\<close>

definition replay_record ::
  "replay_cfg \<Rightarrow> (nat \<Rightarrow> traffic_record \<Rightarrow> 'w \<Rightarrow> 'w \<times> unit res) \<Rightarrow> real \<Rightarrow> traffic_record \<Rightarrow> real \<Rightarrow>
     'w replay_state \<Rightarrow> 'w replay_state res" where
  "replay_record cfg put wall_start rec epoch st =
     (let gap = gap_of cfg (prev_orig_epoch st) epoch;
          st1 = st\<lparr>prev_orig_epoch := Some epoch, cum_simulated := cum_simulated st + gap,
                   sleeps := (if gap > 0 then sleeps st @ [gap] else sleeps st)\<rparr>
      in bindE (restamped cfg wall_start (records_replayed st) (cum_simulated st1) gap rec) (\<lambda>out.
           case put (polls st1) out (sink st1) of
             (w, Inl e) \<Rightarrow> if e = OSError then Inr (st1\<lparr>stop_flag := True, sink := w\<rparr>) else Inl e
           | (w, Inr _) \<Rightarrow> Inr (st1\<lparr>records_replayed := records_replayed st + 1, sink := w\<rparr>)))"

text \<open>\<open>if self._stop\<close>: the flag set here, or by a signal before this test.\<close>

definition poll :: "(nat \<Rightarrow> bool) \<Rightarrow> 'w replay_state \<Rightarrow> bool \<times> 'w replay_state" where
  "poll stops st = (stop_flag st \<or> stops (polls st), st\<lparr>polls := polls st + 1\<rparr>)"

fun replay_lines ::
  "replay_cfg \<Rightarrow> (nat \<Rightarrow> bool) \<Rightarrow> (nat \<Rightarrow> traffic_record \<Rightarrow> 'w \<Rightarrow> 'w \<times> unit res) \<Rightarrow> real \<Rightarrow> string list \<Rightarrow>
     'w replay_state \<Rightarrow> 'w replay_state res" where
  "replay_lines cfg stops put wall_start [] st = Inr st"
| "replay_lines cfg stops put wall_start (line # lines) st =
     (case poll stops st of (stopped, st1) \<Rightarrow>
        if stopped then Inr st1
        else case read_record line of
               None \<Rightarrow> replay_lines cfg stops put wall_start lines st1
             | Some (rec, epoch) \<Rightarrow>
                 bindE (replay_record cfg put wall_start rec epoch st1) (\<lambda>st2.
                   if stop_flag st2 then Inr st2 else replay_lines cfg stops put wall_start lines st2))"

text \<open>\<open>while not self._stop\<close>; with \<open>--loop\<close> it may run for ever, so it takes fuel: \<open>None\<close> is a loop that
  has not ended after that many passes.\<close>

fun replay_loop ::
  "nat \<Rightarrow> replay_cfg \<Rightarrow> (nat \<Rightarrow> bool) \<Rightarrow> (nat \<Rightarrow> traffic_record \<Rightarrow> 'w \<Rightarrow> 'w \<times> unit res) \<Rightarrow> real \<Rightarrow> string list \<Rightarrow>
     'w replay_state \<Rightarrow> 'w replay_state res option" where
  "replay_loop 0 cfg stops put wall_start lines st = None"
| "replay_loop (Suc fuel) cfg stops put wall_start lines st =
     (case poll stops st of (stopped, st1) \<Rightarrow>
        if stopped then Some (Inr st1)
        else case replay_lines cfg stops put wall_start lines (st1\<lparr>prev_orig_epoch := None\<rparr>) of
               Inl e \<Rightarrow> Some (Inl e)
             | Inr st2 \<Rightarrow> if \<not> loop cfg then Some (Inr st2)
                         else replay_loop fuel cfg stops put wall_start lines st2)"

text \<open>\<open>replay\<close>: the number of records and the writer after its final flush; \<open>None\<close> for the file is a
  missing one.\<close>

definition replay ::
  "nat \<Rightarrow> replay_cfg \<Rightarrow> (nat \<Rightarrow> bool) \<Rightarrow> (nat \<Rightarrow> traffic_record \<Rightarrow> 'w \<Rightarrow> 'w \<times> unit res) \<Rightarrow> ('w \<Rightarrow> 'w) \<Rightarrow> real \<Rightarrow>
     string list option \<Rightarrow> 'w \<Rightarrow> (nat \<times> 'w) res option" where
  "replay fuel cfg stops put flush wall_start file w =
     (case file of
        None \<Rightarrow> Some (Inl FileNotFoundError)
      | Some lines \<Rightarrow>
          map_option (\<lambda>r. bindE r (\<lambda>st. Inr (records_replayed st, flush (sink st))))
            (replay_loop fuel cfg stops put wall_start lines (replay_init w)))"

section \<open>Termination\<close>

lemma poll_simps [simp]:
  "fst (poll stops st) = (stop_flag st \<or> stops (polls st))" "snd (poll stops st) = st\<lparr>polls := polls st + 1\<rparr>"
  by (simp_all add: poll_def)

lemma replay_record_polls: "replay_record cfg put t r e st = Inr st' \<Longrightarrow> polls st' = polls st"
proof -
  assume run: "replay_record cfg put t r e st = Inr st'"
  let ?st1 = "st\<lparr>prev_orig_epoch := Some e, cum_simulated := cum_simulated st + gap_of cfg (prev_orig_epoch st) e,
    sleeps := (if gap_of cfg (prev_orig_epoch st) e > 0 then sleeps st @ [gap_of cfg (prev_orig_epoch st) e] else sleeps st)\<rparr>"
  obtain out where "(case put (polls ?st1) out (sink ?st1) of
      (w, Inl e) \<Rightarrow> if e = OSError then Inr (?st1\<lparr>stop_flag := True, sink := w\<rparr>) else Inl e
    | (w, Inr _) \<Rightarrow> Inr (?st1\<lparr>records_replayed := records_replayed st + 1, sink := w\<rparr>)) = Inr st'"
    using run unfolding replay_record_def Let_def bindE_Inr_iff by blast
  then show ?thesis by (cases "put (polls ?st1) out (sink ?st1)") (auto split: sum.splits if_splits)
qed

lemma replay_lines_polls: "replay_lines cfg stops put t lines st = Inr st' \<Longrightarrow> polls st \<le> polls st'"
proof (induction lines arbitrary: st)
  case (Cons line lines)
  let ?st1 = "st\<lparr>polls := polls st + 1\<rparr>"
  show ?case
  proof (cases "stop_flag st \<or> stops (polls st)")
    case True
    then show ?thesis using Cons.prems by (auto simp: poll_def)
  next
    case False
    show ?thesis
    proof (cases "read_record line")
      case None
      then show ?thesis using Cons.IH [of ?st1] Cons.prems False by (simp add: poll_def)
    next
      case (Some p)
      obtain rec e where p: "p = (rec, e)" by (cases p)
      obtain st2 where "replay_record cfg put t rec e ?st1 = Inr st2" "(if stop_flag st2 then Inr st2
          else replay_lines cfg stops put t lines st2) = Inr st'"
        using Cons.prems False Some p by (auto simp: poll_def res_simps)
      then show ?thesis using Cons.IH [of st2] replay_record_polls [of cfg put t rec e ?st1 st2]
        by (auto split: if_splits)
    qed
  qed
qed simp

text \<open>Once a stop is requested, at the \<open>k\<close>-th test of the flag or before, the loop ends.\<close>

lemma replay_loop_stops:
  "\<forall>i \<ge> k. stops i \<Longrightarrow> k - polls st < fuel \<Longrightarrow> \<exists>r. replay_loop fuel cfg stops put t lines st = Some r"
proof (induction fuel arbitrary: st)
  case (Suc fuel)
  let ?st1 = "st\<lparr>polls := polls st + 1\<rparr>"
  show ?case
  proof (cases "stop_flag st \<or> stops (polls st)")
    case True
    then show ?thesis by (simp add: poll_def)
  next
    case False
    show ?thesis
    proof (cases "replay_lines cfg stops put t lines (?st1\<lparr>prev_orig_epoch := None\<rparr>)")
      case (Inl e)
      then show ?thesis using False by (simp add: poll_def)
    next
      case (Inr st2)
      have "polls st < k" using False Suc.prems(1) by (meson not_le)
      moreover have "polls st + 1 \<le> polls st2" using replay_lines_polls [OF Inr] by simp
      ultimately have "k - polls st2 < fuel" using Suc.prems(2) by linarith
      then show ?thesis using False Inr Suc.IH [OF Suc.prems(1)] by (simp add: poll_def)
    qed
  qed
qed simp

text \<open>A file without a replayable record is read over and over.\<close>

lemma replay_lines_idle:
  "\<forall>l \<in> set lines. read_record l = None \<Longrightarrow> \<forall>i. \<not> stops i \<Longrightarrow> \<not> stop_flag st \<Longrightarrow>
     replay_lines cfg stops put t lines st = Inr (st\<lparr>polls := polls st + length lines\<rparr>)"
  by (induction lines arbitrary: st) (simp_all add: poll_def)

lemma replay_loop_idle:
  "\<forall>l \<in> set lines. read_record l = None \<Longrightarrow> \<forall>i. \<not> stops i \<Longrightarrow> \<not> stop_flag st \<Longrightarrow> loop cfg \<Longrightarrow>
     replay_loop fuel cfg stops put t lines st = None"
  by (induction fuel arbitrary: st) (simp_all add: poll_def replay_lines_idle)

section \<open>What is written\<close>

context line_log
begin

text \<open>Over any writer that keeps a log, a replay without restamping that nothing stops writes the
  records of the file, in order.\<close>

lemma replay_record_log:
  assumes "\<not> restamp cfg" and os: "\<And>e r s s'. put e r s \<noteq> (s', Inl OSError)"
    and good: "good (sink st)" "\<not> stop_flag st"
    and run: "replay_record cfg (\<lambda>n r. put (env n) (wrap r)) t rec e st = Inr st'"
  shows "good (sink st') \<and> \<not> stop_flag st' \<and> out (sink st') = out (sink st) @ [line (wrap rec)]
    \<and> records_replayed st' = records_replayed st + 1"
proof -
  obtain w u where "put (env (polls st)) (wrap rec) (sink st) = (w, Inr u)" "sink st' = w" "\<not> stop_flag st'"
    "records_replayed st' = records_replayed st + 1"
    using run good os [of "env (polls st)" "wrap rec" "sink st"] assms(1)
    by (cases "put (env (polls st)) (wrap rec) (sink st)")
       (auto simp: replay_record_def restamped_def Let_def split: sum.splits if_splits)
  then show ?thesis using log_write [OF good(1)] log_write_good [OF good(1)] by auto
qed

lemma replay_lines_log:
  assumes "\<not> restamp cfg" and os: "\<And>e r s s'. put e r s \<noteq> (s', Inl OSError)" and "\<forall>i. \<not> stops i"
    and "good (sink st)" "\<not> stop_flag st"
    and "replay_lines cfg stops (\<lambda>n r. put (env n) (wrap r)) t lines st = Inr st'"
  shows "good (sink st') \<and> \<not> stop_flag st'
    \<and> out (sink st') = out (sink st) @ map (\<lambda>p. line (wrap (fst p))) (List.map_filter read_record lines)
    \<and> records_replayed st' = records_replayed st + length (List.map_filter read_record lines)"
  using assms(4-)
proof (induction lines arbitrary: st)
  case (Cons l lines)
  let ?st1 = "st\<lparr>polls := polls st + 1\<rparr>"
  show ?case
  proof (cases "read_record l")
    case None
    then show ?thesis using Cons.IH [of ?st1] Cons.prems assms(3) by (simp add: poll_def map_filter_simps)
  next
    case (Some p)
    obtain rec e where p: "p = (rec, e)" by (cases p)
    obtain st2 where st2: "replay_record cfg (\<lambda>n r. put (env n) (wrap r)) t rec e ?st1 = Inr st2"
      "(if stop_flag st2 then Inr st2 else replay_lines cfg stops (\<lambda>n r. put (env n) (wrap r)) t lines st2) = Inr st'"
    proof -
      have "\<not> stops (polls st)" using assms(3) by blast
      then show ?thesis using that Cons.prems Some p by (auto simp: poll_def res_simps)
    qed
    have "good (sink st2) \<and> \<not> stop_flag st2 \<and> out (sink st2) = out (sink st) @ [line (wrap rec)]
        \<and> records_replayed st2 = records_replayed st + 1"
      using replay_record_log [OF assms(1) os _ _ st2(1)] Cons.prems by simp
    then show ?thesis using Cons.IH [of st2] st2(2) Some p by (auto simp: map_filter_simps)
  qed
qed (simp add: map_filter_simps)

end

text \<open>A record read from a line is written as that line again.\<close>

lemma format_parsed:
  assumes "length (parse_line s) = 11"
  shows "format_row show (zip field_names (map of_field (parse_line s))) = rstrip_crlf s"
proof -
  have "map (\<lambda>n. dget_or (zip field_names (map of_field (parse_line s))) n FNone) field_names = map of_field (parse_line s)"
    using assms by (intro dget_zip) simp_all
  moreover have "(if of_field v = FNone then [] else fstr show (of_field v)) = (case v of None \<Rightarrow> [] | Some x \<Rightarrow> x)" for v
    by (cases v) auto
  ultimately have "format_row show (zip field_names (map of_field (parse_line s)))
      = join '','' (map (\<lambda>v. case v of None \<Rightarrow> [] | Some x \<Rightarrow> x) (parse_line s))"
    by (simp add: format_row_def format_values_def comp_def)
  also have "map (\<lambda>v. case v of None \<Rightarrow> [] | Some x \<Rightarrow> x) (parse_line s) = split_on (CHR '','') (rstrip_crlf s)"
    by (simp add: parse_line_def comp_def map_idI)
  finally show ?thesis by (simp add: join_split)
qed

lemma rstrip_crlf_strip: "rstrip_crlf (strip s) = strip s"
proof -
  have "strip s = [] \<or> \<not> is_space (last (strip s))"
  proof (cases "strip s = []")
    case False
    then have d: "dropWhile is_space (rev (lstrip_by is_space s)) \<noteq> []" by (simp add: strip_def rstrip_by_def)
    have "\<not> is_space (hd (dropWhile is_space (rev (lstrip_by is_space s))))" by (rule hd_dropWhile [OF d])
    then show ?thesis using d by (simp add: strip_def rstrip_by_def last_rev)
  qed simp
  then show ?thesis unfolding rstrip_crlf_def by (intro rstrip_by_id) (auto simp: is_crlf_def is_space_def)
qed

lemma read_record_line: "read_record l = Some (rec, e) \<Longrightarrow> csv_line show (RDict rec) = Inr (strip l @ [newline])"
  using format_parsed [of "strip l" "show"] rstrip_crlf_strip [of l]
  by (auto simp: read_record_def csv_line_def Let_def split: if_splits option.splits)

lemma csv_no_os_error: "csv_put show n r w \<noteq> (w', Inl OSError)"
proof
  assume "csv_put show n r w = (w', Inl OSError)"
  moreover have "from_timestamp n \<noteq> Inl OSError" by (simp add: from_timestamp_def of_micros_def Let_def split: prod.splits)
  then have "rotate_if_needed n w \<noteq> (v, Inl OSError)" for v
    by (auto simp: rotate_if_needed_def open_new_file_def Let_def split: sum.splits)
  moreover have "csv_line show r \<noteq> Inl OSError" by (cases r) (auto simp: csv_line_def)
  moreover have "append_line n l v \<noteq> (w', Inl OSError)" for l v by (auto simp: append_line_def split: option.splits)
  ultimately show False
    by (cases "rotate_if_needed n w"; cases "csv_line show r"; cases "snd (rotate_if_needed n w)") (auto simp: csv_put_def)
qed

section \<open>Properties\<close>

text \<open>C18: replaying a capture into the rotating CSV writer copies it.  Without \<open>--restamp\<close> and \<open>--loop\<close>,
  when nothing stops it, a replay that returns has written every replayable line of the file (stripped)
  once, in order, after what the directory held, and returns their number.\<close>

theorem replay_copies:
  assumes w: "csv_good B n w" and cfg: "\<not> restamp cfg" "\<not> loop cfg" and stops: "\<forall>i. \<not> stops i"
    and run: "replay (Suc fuel) cfg stops (\<lambda>i r. csv_put show (clock i) (RDict r)) (csv_flush now) t (Some lines) w
      = Some (Inr (k, w'))"
  shows "k = length (filter (\<lambda>l. read_record l \<noteq> None) lines)
    \<and> concat (map snd (out_dir w')) = concat (map snd (out_dir w))
        @ map (\<lambda>l. strip l @ [newline]) (filter (\<lambda>l. read_record l \<noteq> None) lines)"
proof -
  let ?put = "\<lambda>i r. csv_put show (clock i) (RDict r)"
  let ?st = "(replay_init w)\<lparr>polls := 1, prev_orig_epoch := None\<rparr>"
  obtain st' where st': "replay_lines cfg stops ?put t lines ?st = Inr st'" "k = records_replayed st'"
    "w' = csv_flush now (sink st')"
    using run cfg stops by (auto simp: replay_def poll_def replay_init_def res_simps split: sum.splits)
  have "csv_good B n (sink st') \<and> \<not> stop_flag st'
    \<and> csv_out (sink st') = csv_out (sink ?st)
        @ map (\<lambda>p. the_line (csv_line show (RDict (fst p)))) (List.map_filter read_record lines)
    \<and> records_replayed st' = records_replayed ?st + length (List.map_filter read_record lines)"
    by (rule csv.replay_lines_log [OF cfg(1) csv_no_os_error stops _ _ st'(1)]) (simp_all add: w replay_init_def)
  moreover have "map (\<lambda>p. the_line (csv_line show (RDict (fst p)))) (List.map_filter read_record ls)
      = map (\<lambda>l. strip l @ [newline]) (filter (\<lambda>l. read_record l \<noteq> None) ls)" for ls
    by (induction ls) (auto simp: map_filter_simps read_record_line split: option.splits)
  moreover have "length (List.map_filter read_record ls) = length (filter (\<lambda>l. read_record l \<noteq> None) ls)" for ls
    by (induction ls) (auto simp: map_filter_simps split: option.splits)
  ultimately show ?thesis
    using st'(2,3) csv_flush_good [of B n "sink st'" now] by (simp add: replay_init_def csv_out_def)
qed

definition example_line :: string where
  "example_line = ''1970-01-01 00:00:00.000,10.0.0.1,10.0.0.2,443,80,TCP,60,,,0x0018,0.5''"

lemma example_line_read: "\<exists>rec e. read_record example_line = Some (rec, e)"
proof -
  have s: "strip example_line = example_line" "strip ''1970-01-01 00:00:00.000'' = ''1970-01-01 00:00:00.000''"
    "parse_line example_line = [Some ''1970-01-01 00:00:00.000'', Some ''10.0.0.1'', Some ''10.0.0.2'', Some ''443'',
       Some ''80'', Some ''TCP'', Some ''60'', None, None, Some ''0x0018'', Some ''0.5'']"
    "split_on (CHR ''.'') ''1970-01-01 00:00:00.000'' = [''1970-01-01 00:00:00'', ''000'']"
    "example_line \<noteq> []" "strptime_seconds ''1970-01-01 00:00:00'' \<noteq> None" "py_int ''000'' \<noteq> None"
    by code_simp+
  then show ?thesis by (auto simp: read_record_def parse_ts_epoch_def)
qed

text \<open>A junk line is skipped, the record is copied.\<close>

lemma replay_example:
  "\<exists>k w. replay 1 (replay_cfg_init 1 None False False) (\<lambda>_. False) (\<lambda>i r. csv_put (\<lambda>_. []) 0 (RDict r)) (csv_flush 0) 0
     (Some [''junk'', example_line]) (csv_writer_init 60 10 []) = Some (Inr (k, w))"
proof -
  have j: "read_record ''junk'' = None" by code_simp
  obtain rec e where r: "read_record example_line = Some (rec, e)" using example_line_read by blast
  obtain t where t: "from_timestamp 0 = Inr t" using from_timestamp_0 by blast
  show ?thesis unfolding One_nat_def
    by (simp add: replay_def poll_def replay_cfg_init_def replay_init_def j r replay_record_def gap_of_def restamped_def
        csv_put_def rotate_if_needed_def should_rotate_def open_new_file_def close_current_def csv_line_def
        append_line_def csv_writer_init_def t Let_def)
qed

theorem replay_copies_witness:
  "\<exists>w. replay 1 (replay_cfg_init 1 None False False) (\<lambda>_. False) (\<lambda>i r. csv_put (\<lambda>_. []) 0 (RDict r)) (csv_flush 0) 0
       (Some [''junk'', example_line]) (csv_writer_init 60 10 []) = Some (Inr (1, w))
     \<and> concat (map snd (out_dir w)) = [strip example_line @ [newline]]"
proof -
  obtain k w where w: "replay (Suc 0) (replay_cfg_init 1 None False False) (\<lambda>_. False)
      (\<lambda>i r. csv_put (\<lambda>_. []) 0 (RDict r)) (csv_flush 0) 0 (Some [''junk'', example_line]) (csv_writer_init 60 10 [])
      = Some (Inr (k, w))" using replay_example by (auto simp del: replay_def)
  have j: "read_record ''junk'' = None" by code_simp
  have g: "csv_good 10485760 0 (csv_writer_init 60 10 [])" using csv_init_good [of "[]" 10 60] by simp
  have f: "filter (\<lambda>l. read_record l \<noteq> None) [''junk'', example_line] = [example_line]" "out_dir (csv_writer_init 60 10 []) = []"
    using j example_line_read by (auto simp: csv_writer_init_def)
  have "k = 1 \<and> concat (map snd (out_dir w)) = [strip example_line @ [newline]]"
    using replay_copies [OF g _ _ _ w] unfolding f by (simp add: replay_cfg_init_def)
  then show ?thesis using w by auto
qed

text \<open>C30: when a replay ends.  Without \<open>--loop\<close> one pass is enough; with it, a replay ends when a stop
  is requested, within one pass more than the tests of the flag made until then; a file without a single
  replayable record is read for ever.\<close>

theorem replay_terminates:
  "(\<not> loop cfg \<longrightarrow> (\<exists>r. replay 1 cfg stops put flush t capt w = Some r))
   \<and> ((\<forall>i \<ge> k. stops i) \<longrightarrow> (\<exists>r. replay (k + 1) cfg stops put flush t capt w = Some r))
   \<and> (loop cfg \<and> (\<forall>i. \<not> stops i) \<and> capt = Some lines \<and> (\<forall>l \<in> set lines. read_record l = None) \<longrightarrow>
        replay fuel cfg stops put flush t capt w = None)"
proof (intro conjI impI)
  show "\<exists>r. replay 1 cfg stops put flush t capt w = Some r" if "\<not> loop cfg"
    unfolding One_nat_def by (insert that, cases capt) (auto simp: replay_def poll_def split: sum.splits)
  show "\<exists>r. replay (k + 1) cfg stops put flush t capt w = Some r" if "\<forall>i \<ge> k. stops i"
    using replay_loop_stops [OF that, of "replay_init w" "k + 1" cfg put t]
    by - (cases capt, auto simp: replay_def)
  show "replay fuel cfg stops put flush t capt w = None"
    if "loop cfg \<and> (\<forall>i. \<not> stops i) \<and> capt = Some lines \<and> (\<forall>l \<in> set lines. read_record l = None)"
    using that replay_loop_idle [of lines stops "replay_init w" cfg fuel put t]
    by (simp add: replay_def replay_init_def)
qed

theorem replay_terminates_witness:
  "(\<exists>r. replay 1 (replay_cfg_init 1 None False False) (\<lambda>_. False) (\<lambda>_ _ w. (w, Inr ())) id 0 (Some [''junk'']) () = Some r)
   \<and> (\<exists>r. replay 4 (replay_cfg_init 1 None False True) (\<lambda>i. 3 \<le> i) (\<lambda>_ _ w. (w, Inr ())) id 0 (Some [''junk'']) () = Some r)
   \<and> replay 7 (replay_cfg_init 1 None False True) (\<lambda>_. False) (\<lambda>_ _ w. (w, Inr ())) id 0 (Some [''junk'']) () = None"
proof -
  have j: "read_record ''junk'' = None" by code_simp
  have c: "\<not> loop (replay_cfg_init 1 None False False)" "loop (replay_cfg_init 1 None False True)"
    by (simp_all add: replay_cfg_init_def)
  show ?thesis
    using replay_terminates [of "replay_cfg_init 1 None False False" "\<lambda>_. False" "\<lambda>_ _ w. (w, Inr ())" id 0 "Some [''junk'']" "()"]
      replay_terminates [where k = 3 and stops = "\<lambda>i. 3 \<le> i" and cfg = "replay_cfg_init 1 None False True"
        and put = "\<lambda>_ _ w. (w, Inr ())" and flush = id and t = 0 and capt = "Some [''junk'']" and w = "()"]
      replay_terminates [where stops = "\<lambda>_. False" and cfg = "replay_cfg_init 1 None False True" and fuel = 7
        and put = "\<lambda>_ _ w. (w, Inr ())" and flush = id and t = 0 and capt = "Some [''junk'']" and lines = "[''junk'']" and w = "()"]
      c j by simp
qed

text \<open>The restamping writer takes the second from the instant rounded to microseconds and the milliseconds
  from the instant cut: just below a second, the text is almost one second ahead.\<close>

lemma format_ts_ahead: "format_ts_epoch (9999999 / 10000000) = Inr ''1970-01-01 00:00:01.999''"
proof -
  have "round_half_even (9999999 / 10000000 * 1000000) = 1000000"
    by (simp add: round_half_even_def floor_eq_iff)
  moreover have "of_micros 1000000 = Inr \<lparr>dt_year = 1970, dt_month = 1, dt_day = 1, dt_hour = 0, dt_minute = 0,
      dt_second = 1, dt_micro = 0\<rparr>" by code_simp
  moreover have "strftime_seconds \<lparr>dt_year = 1970, dt_month = 1, dt_day = 1, dt_hour = 0, dt_minute = 0, dt_second = 1,
      dt_micro = 0\<rparr> = ''1970-01-01 00:00:01''" "pad 3 999 = ''999''" by code_simp+
  moreover have "py_trunc (9999999 / 10000000) = 0" "py_trunc (9999999 / 10000000 * 1000) = 999"
    by (simp_all add: py_trunc_def floor_eq_iff)
  ultimately show ?thesis by (simp add: format_ts_epoch_def from_timestamp_def)
qed

text \<open>C31: timestamps.  The text the capture parser writes for an epoch from the year 1000 on is read back
  by the replay as that epoch, rounded to microseconds, cut to milliseconds.\<close>

theorem timestamp_roundtrip:
  assumes "py_float v = Some (Fin x)" and "from_timestamp x = Inr t" and "1000 \<le> dt_year t"
    and "timestamp_text v = Inr ts"
  shows "parse_ts_epoch ts = Some (of_int (round_half_even (x * 1000000) div 1000) / 1000)"
proof -
  define us where "us = round_half_even (x * 1000000)"
  have om: "of_micros us = Inr t" using assms(2) by (simp add: from_timestamp_def us_def)
  note sp = of_micros_spec [OF om]
  let ?base = "strftime_seconds t" and ?ms = "pad 3 (dt_micro t div 1000)"
  have ts: "ts = ?base @ ''.'' @ ?ms" using assms by (simp add: timestamp_text_def)
  have ms: "0 \<le> dt_micro t div 1000" "dt_micro t div 1000 < 10 ^ 3" using sp(13,14) by (simp_all add: pos_imp_zdiv_nonneg_iff)
  note p = pad_spec [of 3, OF _ ms]
  have nodot: "CHR ''.'' \<notin> set ?base" "CHR ''.'' \<notin> set ?ms"
    using strftime_chars [of "CHR ''.''" t] digits_not(4) [of ?ms] p(2) by (auto simp: is_digit_def)
  have "hd ts = hd (int_str (dt_year t))" "int_str (dt_year t) \<noteq> []" by (simp_all add: ts strftime_seconds_def)
  then have h: "\<not> is_space (hd ts)"
    using int_str_chars [of "hd (int_str (dt_year t))" "dt_year t"] is_digit_plain(6) by (auto simp: is_space_def [of "CHR ''-''"])
  have "?ms \<noteq> []" using p(1) by auto
  then have "last ts \<in> set ?ms" by (simp add: ts)
  then have "\<not> is_space (last ts)" using digits_not(6) [of ?ms] p(2) by auto
  with h have st: "strip ts = ts" by (intro strip_id) simp
  have sp_on: "split_on (CHR ''.'') ts = [?base, ?ms]"
    using nodot unfolding ts by (simp add: split_on_append split_on_single)
  define s where "s = to_micros (t\<lparr>dt_micro := 0\<rparr>) div 1000000"
  have s: "to_micros (t\<lparr>dt_micro := 0\<rparr>) = s * 1000000" by (simp add: s_def to_micros_def)
  have "us = to_micros (t\<lparr>dt_micro := 0\<rparr>) + dt_micro t" using sp(1) by (simp add: to_micros_def)
  then have "us = 1000 * (s * 1000) + dt_micro t" using s by simp
  then have us: "us div 1000 = s * 1000 + dt_micro t div 1000" by simp
  have "parse_ts_epoch ts = Some (of_int (s * 1000000) / 1000000 + of_int (dt_micro t div 1000) / 1000)"
    using strptime_strftime [OF of_micros_valid [OF om] assms(3)] py_int_pad [OF _ ms]
    by (simp add: parse_ts_epoch_def st sp_on s)
  also have "of_int (s * 1000000) / 1000000 + of_int (dt_micro t div 1000) / 1000 = (of_int (us div 1000) / 1000 :: real)"
    by (simp add: us field_simps)
  finally show ?thesis by (simp add: us_def)
qed


theorem timestamp_roundtrip_witness:
  "parse_ts_epoch ''1970-01-01 00:00:00.000'' = Some 0"
proof -
  have z: "int_str 0 = ''0''" by code_simp
  have e: "py_float ''0'' = Some (Fin 0)" using py_float_int_str [of 0] arg_cong [OF z, of py_float] by simp
  obtain t where t: "from_timestamp 0 = Inr t" "dt_year t = 1970"
  proof -
    have "of_micros 0 = Inr \<lparr>dt_year = 1970, dt_month = 1, dt_day = 1, dt_hour = 0, dt_minute = 0, dt_second = 0, dt_micro = 0\<rparr>"
      by code_simp
    then show ?thesis using that round_half_even_of_int [of 0] by (simp add: from_timestamp_def)
  qed
  have "timestamp_text ''0'' = Inr ''1970-01-01 00:00:00.000''"
    using example_epoch by (auto simp: parse_epoch_def split: if_splits sum.splits)
  from timestamp_roundtrip [OF e t(1) _ this] t(2) show ?thesis using round_half_even_of_int [of 0] by simp
qed

end
