(* ===== verification/Link_Graph.thy ===== *)
theory Link_Graph
  imports Net_Address Prelude
begin

text \<open>
  The link analysis of \<open>linkanalysis/\<close>: \<open>graph.py\<close>, \<open>markov.py\<close>, \<open>pagerank.py\<close> and \<open>centrality.py\<close>.
  A networkx graph is the parameter \<open>digraph\<close>, which holds what the code reads from it: its nodes in
  order, the out-edges of a node with their attributes and the weighted degrees; \<open>good_graph\<close> states what
  networkx guarantees of a simple directed graph.  Vectors and matrices of numpy are lists of reals.
\<close>

section \<open>Graphs\<close>

type_synonym attrs = "(string, int) dict"

record digraph =
  nodes :: "string list"
  out_edges :: "string \<Rightarrow> (string \<times> attrs) list"
  total_degree :: "string \<Rightarrow> string \<Rightarrow> int"
  in_degree :: "string \<Rightarrow> string \<Rightarrow> int"
  out_degree :: "string \<Rightarrow> string \<Rightarrow> int"

definition good_graph :: "digraph \<Rightarrow> bool" where
  "good_graph g \<longleftrightarrow> distinct (nodes g)
     \<and> (\<forall>u \<in> set (nodes g). distinct (map fst (out_edges g u)) \<and> fst ` set (out_edges g u) \<subseteq> set (nodes g))"

definition edge_weight :: "string \<Rightarrow> attrs \<Rightarrow> int" where
  "edge_weight weight d = dget_or d weight 1"

definition positive_weights :: "string \<Rightarrow> digraph \<Rightarrow> bool" where
  "positive_weights weight g \<longleftrightarrow> (\<forall>u \<in> set (nodes g). \<forall>(v, d) \<in> set (out_edges g u). 0 < edge_weight weight d)"

text \<open>The edge records of \<open>build_graph_from_edges\<close>; \<open>None\<close> is a missing or null value.\<close>

record edge_row =
  er_src :: "string option"
  er_dst :: "string option"
  er_packets :: "int option"
  er_bytes :: "int option"

text \<open>What the code calls on the graph under construction.\<close>

record 'g graph_ops =
  new_graph :: 'g
  has_edge :: "'g \<Rightarrow> string \<Rightarrow> string \<Rightarrow> bool"
  edge_data :: "'g \<Rightarrow> string \<Rightarrow> string \<Rightarrow> attrs"
  set_edge_data :: "string \<Rightarrow> string \<Rightarrow> attrs \<Rightarrow> 'g \<Rightarrow> 'g"
  add_edge :: "string \<Rightarrow> string \<Rightarrow> attrs \<Rightarrow> 'g \<Rightarrow> 'g"

text \<open>The documented behaviour: an edge holds the attributes it was given last; other edges keep theirs.\<close>

definition good_ops :: "'g graph_ops \<Rightarrow> bool" where
  "good_ops G \<longleftrightarrow> (\<forall>u v. \<not> has_edge G (new_graph G) u v)
     \<and> (\<forall>g u v d x y. has_edge G (add_edge G u v d g) x y \<longleftrightarrow> has_edge G g x y \<or> (x, y) = (u, v))
     \<and> (\<forall>g u v d x y. edge_data G (add_edge G u v d g) x y = (if (x, y) = (u, v) then d else edge_data G g x y))
     \<and> (\<forall>g u v d x y. has_edge G g u v \<longrightarrow> has_edge G (set_edge_data G u v d g) x y = has_edge G g x y)
     \<and> (\<forall>g u v d x y. has_edge G g u v \<longrightarrow>
           edge_data G (set_edge_data G u v d g) x y = (if (x, y) = (u, v) then d else edge_data G g x y))"

text \<open>\<open>G[src][dst][k] += n\<close>\<close>

definition bump :: "string \<Rightarrow> int \<Rightarrow> attrs \<Rightarrow> attrs" where
  "bump k n d = dset k (dget_or d k 0 + n) d"

definition add_edge_row :: "'g graph_ops \<Rightarrow> edge_row \<Rightarrow> 'g \<Rightarrow> 'g" where
  "add_edge_row G e g =
     (let packets = (case er_packets e of None \<Rightarrow> 0 | Some k \<Rightarrow> k);
          bytes = (case er_bytes e of None \<Rightarrow> 0 | Some k \<Rightarrow> k)
      in case (er_src e, er_dst e) of
           (Some src, Some dst) \<Rightarrow>
             if src = [] \<or> dst = [] then g
             else if has_edge G g src dst
             then set_edge_data G src dst (bump ''bytes'' bytes (bump ''packets'' packets (edge_data G g src dst))) g
             else add_edge G src dst [(''packets'', packets), (''bytes'', bytes)] g
         | _ \<Rightarrow> g)"

definition build_graph_from_edges :: "'g graph_ops \<Rightarrow> edge_row list \<Rightarrow> 'g" where
  "build_graph_from_edges G edges = fold (add_edge_row G) edges (new_graph G)"

text \<open>\<open>sorted(degrees, key=degrees.get, reverse=True)[:n]\<close> of the degrees by \<open>weight\<close>.\<close>

definition top_nodes :: "digraph \<Rightarrow> string \<Rightarrow> nat \<Rightarrow> string list" where
  "top_nodes g weight n = take n (sort_desc (total_degree g weight) (nodes g))"

definition valid_weights :: "string list" where "valid_weights = [''packets'', ''bytes'']"

text \<open>\<open>G.subgraph(ns).copy()\<close> is the parameter \<open>sub\<close>.\<close>

definition prune_graph_top_n ::
  "(digraph \<Rightarrow> string list \<Rightarrow> digraph) \<Rightarrow> digraph \<Rightarrow> nat \<Rightarrow> string \<Rightarrow> digraph res" where
  "prune_graph_top_n sub g n weight =
     (if weight \<notin> set valid_weights then Inl ValueError
      else if length (nodes g) \<le> n then Inr g
      else Inr (sub g (top_nodes g weight n)))"

text \<open>\<open>addr.is_private\<close> is a parameter.\<close>

definition classify_ip :: "(ip \<Rightarrow> bool) \<Rightarrow> string \<Rightarrow> string" where
  "classify_ip is_private s =
     (case ip_address s of None \<Rightarrow> ''public'' | Some a \<Rightarrow> if is_private a then ''private'' else ''public'')"

section \<open>Vectors and matrices\<close>

definition uniform :: "nat \<Rightarrow> real list" where
  "uniform n = replicate n (1 / real n)"

definition vecmat :: "real list \<Rightarrow> real list list \<Rightarrow> real list" where
  "vecmat x M = map (\<lambda>j. sum_list (map (\<lambda>i. x ! i * M ! i ! j) [0..<length x])) [0..<length x]"

definition l1_dist :: "real list \<Rightarrow> real list \<Rightarrow> real" where
  "l1_dist x y = sum_list (map2 (\<lambda>a b. \<bar>a - b\<bar>) x y)"

text \<open>\<open>node_index[v]\<close>\<close>

fun node_pos :: "string list \<Rightarrow> string \<Rightarrow> nat option" where
  "node_pos [] v = None"
| "node_pos (u # us) v = (if u = v then Some 0 else map_option Suc (node_pos us v))"

definition out_total :: "string \<Rightarrow> (string \<times> attrs) list \<Rightarrow> int" where
  "out_total weight es = sum_list (map (\<lambda>(v, d). edge_weight weight d) es)"

definition share :: "string \<Rightarrow> int \<Rightarrow> attrs \<Rightarrow> real res" where
  "share weight t d = (if t = 0 then Inl ZeroDivisionError else Inr (of_int (edge_weight weight d) / of_int t))"

text \<open>The row of one node: the loop over its out-edges, \<open>upd\<close> being the assignment to the entry.\<close>

definition fill_row ::
  "(real \<Rightarrow> real \<Rightarrow> real) \<Rightarrow> string \<Rightarrow> string list \<Rightarrow> (string \<times> attrs) list \<Rightarrow> real list res" where
  "fill_row upd weight ns es =
     (let zero = replicate (length ns) 0
      in if es = [] then Inr zero
         else foldE (\<lambda>(v, d) row.
                case node_pos ns v of
                  None \<Rightarrow> Inl KeyError
                | Some j \<Rightarrow> bindE (share weight (out_total weight es) d) (\<lambda>q. Inr (row[j := upd (row ! j) q]))) es zero)"

definition normalize_rows :: "real list list \<Rightarrow> real list list" where
  "normalize_rows M = map (\<lambda>row. if sum_list row = 0 then uniform (length M) else row) M"

section \<open>The Markov chain\<close>

definition build_markov_matrix :: "digraph \<Rightarrow> string \<Rightarrow> (string list \<times> real list list) res" where
  "build_markov_matrix g weight =
     (if nodes g = [] then Inr ([], [])
      else bindE (mapE (\<lambda>u. fill_row (+) weight (nodes g) (out_edges g u)) (nodes g)) (\<lambda>P.
        Inr (nodes g, normalize_rows P)))"

definition markov_next_hop :: "digraph \<Rightarrow> string \<Rightarrow> string \<Rightarrow> nat \<Rightarrow> (string \<times> real) list res" where
  "markov_next_hop g src weight top_k =
     (if src \<notin> set (nodes g) then Inr []
      else let es = out_edges g src
           in if es = [] then Inr []
              else bindE (mapE (\<lambda>(v, d). bindE (share weight (out_total weight es) d) (\<lambda>q. Inr (v, q))) es) (\<lambda>probs.
                Inr (take top_k (sort_desc snd probs))))"

text \<open>The heat map: the rows of the \<open>top_k\<close> nodes, restricted to these nodes.\<close>

definition heatmap_row :: "string \<Rightarrow> string list \<Rightarrow> (string \<times> attrs) list \<Rightarrow> real list res" where
  "heatmap_row weight tops es =
     (let zero = replicate (length tops) 0
      in if es = [] then Inr zero
         else foldE (\<lambda>(v, d) row.
                case node_pos tops v of
                  None \<Rightarrow> Inr row
                | Some j \<Rightarrow> bindE (share weight (out_total weight es) d) (\<lambda>q. Inr (row[j := q]))) es zero)"

definition markov_transition_heatmap :: "digraph \<Rightarrow> nat \<Rightarrow> string \<Rightarrow> (string list \<times> real list list) res" where
  "markov_transition_heatmap g top_k weight =
     (if nodes g = [] then Inr ([], [])
      else let tops = top_nodes g weight top_k
           in if length tops < 2 then Inr (tops, replicate (length tops) (replicate (length tops) 0))
              else bindE (mapE (\<lambda>u. heatmap_row weight tops (out_edges g u)) tops) (\<lambda>P.
                Inr (tops, normalize_rows P)))"

text \<open>The loop of \<open>stationary_distribution\<close>: \<open>None\<close> when \<open>max_iter\<close> steps were not enough.\<close>

fun stationary_loop :: "nat \<Rightarrow> real \<Rightarrow> real list list \<Rightarrow> real list \<Rightarrow> real list option" where
  "stationary_loop 0 tol P x = None"
| "stationary_loop (Suc k) tol P x =
     (let x_new = vecmat x P
      in if l1_dist x_new x < tol then Some x_new else stationary_loop k tol P x_new)"

definition stationary_distribution :: "digraph \<Rightarrow> string \<Rightarrow> nat \<Rightarrow> real \<Rightarrow> (string \<times> real) list option res" where
  "stationary_distribution g weight max_iter tol =
     bindE (build_markov_matrix g weight) (\<lambda>(ns, P).
       if P = [] then Inr None
       else Inr (map_option (zip ns) (stationary_loop max_iter tol P (uniform (length P)))))"

section \<open>PageRank\<close>

definition pagerank_matrix :: "digraph \<Rightarrow> string \<Rightarrow> real list list res" where
  "pagerank_matrix g weight =
     bindE (mapE (\<lambda>u. fill_row (\<lambda>old q. q) weight (nodes g) (out_edges g u)) (nodes g)) (\<lambda>M.
       Inr (normalize_rows M))"

definition personalization_vector :: "string list \<Rightarrow> (string, real) dict option \<Rightarrow> real list" where
  "personalization_vector ns pers =
     (case pers of
        None \<Rightarrow> uniform (length ns)
      | Some d \<Rightarrow>
          let p = map (\<lambda>v. dget_or d v 0) ns
          in if sum_list p > 0 then map (\<lambda>x. x / sum_list p) p else uniform (length ns))"

definition pagerank_step :: "real \<Rightarrow> real list list \<Rightarrow> real list \<Rightarrow> real list \<Rightarrow> real list" where
  "pagerank_step alpha M p x = map2 (\<lambda>a b. alpha * a + (1 - alpha) * b) (vecmat x M) p"

fun pagerank_loop :: "nat \<Rightarrow> real \<Rightarrow> real \<Rightarrow> real list list \<Rightarrow> real list \<Rightarrow> real list \<Rightarrow> real list" where
  "pagerank_loop 0 alpha tol M p x = x"
| "pagerank_loop (Suc k) alpha tol M p x =
     (let x_new = pagerank_step alpha M p x
      in if l1_dist x_new x < tol then x_new else pagerank_loop k alpha tol M p x_new)"

definition pagerank_power_iteration ::
  "digraph \<Rightarrow> real \<Rightarrow> string \<Rightarrow> nat \<Rightarrow> real \<Rightarrow> (string, real) dict option \<Rightarrow> (string, real) dict res" where
  "pagerank_power_iteration g alpha weight max_iter tol pers =
     (if nodes g = [] then Inr []
      else bindE (pagerank_matrix g weight) (\<lambda>M.
        Inr (zip (nodes g)
          (pagerank_loop max_iter alpha tol M (personalization_vector (nodes g) pers) (uniform (length (nodes g)))))))"

text \<open>\<open>nx.pagerank\<close> is the parameter \<open>nx\<close>; the defaults of the validation are \<open>alpha\<close> 0.85, 100 steps, 1e-6.\<close>

definition default_max_iter :: nat where "default_max_iter = 100"
definition default_tol :: real where "default_tol = 1 / 1000000"
definition default_alpha :: real where "default_alpha = 85 / 100"

definition validate_pagerank_agreement ::
  "(digraph \<Rightarrow> real \<Rightarrow> string \<Rightarrow> (string, real) dict) \<Rightarrow> digraph \<Rightarrow> real \<Rightarrow> string \<Rightarrow> real \<Rightarrow> bool res" where
  "validate_pagerank_agreement nx g alpha weight tolerance =
     (let pr_nx = nx g alpha weight
      in bindE (pagerank_power_iteration g alpha weight default_max_iter default_tol None) (\<lambda>pr_pi.
           let all = remdups (dkeys pr_nx @ dkeys pr_pi)
           in if all = [] then Inl ValueError
              else Inr (Max (set (map (\<lambda>n. \<bar>dget_or pr_nx n 0 - dget_or pr_pi n 0\<bar>) all)) \<le> tolerance)))"

section \<open>Centrality\<close>

definition normalized_degree :: "digraph \<Rightarrow> (string \<Rightarrow> int) \<Rightarrow> (string, real) dict" where
  "normalized_degree g degree =
     (let n = length (nodes g)
      in if n \<le> 1 then map (\<lambda>v. (v, 0)) (nodes g)
         else map (\<lambda>v. (v, of_int (degree v) / real (n - 1))) (nodes g))"

definition degree_centrality :: "digraph \<Rightarrow> string \<Rightarrow> (string, real) dict" where
  "degree_centrality g weight = normalized_degree g (total_degree g weight)"

definition in_degree_centrality :: "digraph \<Rightarrow> string \<Rightarrow> (string, real) dict" where
  "in_degree_centrality g weight = normalized_degree g (in_degree g weight)"

definition out_degree_centrality :: "digraph \<Rightarrow> string \<Rightarrow> (string, real) dict" where
  "out_degree_centrality g weight = normalized_degree g (out_degree g weight)"

definition max_nodes_for_betweenness :: nat where "max_nodes_for_betweenness = 300"

text \<open>The distances handed to \<open>nx.betweenness_centrality\<close>, which is the parameter \<open>nx\<close>; with an empty
  weight it gets the graph itself.\<close>

definition distance_edges :: "digraph \<Rightarrow> string \<Rightarrow> (string \<times> string \<times> real) list" where
  "distance_edges g weight =
     concat (map (\<lambda>u. map (\<lambda>(v, d). (u, v, 1 / of_int (max (edge_weight weight d) 1))) (out_edges g u)) (nodes g))"

definition betweenness_centrality ::
  "(digraph + (string \<times> string \<times> real) list \<Rightarrow> int option \<Rightarrow> bool \<Rightarrow> (string, real) dict) \<Rightarrow>
     digraph \<Rightarrow> string \<Rightarrow> int option \<Rightarrow> bool \<Rightarrow> (string, real) dict" where
  "betweenness_centrality nx g weight k normalized =
     (if length (nodes g) > max_nodes_for_betweenness then map (\<lambda>v. (v, 0)) (nodes g)
      else if weight \<noteq> [] then nx (Inr (distance_edges g weight)) k normalized
      else nx (Inl g) k normalized)"

definition top_centrality_nodes :: "(string, real) dict \<Rightarrow> nat \<Rightarrow> (string \<times> real) list" where
  "top_centrality_nodes c n = take n (sort_desc snd c)"

definition centrality_summary ::
  "(digraph + (string \<times> string \<times> real) list \<Rightarrow> int option \<Rightarrow> bool \<Rightarrow> (string, real) dict) \<Rightarrow>
     digraph \<Rightarrow> string \<Rightarrow> (string, (string, real) dict) dict" where
  "centrality_summary nx g weight =
     [(''degree'', degree_centrality g weight), (''in_degree'', in_degree_centrality g weight),
      (''out_degree'', out_degree_centrality g weight),
      (''betweenness'', if length (nodes g) \<le> max_nodes_for_betweenness
                        then betweenness_centrality nx g weight None True else [])]"


section \<open>Probability vectors\<close>

definition prob_vector :: "nat \<Rightarrow> real list \<Rightarrow> bool" where
  "prob_vector n x \<longleftrightarrow> length x = n \<and> (\<forall>i < n. 0 \<le> x ! i) \<and> (\<Sum>i < n. x ! i) = 1"

definition stochastic :: "nat \<Rightarrow> real list list \<Rightarrow> bool" where
  "stochastic n M \<longleftrightarrow> length M = n \<and> (\<forall>i < n. prob_vector n (M ! i))"

lemma sum_list_nth: "sum_list x = (\<Sum>i < length x. x ! i :: real)"
  by (simp add: sum_list_sum_nth atLeast0LessThan)

lemma sum_list_upt: "sum_list (map f [0..<n]) = (\<Sum>i < n. f i :: real)"
  by (simp add: interv_sum_list_conv_sum_set_nat atLeast0LessThan)

lemma length_vecmat [simp]: "length (vecmat x M) = length x"
  by (simp add: vecmat_def)

lemma vecmat_nth: "j < length x \<Longrightarrow> vecmat x M ! j = (\<Sum>i < length x. x ! i * M ! i ! j)"
  by (simp add: vecmat_def sum_list_upt)

lemma l1_dist_sum: "length x = n \<Longrightarrow> length y = n \<Longrightarrow> l1_dist x y = (\<Sum>i < n. \<bar>x ! i - y ! i\<bar>)"
  by (simp add: l1_dist_def sum_list_nth)

lemma l1_dist_sym: "length x = length y \<Longrightarrow> l1_dist x y = l1_dist y x"
  by (simp add: l1_dist_sum abs_minus_commute)

lemma l1_dist_triangle:
  "length x = n \<Longrightarrow> length y = n \<Longrightarrow> length z = n \<Longrightarrow> l1_dist x z \<le> l1_dist x y + l1_dist y z"
  by (simp add: l1_dist_sum sum.distrib [symmetric] sum_mono)

lemma l1_dist_nonneg: "length x = length y \<Longrightarrow> 0 \<le> l1_dist x y"
  by (simp add: l1_dist_sum sum_nonneg)

lemma l1_dist_prob: "prob_vector n x \<Longrightarrow> prob_vector n y \<Longrightarrow> l1_dist x y \<le> 2"
proof -
  assume a: "prob_vector n x" "prob_vector n y"
  then have "l1_dist x y = (\<Sum>i < n. \<bar>x ! i - y ! i\<bar>)" by (simp add: prob_vector_def l1_dist_sum)
  also have "\<dots> \<le> (\<Sum>i < n. x ! i + y ! i)"
    by (rule sum_mono) (use a in \<open>fastforce simp: prob_vector_def abs_le_iff\<close>)
  also have "\<dots> = 2" using a by (simp add: prob_vector_def sum.distrib)
  finally show ?thesis .
qed

lemma prob_vector_uniform: "0 < n \<Longrightarrow> prob_vector n (uniform n)"
  by (simp add: prob_vector_def uniform_def)

lemma vecmat_prob:
  assumes "prob_vector n x" and "stochastic n M"
  shows "prob_vector n (vecmat x M)"
proof -
  have len: "length x = n" using assms(1) by (simp add: prob_vector_def)
  have "0 \<le> vecmat x M ! j" if "j < n" for j
    using that assms by (auto simp: vecmat_nth len prob_vector_def stochastic_def intro!: sum_nonneg mult_nonneg_nonneg)
  moreover have "(\<Sum>j < n. vecmat x M ! j) = (\<Sum>j < n. \<Sum>i < n. x ! i * M ! i ! j)"
    by (simp add: vecmat_nth len)
  then have "(\<Sum>j < n. vecmat x M ! j) = (\<Sum>i < n. \<Sum>j < n. x ! i * M ! i ! j)"
    by (simp only: sum.swap [of "\<lambda>j i. x ! i * M ! i ! j"])
  then have "(\<Sum>j < n. vecmat x M ! j) = (\<Sum>i < n. x ! i * (\<Sum>j < n. M ! i ! j))"
    by (simp only: sum_distrib_left)
  then have "(\<Sum>j < n. vecmat x M ! j) = 1"
    using assms by (simp add: stochastic_def prob_vector_def)
  ultimately show ?thesis by (simp add: prob_vector_def len)
qed

text \<open>A stochastic matrix does not increase the distance of two vectors.\<close>

lemma vecmat_nonexpansive:
  assumes "length x = n" "length y = n" and "stochastic n M"
  shows "l1_dist (vecmat x M) (vecmat y M) \<le> l1_dist x y"
proof -
  have M: "0 \<le> M ! i ! j" if "i < n" "j < n" for i j using assms(3) that by (simp add: stochastic_def prob_vector_def)
  have "l1_dist (vecmat x M) (vecmat y M) = (\<Sum>j < n. \<bar>\<Sum>i < n. (x ! i - y ! i) * M ! i ! j\<bar>)"
    using assms(1,2) by (simp add: l1_dist_sum vecmat_nth sum_subtractf [symmetric] left_diff_distrib)
  also have "\<dots> \<le> (\<Sum>j < n. \<Sum>i < n. \<bar>x ! i - y ! i\<bar> * M ! i ! j)"
    by (rule sum_mono, rule order.trans [OF sum_abs]) (simp add: abs_mult M)
  also have "\<dots> = (\<Sum>i < n. \<Sum>j < n. \<bar>x ! i - y ! i\<bar> * M ! i ! j)" by (rule sum.swap)
  also have "\<dots> = (\<Sum>i < n. \<bar>x ! i - y ! i\<bar> * (\<Sum>j < n. M ! i ! j))" by (simp only: sum_distrib_left)
  also have "\<dots> = l1_dist x y"
    using assms by (simp add: l1_dist_sum stochastic_def prob_vector_def)
  finally show ?thesis .
qed

lemma length_pagerank_step [simp]: "length p = length x \<Longrightarrow> length (pagerank_step alpha M p x) = length x"
  by (simp add: pagerank_step_def)

lemma pagerank_step_prob:
  assumes "prob_vector n x" "stochastic n M" "prob_vector n p" "0 \<le> alpha" "alpha \<le> 1"
  shows "prob_vector n (pagerank_step alpha M p x)"
proof -
  note v = vecmat_prob [OF assms(1,2)]
  then show ?thesis
    using assms(1,3-) by (simp add: prob_vector_def pagerank_step_def sum.distrib flip: sum_distrib_left)
qed

lemma pagerank_step_contracts:
  assumes "length x = n" "length y = n" "length p = n" and "stochastic n M" and "0 \<le> alpha"
  shows "l1_dist (pagerank_step alpha M p x) (pagerank_step alpha M p y) \<le> alpha * l1_dist x y"
proof -
  have "l1_dist (pagerank_step alpha M p x) (pagerank_step alpha M p y)
      = (\<Sum>i < n. \<bar>alpha * (vecmat x M ! i - vecmat y M ! i)\<bar>)"
    using assms(1-3) by (simp add: l1_dist_sum pagerank_step_def right_diff_distrib)
  also have "\<dots> = alpha * l1_dist (vecmat x M) (vecmat y M)"
    using assms by (simp add: l1_dist_sum abs_mult sum_distrib_left)
  also have "\<dots> \<le> alpha * l1_dist x y"
    using vecmat_nonexpansive [OF assms(1,2,4)] assms(5) by (rule mult_left_mono)
  finally show ?thesis .
qed

text \<open>The loop: it stops at the first step shorter than the tolerance, and the steps shrink by \<open>alpha\<close>.\<close>

lemma pagerank_loop_prob:
  "prob_vector n x \<Longrightarrow> stochastic n M \<Longrightarrow> prob_vector n p \<Longrightarrow> 0 \<le> alpha \<Longrightarrow> alpha \<le> 1 \<Longrightarrow>
     prob_vector n (pagerank_loop k alpha tol M p x)"
  by (induction k arbitrary: x) (simp_all add: pagerank_step_prob Let_def)

lemma pagerank_loop_short_step:
  assumes "prob_vector n x" "stochastic n M" "prob_vector n p" "0 \<le> alpha" "alpha \<le> 1"
    and "l1_dist (pagerank_step alpha M p x) x \<le> c" "c * alpha ^ k < tol"
  shows "\<exists>y. prob_vector n y \<and> pagerank_loop (Suc k) alpha tol M p x = pagerank_step alpha M p y
    \<and> l1_dist (pagerank_step alpha M p y) y < tol"
  using assms
proof (induction k arbitrary: x c)
  case 0
  then show ?case by (intro exI [of _ x]) (simp add: Let_def)
next
  case (Suc k)
  let ?f = "pagerank_step alpha M p"
  have x: "prob_vector n (?f x)" by (rule pagerank_step_prob) (use Suc.prems in simp_all)
  show ?case
  proof (cases "l1_dist (?f x) x < tol")
    case True
    then show ?thesis using Suc.prems(1) by (intro exI [of _ x]) (simp add: Let_def)
  next
    case False
    have "l1_dist (?f (?f x)) (?f x) \<le> alpha * l1_dist (?f x) x"
      by (rule pagerank_step_contracts [of _ n]) (use x Suc.prems in \<open>simp_all add: prob_vector_def\<close>)
    also have "\<dots> \<le> alpha * c" using Suc.prems by (simp add: mult_left_mono)
    finally have "l1_dist (?f (?f x)) (?f x) \<le> alpha * c" .
    moreover have "alpha * c * alpha ^ k < tol" using Suc.prems(7) by (simp add: mult_ac)
    moreover have "pagerank_loop (Suc (Suc k)) alpha tol M p x = pagerank_loop (Suc k) alpha tol M p (?f x)"
      using False by (subst pagerank_loop.simps) (simp only: Let_def if_False)
    ultimately show ?thesis using Suc.IH [OF x Suc.prems(2-5)] by metis
  qed
qed


section \<open>The transition matrix\<close>

lemma node_pos_nth: "distinct ns \<Longrightarrow> j < length ns \<Longrightarrow> node_pos ns (ns ! j) = Some j"
proof (induction ns arbitrary: j)
  case (Cons u ns)
  then show ?case by (cases j) auto
qed simp

lemma node_pos_Some: "v \<in> set ns \<Longrightarrow> \<exists>j. node_pos ns v = Some j"
  by (induction ns) auto

text \<open>The loop sets, or adds to, the entries of the targets and leaves the rest.\<close>

lemma fill_loop:
  assumes "t \<noteq> 0" "distinct ns"
  shows "distinct (map fst es) \<Longrightarrow> fst ` set es \<subseteq> set ns \<Longrightarrow> length row = length ns \<Longrightarrow>
    foldE (\<lambda>(v, d) row. case node_pos ns v of
        None \<Rightarrow> Inl KeyError
      | Some j \<Rightarrow> bindE (share weight t d) (\<lambda>q. Inr (row[j := upd (row ! j) q]))) es row
    = Inr (map (\<lambda>j. case map_of es (ns ! j) of
                      None \<Rightarrow> row ! j
                    | Some d \<Rightarrow> upd (row ! j) (of_int (edge_weight weight d) / of_int t)) [0..<length ns])"
proof (induction es arbitrary: row)
  case Nil
  then show ?case using map_nth [of row] by simp
next
  case (Cons e es)
  obtain v d where e: "e = (v, d)" by (cases e)
  then obtain j where j: "j < length ns" "ns ! j = v" using Cons.prems(2) by (auto simp: in_set_conv_nth)
  then have pos: "node_pos ns v = Some j" using node_pos_nth [OF assms(2)] by blast
  have no: "map_of es v = None" using Cons.prems(1) e by (auto simp: map_of_eq_None_iff)
  have same: "ns ! i = v \<longleftrightarrow> i = j" if "i < length ns" for i using nth_eq_iff_index_eq [OF assms(2) that j(1)] j(2) by simp
  let ?q = "of_int (edge_weight weight d) / of_int t" and ?row = "row[j := upd (row ! j) (of_int (edge_weight weight d) / of_int t)]"
  let ?f = "\<lambda>(v, d) row. case node_pos ns v of None \<Rightarrow> Inl KeyError
      | Some j \<Rightarrow> bindE (share weight t d) (\<lambda>q. Inr (row[j := upd (row ! j) q]))"
  have "foldE ?f (e # es) row = foldE ?f es ?row" using assms(1) by (simp add: e pos share_def)
  also have "\<dots> = Inr (map (\<lambda>i. case map_of es (ns ! i) of None \<Rightarrow> ?row ! i
      | Some d \<Rightarrow> upd (?row ! i) (of_int (edge_weight weight d) / of_int t)) [0..<length ns])"
    by (rule Cons.IH) (use Cons.prems in simp_all)
  also have "map (\<lambda>i. case map_of es (ns ! i) of None \<Rightarrow> ?row ! i
      | Some d \<Rightarrow> upd (?row ! i) (of_int (edge_weight weight d) / of_int t)) [0..<length ns]
    = map (\<lambda>i. case map_of (e # es) (ns ! i) of None \<Rightarrow> row ! i
      | Some d \<Rightarrow> upd (row ! i) (of_int (edge_weight weight d) / of_int t)) [0..<length ns]"
  proof (rule map_cong [OF refl])
    fix i assume "i \<in> set [0..<length ns]"
    then show "(case map_of es (ns ! i) of None \<Rightarrow> ?row ! i
        | Some d \<Rightarrow> upd (?row ! i) (of_int (edge_weight weight d) / of_int t))
      = (case map_of (e # es) (ns ! i) of None \<Rightarrow> row ! i
        | Some d \<Rightarrow> upd (row ! i) (of_int (edge_weight weight d) / of_int t))"
      using same [of i] no j Cons.prems(3) not_sym [of i j] by (cases "i = j") (auto simp: e split: option.splits)
  qed
  finally show ?case .
qed

lemma fill_row_spec:
  assumes "distinct ns" "distinct (map fst es)" "fst ` set es \<subseteq> set ns"
    and pos: "\<forall>(v, d) \<in> set es. 0 < edge_weight weight d" and upd: "upd 0 = id"
  shows "fill_row upd weight ns es
    = Inr (map (\<lambda>v. case map_of es v of None \<Rightarrow> 0
                     | Some d \<Rightarrow> of_int (edge_weight weight d) / of_int (out_total weight es)) ns)"
proof (cases "es = []")
  case False
  then have "0 < out_total weight es"
    unfolding out_total_def using pos by (cases es) (fastforce intro!: add_pos_nonneg sum_list_nonneg)+
  then have "out_total weight es \<noteq> 0" by simp
  then have "fill_row upd weight ns es = Inr (map (\<lambda>j. case map_of es (ns ! j) of None \<Rightarrow> replicate (length ns) 0 ! j
      | Some d \<Rightarrow> upd (replicate (length ns) 0 ! j) (of_int (edge_weight weight d) / of_int (out_total weight es))) [0..<length ns])"
    unfolding fill_row_def Let_def if_not_P [OF False] by (rule fill_loop [OF _ assms(1-3)]) simp
  also have "map (\<lambda>j. case map_of es (ns ! j) of None \<Rightarrow> replicate (length ns) 0 ! j
      | Some d \<Rightarrow> upd (replicate (length ns) 0 ! j) (of_int (edge_weight weight d) / of_int (out_total weight es))) [0..<length ns]
    = map (\<lambda>v. case map_of es v of None \<Rightarrow> 0
        | Some d \<Rightarrow> of_int (edge_weight weight d) / of_int (out_total weight es)) ns"
    by (rule nth_equalityI) (simp_all add: upd split: option.split)
  finally show ?thesis .
qed (simp add: fill_row_def map_replicate_const)


text \<open>A row of shares sums to one.\<close>

lemma share_row_sum:
  assumes "distinct ns" "distinct (map fst es)" "fst ` set es \<subseteq> set ns" "out_total weight es \<noteq> 0"
  shows "sum_list (map (\<lambda>v. case map_of es v of None \<Rightarrow> 0
           | Some d \<Rightarrow> of_int (edge_weight weight d) / of_int (out_total weight es)) ns) = (1 :: real)"
    (is "sum_list (map ?g ns) = 1")
proof -
  have "sum_list (map ?g ns) = (\<Sum>v \<in> set ns. ?g v)" using assms(1) by (simp add: sum_list_distinct_conv_sum_set)
  also have "\<dots> = (\<Sum>v \<in> fst ` set es. ?g v)"
    by (rule sum.mono_neutral_right) (use assms(3) in \<open>auto simp: map_of_eq_None_iff split: option.splits intro: rev_image_eqI dest: map_of_SomeD\<close>)
  also have "\<dots> = sum_list (map (\<lambda>p. ?g (fst p)) es)"
    using sum_list_distinct_conv_sum_set [OF assms(2), of ?g] by (simp add: comp_def)
  also have "map (\<lambda>p. ?g (fst p)) es = map (\<lambda>p. of_int (edge_weight weight (snd p)) / of_int (out_total weight es)) es"
    by (rule map_cong [OF refl]) (use assms(2) in \<open>auto simp: map_of_is_SomeI\<close>)
  also have "sum_list \<dots> = of_int (out_total weight es) / of_int (out_total weight es)"
  proof -
    have "sum_list (map (\<lambda>p. of_int (edge_weight weight (snd p)) / t) es) = of_int (out_total weight es) / (t :: real)" for t
      unfolding out_total_def by (induction es) (simp_all add: case_prod_beta add_divide_distrib)
    then show ?thesis .
  qed
  finally show ?thesis using assms(4) by simp
qed


text \<open>The matrix as a function: the shares of a node's out-edges, or uniform.\<close>

definition transition_row :: "digraph \<Rightarrow> string \<Rightarrow> string \<Rightarrow> real list" where
  "transition_row g weight u =
     (if out_edges g u = [] then uniform (length (nodes g))
      else map (\<lambda>v. case map_of (out_edges g u) v of None \<Rightarrow> 0
             | Some d \<Rightarrow> of_int (edge_weight weight d) / of_int (out_total weight (out_edges g u))) (nodes g))"

lemma out_total_pos:
  "es \<noteq> [] \<Longrightarrow> \<forall>(v, d) \<in> set es. 0 < edge_weight weight d \<Longrightarrow> 0 < out_total weight es"
  unfolding out_total_def by (cases es) (fastforce intro!: add_pos_nonneg sum_list_nonneg)+

lemma transition_row_prob:
  assumes "good_graph g" "positive_weights weight g" "u \<in> set (nodes g)"
  shows "prob_vector (length (nodes g)) (transition_row g weight u)"
proof (cases "out_edges g u = []")
  case True
  then show ?thesis using prob_vector_uniform [OF length_pos_if_in_set [OF assms(3)]] by (simp add: transition_row_def)
next
  case False
  have e: "distinct (nodes g)" "distinct (map fst (out_edges g u))" "fst ` set (out_edges g u) \<subseteq> set (nodes g)"
    "\<forall>(v, d) \<in> set (out_edges g u). 0 < edge_weight weight d"
    using assms by (auto simp: good_graph_def positive_weights_def)
  note t = out_total_pos [OF False e(4)]
  have "0 \<le> (case map_of (out_edges g u) v of None \<Rightarrow> 0
      | Some d \<Rightarrow> (of_int (edge_weight weight d) / of_int (out_total weight (out_edges g u)) :: real))" for v
    using e(4) t by (auto split: option.splits dest!: map_of_SomeD intro!: divide_nonneg_pos)
  moreover have "sum_list (transition_row g weight u) = 1"
    using share_row_sum [OF e(1-3)] t False by (simp add: transition_row_def)
  ultimately show ?thesis
    using False by (simp add: prob_vector_def sum_list_nth transition_row_def)
qed

lemma matrix_rows:
  assumes "good_graph g" "positive_weights weight g" and upd: "upd 0 = id"
  shows "bindE (mapE (\<lambda>u. fill_row upd weight (nodes g) (out_edges g u)) (nodes g)) (\<lambda>M. Inr (normalize_rows M))
    = Inr (map (transition_row g weight) (nodes g))"
proof -
  let ?raw = "\<lambda>u. map (\<lambda>v. case map_of (out_edges g u) v of None \<Rightarrow> 0
      | Some d \<Rightarrow> (of_int (edge_weight weight d) / of_int (out_total weight (out_edges g u)) :: real)) (nodes g)"
  have e: "distinct (nodes g)" "distinct (map fst (out_edges g u))" "fst ` set (out_edges g u) \<subseteq> set (nodes g)"
    "\<forall>(v, d) \<in> set (out_edges g u). 0 < edge_weight weight d" if "u \<in> set (nodes g)" for u
    using assms that by (auto simp: good_graph_def positive_weights_def)
  have "mapE (\<lambda>u. fill_row upd weight (nodes g) (out_edges g u)) (nodes g) = Inr (map ?raw (nodes g))"
    by (rule mapE_all) (rule fill_row_spec [where upd = upd, OF e upd])
  moreover have row: "(if sum_list (?raw u) = 0 then uniform (length (nodes g)) else ?raw u) = transition_row g weight u"
    if u: "u \<in> set (nodes g)" for u
  proof (cases "out_edges g u = []")
    case False
    then show ?thesis using share_row_sum [OF e(1) [OF u] e(2) [OF u] e(3) [OF u]] out_total_pos [OF False e(4) [OF u]]
      by (simp add: transition_row_def)
  qed (simp add: transition_row_def)
  have "normalize_rows (map ?raw (nodes g)) = map (transition_row g weight) (nodes g)"
    unfolding normalize_rows_def map_map by (rule map_cong [OF refl]) (simp only: comp_apply length_map row)
  ultimately show ?thesis by simp
qed

lemma matrix_stochastic:
  "good_graph g \<Longrightarrow> positive_weights weight g \<Longrightarrow> stochastic (length (nodes g)) (map (transition_row g weight) (nodes g))"
  by (simp add: stochastic_def transition_row_prob)

lemma personalization_prob:
  assumes "ns \<noteq> []" and "case pers of None \<Rightarrow> True | Some d \<Rightarrow> \<forall>(v, x) \<in> set d. 0 \<le> x"
  shows "prob_vector (length ns) (personalization_vector ns pers)"
proof (cases pers)
  case None
  then show ?thesis using assms(1) by (simp add: personalization_vector_def prob_vector_uniform)
next
  case (Some d)
  let ?p = "map (\<lambda>v. dget_or d v 0) ns"
  have p: "0 \<le> dget_or d v 0" for v
    using assms(2) Some by (auto simp: dget_or_def split: option.splits dest: map_of_SomeD)
  show ?thesis
  proof (cases "sum_list ?p > 0")
    case True
    then have "(\<Sum>i < length ns. dget_or d (ns ! i) 0 / sum_list ?p) = 1"
      by (simp add: sum_divide_distrib [symmetric] sum_list_nth)
    then show ?thesis using True p Some by (simp add: personalization_vector_def prob_vector_def Let_def)
  next
    case False
    then show ?thesis using assms(1) Some by (simp add: personalization_vector_def prob_vector_uniform Let_def)
  qed
qed

section \<open>Properties\<close>

text \<open>A graph of three hosts: a sends to b and c, b to a, c to nobody.\<close>

definition example_graph :: digraph where
  "example_graph = \<lparr>nodes = [''a'', ''b'', ''c''],
     out_edges = (\<lambda>u. if u = ''a'' then [(''b'', [(''packets'', 1)]), (''c'', [(''packets'', 3)])]
                      else if u = ''b'' then [(''a'', [(''packets'', 2)])] else []),
     total_degree = (\<lambda>w u. if u = ''a'' then 6 else 3), in_degree = (\<lambda>w u. if u = ''a'' then 2 else if u = ''b'' then 1 else 3),
     out_degree = (\<lambda>w u. if u = ''a'' then 4 else if u = ''b'' then 2 else 0)\<rparr>"

lemma example_graph_good:
  "good_graph example_graph" "positive_weights ''packets'' example_graph" "nodes example_graph = [''a'', ''b'', ''c'']"
  by (simp_all add: good_graph_def positive_weights_def example_graph_def edge_weight_def dget_or_def)

text \<open>C13: PageRank is a probability distribution.  On a graph with positive weights, for a damping factor
  in [0, 1], any tolerance and iteration limit and any non-negative personalisation, the power iteration
  returns one score for each node, in the graph's order; the scores are not negative and sum to one.\<close>

theorem pagerank_distribution:
  assumes "good_graph g" "positive_weights weight g" "nodes g \<noteq> []" "0 \<le> alpha" "alpha \<le> 1"
    and "case pers of None \<Rightarrow> True | Some d \<Rightarrow> \<forall>(v, x) \<in> set d. 0 \<le> x"
  shows "\<exists>r. pagerank_power_iteration g alpha weight max_iter tol pers = Inr r \<and> map fst r = nodes g
    \<and> (\<forall>(v, x) \<in> set r. 0 \<le> x) \<and> sum_list (map snd r) = 1"
proof -
  let ?n = "length (nodes g)" and ?M = "map (transition_row g weight) (nodes g)"
    and ?p = "personalization_vector (nodes g) pers"
  define x where "x = pagerank_loop max_iter alpha tol ?M ?p (uniform ?n)"
  have "pagerank_matrix g weight = Inr ?M"
    unfolding pagerank_matrix_def by (rule matrix_rows [OF assms(1,2)]) auto
  then have r: "pagerank_power_iteration g alpha weight max_iter tol pers = Inr (zip (nodes g) x)"
    using assms(3) by (simp add: pagerank_power_iteration_def x_def)
  have "prob_vector ?n x" unfolding x_def
    using prob_vector_uniform [of ?n] matrix_stochastic [OF assms(1,2)] personalization_prob [OF assms(3,6)] assms(3-5)
    by (intro pagerank_loop_prob) simp_all
  then show ?thesis unfolding r
    by (auto simp: prob_vector_def sum_list_nth set_zip)
qed

theorem pagerank_distribution_witness:
  "\<exists>r. pagerank_power_iteration example_graph (1 / 2) ''packets'' 3 0 (Some [(''a'', 1)]) = Inr r
     \<and> map fst r = [''a'', ''b'', ''c''] \<and> sum_list (map snd r) = 1"
  using pagerank_distribution [OF example_graph_good(1,2), of "1 / 2" "Some [(''a'', 1)]" 3 0] example_graph_good(3)
  by auto

text \<open>C6: PageRank converges.  With the defaults (damping 0.85, tolerance 1e-6, 100 iterations) the loop
  always leaves through its \<open>break\<close>: the result is one step away from a distribution at less than the
  tolerance from it, and lies within 6e-6 of every stationary distribution of the damped walk.\<close>

theorem pagerank_converges:
  assumes "good_graph g" "positive_weights weight g" "nodes g \<noteq> []"
    and "case pers of None \<Rightarrow> True | Some d \<Rightarrow> \<forall>(v, x) \<in> set d. 0 \<le> x"
  shows "\<exists>M y x. pagerank_matrix g weight = Inr M
    \<and> pagerank_power_iteration g default_alpha weight default_max_iter default_tol pers = Inr (zip (nodes g) x)
    \<and> prob_vector (length (nodes g)) y
    \<and> x = pagerank_step default_alpha M (personalization_vector (nodes g) pers) y \<and> l1_dist x y < default_tol
    \<and> (\<forall>z. prob_vector (length (nodes g)) z \<and> pagerank_step default_alpha M (personalization_vector (nodes g) pers) z = z
         \<longrightarrow> l1_dist x z \<le> 6 / 1000000)"
proof -
  let ?n = "length (nodes g)" and ?M = "map (transition_row g weight) (nodes g)"
    and ?p = "personalization_vector (nodes g) pers"
  let ?f = "pagerank_step default_alpha ?M ?p"
  have n: "0 < ?n" using assms(3) by simp
  note u = prob_vector_uniform [OF n] and S = matrix_stochastic [OF assms(1,2)] and p = personalization_prob [OF assms(3,4)]
  have a: "0 \<le> default_alpha" "default_alpha \<le> 1" by (simp_all add: default_alpha_def)
  have "pagerank_matrix g weight = Inr ?M"
    unfolding pagerank_matrix_def by (rule matrix_rows [OF assms(1,2)]) auto
  moreover have "l1_dist (?f (uniform ?n)) (uniform ?n) \<le> 2"
    by (rule l1_dist_prob [OF pagerank_step_prob [OF u S p a] u])
  moreover have "2 * default_alpha ^ 99 < default_tol"
    by (simp add: default_alpha_def default_tol_def power_divide)
  ultimately obtain y where y: "prob_vector ?n y" "pagerank_loop (Suc 99) default_alpha default_tol ?M ?p (uniform ?n) = ?f y"
    "l1_dist (?f y) y < default_tol"
    using pagerank_loop_short_step [OF u S p a] by blast
  note fy = pagerank_step_prob [OF y(1) S p a]
  have "l1_dist (?f y) z \<le> 6 / 1000000" if z: "prob_vector ?n z" "?f z = z" for z
  proof -
    have len: "length y = ?n" "length z = ?n" "length ?p = ?n" "length (?f y) = ?n"
      using y(1) z(1) p fy by (simp_all add: prob_vector_def)
    have "l1_dist (?f y) z \<le> default_alpha * l1_dist y z"
      using pagerank_step_contracts [OF len(1,2,3) S a(1)] z(2) by simp
    also have "l1_dist y z \<le> default_tol + l1_dist (?f y) z"
      using l1_dist_triangle [OF len(1,4,2)] y(3) l1_dist_sym [of y "?f y"] len by simp
    finally show ?thesis by (simp add: default_alpha_def default_tol_def)
  qed
  moreover have "pagerank_power_iteration g default_alpha weight default_max_iter default_tol pers = Inr (zip (nodes g) (?f y))"
    using assms(3) \<open>pagerank_matrix g weight = Inr ?M\<close> y(2)
    by (simp add: pagerank_power_iteration_def default_max_iter_def)
  ultimately show ?thesis using y \<open>pagerank_matrix g weight = Inr ?M\<close> by blast
qed


theorem pagerank_converges_witness:
  "\<exists>x. pagerank_power_iteration example_graph default_alpha ''packets'' default_max_iter default_tol None
     = Inr (zip [''a'', ''b'', ''c''] x)"
  using pagerank_converges [OF example_graph_good(1,2), of None] example_graph_good(3) by auto

text \<open>C32: the two transition matrices agree.  On a graph with positive weights the Markov matrix, which
  adds into its entries, is the matrix PageRank assigns; every row is a distribution, the row of a node
  without out-edges the uniform one, and each entry is the edge's share of the weight leaving the node.\<close>

theorem markov_matrix_agrees:
  assumes "good_graph g" "positive_weights weight g" "nodes g \<noteq> []"
  shows "\<exists>M. build_markov_matrix g weight = Inr (nodes g, M) \<and> pagerank_matrix g weight = Inr M
    \<and> stochastic (length (nodes g)) M
    \<and> (\<forall>i < length (nodes g). \<forall>j < length (nodes g). M ! i ! j =
         (let es = out_edges g (nodes g ! i) in
          if es = [] then 1 / real (length (nodes g))
          else case map_of es (nodes g ! j) of None \<Rightarrow> 0
             | Some d \<Rightarrow> of_int (edge_weight weight d) / of_int (out_total weight es)))"
proof -
  let ?M = "map (transition_row g weight) (nodes g)"
  have "bindE (mapE (\<lambda>u. fill_row (+) weight (nodes g) (out_edges g u)) (nodes g)) (\<lambda>M. Inr (normalize_rows M)) = Inr ?M"
    by (rule matrix_rows [OF assms(1,2)]) auto
  then have "build_markov_matrix g weight = Inr (nodes g, ?M)"
    using assms(3) by (auto simp: build_markov_matrix_def bindE_Inr_iff)
  moreover have "pagerank_matrix g weight = Inr ?M"
    unfolding pagerank_matrix_def by (rule matrix_rows [OF assms(1,2)]) auto
  moreover have "?M ! i ! j = (let es = out_edges g (nodes g ! i) in
        if es = [] then 1 / real (length (nodes g))
        else case map_of es (nodes g ! j) of None \<Rightarrow> 0
           | Some d \<Rightarrow> of_int (edge_weight weight d) / of_int (out_total weight es))"
    if "i < length (nodes g)" "j < length (nodes g)" for i j
    using that by (simp add: transition_row_def uniform_def Let_def)
  ultimately show ?thesis using matrix_stochastic [OF assms(1,2)] by blast
qed

theorem markov_matrix_agrees_witness:
  "\<exists>M. build_markov_matrix example_graph ''packets'' = Inr ([''a'', ''b'', ''c''], M) \<and> M ! 0 ! 2 = 3 / 4 \<and> M ! 2 ! 1 = 1 / 3"
proof -
  obtain M where M: "build_markov_matrix example_graph ''packets'' = Inr ([''a'', ''b'', ''c''], M)"
    "\<forall>i < length [''a'', ''b'', ''c'']. \<forall>j < length [''a'', ''b'', ''c'']. M ! i ! j = (let es = out_edges example_graph ([''a'', ''b'', ''c''] ! i) in
          if es = [] then 1 / real (length [''a'', ''b'', ''c''])
          else case map_of es ([''a'', ''b'', ''c''] ! j) of None \<Rightarrow> 0
             | Some d \<Rightarrow> of_int (edge_weight ''packets'' d) / of_int (out_total ''packets'' es))"
    using markov_matrix_agrees [OF example_graph_good(1,2)] unfolding example_graph_good(3) by blast
  have "M ! 0 ! 2 = 3 / 4" "M ! 2 ! 1 = 1 / 3"
    using M(2) [rule_format, of 0 2] M(2) [rule_format, of 2 1]
    by (simp_all add: example_graph_def edge_weight_def out_total_def dget_or_def Let_def)
  with M(1) show ?thesis by blast
qed

lemma fill_row_error:
  assumes "distinct ns" "fst ` set es \<subseteq> set ns" "fill_row upd weight ns es = Inl e"
  shows "e = ZeroDivisionError"
proof -
  have loop: "foldE (\<lambda>(v, d) row. case node_pos ns v of None \<Rightarrow> Inl KeyError
      | Some j \<Rightarrow> bindE (share weight t d) (\<lambda>q. Inr (row[j := upd (row ! j) q]))) fs row = Inl e
      \<Longrightarrow> fst ` set fs \<subseteq> set ns \<Longrightarrow> e = ZeroDivisionError" for t fs row
  proof (induction fs arbitrary: row)
    case (Cons f fs)
    obtain v d where f: "f = (v, d)" by (cases f)
    then have "v \<in> set ns" using Cons.prems(2) by simp
    then obtain j where j: "node_pos ns v = Some j" using node_pos_Some by blast
    then show ?case using Cons.IH Cons.prems by (cases "t = 0") (simp_all add: f j share_def)
  qed simp
  show ?thesis
  proof (cases "es = []")
    case False
    show ?thesis using assms(3) unfolding fill_row_def Let_def if_not_P [OF False] by (rule loop) (rule assms(2))
  qed (use assms(3) in \<open>simp add: fill_row_def\<close>)
qed

lemma fill_row_zero:
  assumes "distinct ns" "fst ` set es \<subseteq> set ns" "es \<noteq> []" "out_total weight es = 0"
  shows "fill_row upd weight ns es = Inl ZeroDivisionError"
proof -
  obtain v d fs where es: "es = (v, d) # fs" using assms(3) by (cases es) auto
  then have "v \<in> set ns" using assms(2) by simp
  then obtain j where j: "node_pos ns v = Some j" using node_pos_Some by blast
  show ?thesis using assms(4) unfolding fill_row_def es by (simp add: j share_def)
qed

lemma mapE_error:
  "x \<in> set xs \<Longrightarrow> f x = Inl e \<Longrightarrow> \<forall>y \<in> set xs. \<forall>e'. f y = Inl e' \<longrightarrow> e' = e \<Longrightarrow> mapE f xs = Inl e"
proof (induction xs)
  case (Cons y ys)
  show ?case
  proof (cases "f y")
    case (Inl e1)
    then have "e1 = e" using Cons.prems(3) by simp
    then show ?thesis using Inl by simp
  next
    case (Inr z)
    then have "x \<in> set ys" using Cons.prems(1,2) by auto
    moreover have "\<forall>y \<in> set ys. \<forall>e'. f y = Inl e' \<longrightarrow> e' = e" using Cons.prems(3) by (meson list.set_intros(2))
    ultimately have "mapE f ys = Inl e" using Cons.IH Cons.prems(2) by blast
    then show ?thesis using Inr by simp
  qed
qed simp

text \<open>weights that cancel.  If some node has out-edges whose weights sum to zero, as edges without
  packets do, PageRank and the Markov chain raise \<open>ZeroDivisionError\<close>.\<close>

theorem zero_weights_raise:
  assumes "good_graph g" "u \<in> set (nodes g)" "out_edges g u \<noteq> []" "out_total weight (out_edges g u) = 0"
  shows "pagerank_power_iteration g alpha weight max_iter tol pers = Inl ZeroDivisionError
    \<and> build_markov_matrix g weight = Inl ZeroDivisionError
    \<and> stationary_distribution g weight max_iter tol = Inl ZeroDivisionError
    \<and> (0 < k \<longrightarrow> markov_next_hop g u weight k = Inl ZeroDivisionError)"
proof -
  have ne: "nodes g \<noteq> []" using assms(2) by auto
  have e: "distinct (nodes g)" "fst ` set (out_edges g v) \<subseteq> set (nodes g)" if "v \<in> set (nodes g)" for v
    using assms(1) that by (auto simp: good_graph_def)
  have raw: "mapE (\<lambda>u. fill_row upd weight (nodes g) (out_edges g u)) (nodes g) = Inl ZeroDivisionError" for upd
    by (rule mapE_error [where x = u, OF assms(2)])
       (use fill_row_zero [OF e [OF assms(2)] assms(3,4)] fill_row_error e in blast)+
  have m: "build_markov_matrix g weight = Inl ZeroDivisionError"
    using raw [of "(+)"] ne by (simp add: build_markov_matrix_def)
  moreover have "pagerank_matrix g weight = Inl ZeroDivisionError"
    using raw [of "\<lambda>old q. q"] by (simp add: pagerank_matrix_def)
  moreover have "mapE (\<lambda>(v, d). bindE (share weight (out_total weight (out_edges g u)) d) (\<lambda>q. Inr (v, q))) (out_edges g u)
      = Inl ZeroDivisionError"
    using assms(3,4) by (cases "out_edges g u") (auto simp: share_def)
  ultimately show ?thesis using ne assms(2,3)
    by (simp add: pagerank_power_iteration_def stationary_distribution_def markov_next_hop_def Let_def)
qed

theorem zero_weights_raise_witness:
  "pagerank_power_iteration (example_graph\<lparr>out_edges := \<lambda>u. if u = ''b'' then [(''a'', [(''packets'', 0)])] else []\<rparr>)
     default_alpha ''packets'' 5 default_tol None = Inl ZeroDivisionError"
proof -
  let ?g = "example_graph\<lparr>out_edges := \<lambda>u. if u = ''b'' then [(''a'', [(''packets'', 0)])] else []\<rparr>"
  have "good_graph ?g" "''b'' \<in> set (nodes ?g)" "out_edges ?g ''b'' \<noteq> []" "out_total ''packets'' (out_edges ?g ''b'') = 0"
    by (simp_all add: good_graph_def example_graph_def out_total_def edge_weight_def dget_or_def)
  from zero_weights_raise [OF this] show ?thesis by blast
qed

text \<open>The heat map divides by the weight of all out-edges, also those to hosts it leaves out, and
  normalises only the rows that sum to zero: its rows need not sum to one.\<close>

lemma heatmap_not_stochastic:
  "markov_transition_heatmap example_graph 2 ''packets'' = Inr ([''a'', ''b''], [[0, 1 / 4], [1, 0]])"
proof -
  have "sort_desc (total_degree example_graph ''packets'') [''a'', ''b'', ''c''] = [''a'', ''b'', ''c'']"
    by (simp add: sort_desc_def example_graph_def)
  then have "top_nodes example_graph ''packets'' 2 = [''a'', ''b'']"
    by (simp add: top_nodes_def example_graph_good(3))
  then show ?thesis
    by (simp add: markov_transition_heatmap_def example_graph_good(3))
       (simp add: heatmap_row_def example_graph_def out_total_def edge_weight_def dget_or_def share_def normalize_rows_def)
qed


definition rows_between :: "string \<Rightarrow> string \<Rightarrow> edge_row list \<Rightarrow> edge_row list" where
  "rows_between u v edges = filter (\<lambda>e. er_src e = Some u \<and> er_dst e = Some v) edges"

definition or_zero :: "int option \<Rightarrow> int" where
  "or_zero x = (case x of None \<Rightarrow> 0 | Some k \<Rightarrow> k)"

lemma bump_get: "dget (bump k n d) j = (if j = k then Some (dget_or d k 0 + n) else dget d j)"
  by (simp add: bump_def)

text \<open>the communication graph adds up.  Over a graph that behaves as networkx documents, the graph
  built from edge records has the edge from \<open>u\<close> to \<open>v\<close> exactly when some record has these (non-empty)
  ends, and its packets and bytes are the sums over these records, missing values counting as zero.\<close>

theorem graph_totals:
  assumes ops: "good_ops G" and "u \<noteq> []" "v \<noteq> []"
  shows "(has_edge G (build_graph_from_edges G edges) u v \<longleftrightarrow> rows_between u v edges \<noteq> [])
    \<and> (rows_between u v edges \<noteq> [] \<longrightarrow>
         dget (edge_data G (build_graph_from_edges G edges) u v) ''packets''
           = Some (sum_list (map (\<lambda>e. or_zero (er_packets e)) (rows_between u v edges)))
       \<and> dget (edge_data G (build_graph_from_edges G edges) u v) ''bytes''
           = Some (sum_list (map (\<lambda>e. or_zero (er_bytes e)) (rows_between u v edges))))"
proof (induction edges rule: rev_induct)
  case Nil
  then show ?case using ops by (simp add: build_graph_from_edges_def rows_between_def good_ops_def)
next
  case (snoc e edges)
  let ?g = "build_graph_from_edges G edges"
  have step: "build_graph_from_edges G (edges @ [e]) = add_edge_row G e ?g" by (simp add: build_graph_from_edges_def)
  have other: "has_edge G (add_edge_row G e ?g) u v = has_edge G ?g u v \<and> edge_data G (add_edge_row G e ?g) u v = edge_data G ?g u v"
    if "\<not> (er_src e = Some u \<and> er_dst e = Some v)"
    using ops that unfolding good_ops_def add_edge_row_def Let_def by (auto split: option.splits)
  show ?case
  proof (cases "er_src e = Some u \<and> er_dst e = Some v")
    case False
    then have "rows_between u v (edges @ [e]) = rows_between u v edges" by (auto simp: rows_between_def)
    then show ?thesis using snoc other [OF False] by (simp add: step)
  next
    case True
    have row: "add_edge_row G e ?g = (if has_edge G ?g u v
        then set_edge_data G u v (bump ''bytes'' (or_zero (er_bytes e)) (bump ''packets'' (or_zero (er_packets e)) (edge_data G ?g u v))) ?g
        else add_edge G u v [(''packets'', or_zero (er_packets e)), (''bytes'', or_zero (er_bytes e))] ?g)"
      using True assms(2,3) by (simp add: add_edge_row_def or_zero_def)
    have rb: "rows_between u v (edges @ [e]) = rows_between u v edges @ [e]" using True by (simp add: rows_between_def)
    show ?thesis
    proof (cases "has_edge G ?g u v")
      case True
      then show ?thesis using snoc ops unfolding step row rb good_ops_def by (simp add: bump_get dget_or_def)
    next
      case False
      then show ?thesis using snoc ops unfolding step row rb good_ops_def by simp
    qed
  qed
qed

text \<open>A concrete graph store.\<close>

definition dict_ops :: "((string \<times> string), attrs) dict graph_ops" where
  "dict_ops = \<lparr>new_graph = [], has_edge = (\<lambda>g u v. dget g (u, v) \<noteq> None), edge_data = (\<lambda>g u v. dget_or g (u, v) []),
     set_edge_data = (\<lambda>u v. dset (u, v)), add_edge = (\<lambda>u v. dset (u, v))\<rparr>"

theorem graph_totals_witness:
  "dget (edge_data dict_ops (build_graph_from_edges dict_ops
      [\<lparr>er_src = Some ''a'', er_dst = Some ''b'', er_packets = Some 2, er_bytes = None\<rparr>,
       \<lparr>er_src = None, er_dst = Some ''b'', er_packets = Some 5, er_bytes = None\<rparr>,
       \<lparr>er_src = Some ''a'', er_dst = Some ''b'', er_packets = Some 3, er_bytes = Some 9\<rparr>]) ''a'' ''b'') ''packets'' = Some 5"
proof -
  have ops: "good_ops dict_ops" by (auto simp: good_ops_def dict_ops_def dget_or_def)
  show ?thesis
    using graph_totals [OF ops, of "''a''" "''b''" "[\<lparr>er_src = Some ''a'', er_dst = Some ''b'', er_packets = Some 2, er_bytes = None\<rparr>,
       \<lparr>er_src = None, er_dst = Some ''b'', er_packets = Some 5, er_bytes = None\<rparr>,
       \<lparr>er_src = Some ''a'', er_dst = Some ''b'', er_packets = Some 3, er_bytes = Some 9\<rparr>]"]
    by (simp add: rows_between_def or_zero_def)
qed

end
