(* ===== verification/App_Config.thy ===== *)
theory App_Config
  imports Pydate Prelude "HOL-Library.Sublist"
begin

text \<open>
  The configuration loader, \<open>common/config.py\<close>: environment overrides, validation of the required
  sections and the typed configuration.  The parsed YAML mapping, the process environment, the file
  system, \<open>json.loads\<close> and the text of an exception are parameters.
\<close>

section \<open>Values\<close>

text \<open>The fields of the configuration are annotated but not checked, so they hold any value.\<close>

datatype cfg_value =
    CNull
  | CBool bool
  | CInt int
  | CFloat pyfloat
  | CStr string
  | CList "cfg_value list"
  | CDict "(string \<times> cfg_value) list"

type_synonym cfg_dict = "(string, cfg_value) dict"

fun as_dict :: "cfg_value option \<Rightarrow> cfg_dict option" where
  "as_dict (Some (CDict d)) = Some d"
| "as_dict _ = None"

text \<open>\<open>list(v)\<close>\<close>

fun to_list :: "cfg_value \<Rightarrow> cfg_value list res" where
  "to_list (CList vs) = Inr vs"
| "to_list (CStr s) = Inr (map (\<lambda>c. CStr [c]) s)"
| "to_list (CDict d) = Inr (map CStr (dkeys d))"
| "to_list _ = Inl TypeError"

record capture_config =
  cc_iface :: cfg_value
  cc_rotate_seconds :: cfg_value
  cc_rotate_mb :: cfg_value
  cc_out_dir :: cfg_value
  cc_sink :: cfg_value

record flume_config =
  fc_tcp_host :: cfg_value
  fc_tcp_port :: cfg_value

record hdfs_config =
  hc_namenode_uri :: cfg_value
  hc_root :: cfg_value

record spark_config =
  sc_trigger_s :: cfg_value
  sc_watermark_s :: cfg_value
  sc_windows_s :: "cfg_value list"
  sc_slide_s :: cfg_value
  sc_max_files_per_trigger :: cfg_value
  sc_max_rows_per_batch :: cfg_value
  sc_checkpoint_root :: cfg_value
  sc_plugins_enabled :: "cfg_value list"
  sc_top_n_ports :: cfg_value
  sc_max_edges_per_window :: cfg_value
  sc_filters :: cfg_value
  sc_predicates :: cfg_value

record serving_config =
  sv_db_path :: cfg_value
  sv_cleanup_every_s :: cfg_value
  sv_retention_hours :: cfg_value

record graph_config =
  gc_lookback_s :: cfg_value
  gc_top_n_nodes :: cfg_value

record alerts_config =
  ac_rules_path :: cfg_value

record dashboard_config =
  dc_refresh_s :: cfg_value
  dc_timezone :: cfg_value
  dc_stale_after_s :: cfg_value

record itemsets_config =
  ic_window_s :: cfg_value
  ic_every_s :: cfg_value
  ic_min_support :: cfg_value
  ic_num_buckets :: cfg_value

record decay_config =
  dec_half_lives_s :: "cfg_value list"

record app_config =
  app_capture :: capture_config
  app_flume :: flume_config
  app_hdfs :: hdfs_config
  app_spark :: spark_config
  app_serving :: serving_config
  app_graph :: graph_config
  app_alerts :: alerts_config
  app_dashboard :: dashboard_config
  app_itemsets :: itemsets_config
  app_decay :: decay_config

definition required_sections :: "(string \<times> string list) list" where
  "required_sections =
     [(''capture'', [''iface'', ''rotate_seconds'', ''rotate_mb'', ''out_dir'', ''sink'']),
      (''flume'', [''tcp_host'', ''tcp_port'']),
      (''hdfs'', [''namenode_uri'', ''root'']),
      (''spark'', [''trigger_s'', ''watermark_s'', ''windows_s'', ''slide_s'', ''max_files_per_trigger'',
         ''max_rows_per_batch'', ''checkpoint_root'', ''plugins_enabled'', ''top_n_ports'', ''max_edges_per_window'']),
      (''serving'', [''db_path'', ''cleanup_every_s'', ''retention_hours'']),
      (''graph'', [''lookback_s'', ''top_n_nodes'']),
      (''alerts'', [''rules_path'']),
      (''dashboard'', [''refresh_s'', ''timezone'', ''stale_after_s'']),
      (''itemsets'', [''window_s'', ''every_s'', ''min_support'', ''num_buckets'']),
      (''decay'', [''half_lives_s''])]"

section \<open>Environment overrides\<close>

definition parse_env_value :: "(string \<Rightarrow> cfg_value option) \<Rightarrow> string \<Rightarrow> cfg_value" where
  "parse_env_value json_loads raw =
     (if lower raw \<in> {''true'', ''yes'', ''1''} then CBool True
      else if lower raw \<in> {''false'', ''no'', ''0''} then CBool False
      else case py_int raw of
        Some k \<Rightarrow> CInt k
      | None \<Rightarrow> (case py_float raw of
          Some x \<Rightarrow> CFloat x
        | None \<Rightarrow>
            if raw \<noteq> [] \<and> ((hd raw = CHR ''['' \<and> last raw = CHR '']'') \<or> (hd raw = CHR ''{'' \<and> last raw = CHR ''}''))
            then (case json_loads raw of Some v \<Rightarrow> v | None \<Rightarrow> CStr raw)
            else CStr raw))"

text \<open>\<open>key_body.split("__", 1)\<close>\<close>

fun split_dunder :: "string \<Rightarrow> (string \<times> string) option" where
  "split_dunder (c # d # cs) =
     (if c = CHR ''_'' \<and> d = CHR ''_'' then Some ([], cs)
      else map_option (\<lambda>(a, b). (c # a, b)) (split_dunder (d # cs)))"
| "split_dunder _ = None"

definition env_prefix :: string where "env_prefix = ''LNTA_''"

text \<open>The section and key an environment variable names.\<close>

definition env_target :: "string \<Rightarrow> (string \<times> string) option" where
  "env_target env_key =
     (if take (length env_prefix) env_key \<noteq> env_prefix then None
      else split_dunder (lower (drop (length env_prefix) env_key)))"

definition apply_override :: "(string \<Rightarrow> cfg_value option) \<Rightarrow> string \<times> string \<Rightarrow> cfg_dict \<Rightarrow> cfg_dict" where
  "apply_override json_loads = (\<lambda>(env_key, env_val) data.
     case env_target env_key of
       None \<Rightarrow> data
     | Some (section, key) \<Rightarrow>
         let sec = (case as_dict (dget data section) of None \<Rightarrow> [] | Some d \<Rightarrow> d)
         in dset section (CDict (dset key (parse_env_value json_loads env_val) sec)) data)"

definition apply_env_overrides :: "(string \<Rightarrow> cfg_value option) \<Rightarrow> (string \<times> string) list \<Rightarrow> cfg_dict \<Rightarrow> cfg_dict" where
  "apply_env_overrides json_loads environ data = fold (apply_override json_loads) environ data"

section \<open>Validation and loading\<close>

definition quoted :: "string \<Rightarrow> string" where
  "quoted s = [CHR 0x27] @ s @ [CHR 0x27]"

definition validate_section :: "cfg_dict \<Rightarrow> string \<Rightarrow> string list \<Rightarrow> unit res" where
  "validate_section data section required =
     (case as_dict (dget data section) of
        None \<Rightarrow> Inl (ConfigError (''Missing required config section: '' @ quoted section))
      | Some sec \<Rightarrow>
          foldE (\<lambda>key _. if dget sec key = None \<or> dget sec key = Some CNull
                         then Inl (ConfigError (''Missing required config key: '' @ quoted (section @ ''.'' @ key)))
                         else Inr ()) required ())"

text \<open>\<open>Class(**kwargs)\<close> of a dataclass with the given fields: an unknown or missing one is a \<open>TypeError\<close>.\<close>

definition dataclass_args :: "string list \<Rightarrow> cfg_dict \<Rightarrow> cfg_value list res" where
  "dataclass_args names kwargs =
     (if \<exists>k \<in> set (dkeys kwargs). k \<notin> set names then Inl TypeError
      else mapE (\<lambda>n. case dget kwargs n of None \<Rightarrow> Inl TypeError | Some v \<Rightarrow> Inr v) names)"

definition cfg_section :: "cfg_dict \<Rightarrow> string \<Rightarrow> cfg_dict res" where
  "cfg_section data section =
     (case dget data section of None \<Rightarrow> Inl KeyError | Some (CDict d) \<Rightarrow> Inr d | Some _ \<Rightarrow> Inl TypeError)"

definition section_args :: "cfg_dict \<Rightarrow> string \<Rightarrow> cfg_value list res" where
  "section_args data section =
     bindE (cfg_section data section) (dataclass_args (dget_or required_sections section []))"

definition build_spark :: "cfg_dict \<Rightarrow> spark_config res" where
  "build_spark d =
     bindE (dlookup d ''trigger_s'') (\<lambda>trigger. bindE (dlookup d ''watermark_s'') (\<lambda>watermark.
     bindE (bindE (dlookup d ''windows_s'') to_list) (\<lambda>windows. bindE (dlookup d ''slide_s'') (\<lambda>slide.
     bindE (dlookup d ''max_files_per_trigger'') (\<lambda>files. bindE (dlookup d ''max_rows_per_batch'') (\<lambda>rows.
     bindE (dlookup d ''checkpoint_root'') (\<lambda>root. bindE (bindE (dlookup d ''plugins_enabled'') to_list) (\<lambda>plugins.
     bindE (dlookup d ''top_n_ports'') (\<lambda>ports. bindE (dlookup d ''max_edges_per_window'') (\<lambda>edges.
     Inr \<lparr>sc_trigger_s = trigger, sc_watermark_s = watermark, sc_windows_s = windows, sc_slide_s = slide,
          sc_max_files_per_trigger = files, sc_max_rows_per_batch = rows, sc_checkpoint_root = root,
          sc_plugins_enabled = plugins, sc_top_n_ports = ports, sc_max_edges_per_window = edges,
          sc_filters = dget_or d ''filters'' (CList []), sc_predicates = dget_or d ''predicates'' (CList [])\<rparr>))))))))))"

definition build_config :: "cfg_dict \<Rightarrow> app_config res" where
  "build_config data =
     bindE (cfg_section data ''spark'') (\<lambda>spark.
     bindE (section_args data ''capture'') (\<lambda>ca. bindE (section_args data ''flume'') (\<lambda>fl.
     bindE (section_args data ''hdfs'') (\<lambda>hd. bindE (build_spark spark) (\<lambda>sp.
     bindE (section_args data ''serving'') (\<lambda>sv. bindE (section_args data ''graph'') (\<lambda>gr.
     bindE (section_args data ''alerts'') (\<lambda>al. bindE (section_args data ''dashboard'') (\<lambda>da.
     bindE (section_args data ''itemsets'') (\<lambda>it.
     bindE (bindE (bindE (cfg_section data ''decay'') (\<lambda>d. dlookup d ''half_lives_s'')) to_list) (\<lambda>de.
     Inr \<lparr>app_capture = \<lparr>cc_iface = ca ! 0, cc_rotate_seconds = ca ! 1, cc_rotate_mb = ca ! 2, cc_out_dir = ca ! 3,
                         cc_sink = ca ! 4\<rparr>,
          app_flume = \<lparr>fc_tcp_host = fl ! 0, fc_tcp_port = fl ! 1\<rparr>,
          app_hdfs = \<lparr>hc_namenode_uri = hd ! 0, hc_root = hd ! 1\<rparr>,
          app_spark = sp,
          app_serving = \<lparr>sv_db_path = sv ! 0, sv_cleanup_every_s = sv ! 1, sv_retention_hours = sv ! 2\<rparr>,
          app_graph = \<lparr>gc_lookback_s = gr ! 0, gc_top_n_nodes = gr ! 1\<rparr>,
          app_alerts = \<lparr>ac_rules_path = al ! 0\<rparr>,
          app_dashboard = \<lparr>dc_refresh_s = da ! 0, dc_timezone = da ! 1, dc_stale_after_s = da ! 2\<rparr>,
          app_itemsets = \<lparr>ic_window_s = it ! 0, ic_every_s = it ! 1, ic_min_support = it ! 2, ic_num_buckets = it ! 3\<rparr>,
          app_decay = \<lparr>dec_half_lives_s = de\<rparr>\<rparr>)))))))))))"

text \<open>The world the loader reads: which files exist, the value a YAML file holds (or the text of an error),
  the environment, and where the package lies.\<close>

record cfg_world =
  file_exists :: "string \<Rightarrow> bool"
  yaml_load :: "string \<Rightarrow> string + cfg_value"
  environ :: "(string \<times> string) list"
  package_root :: string

definition candidates :: "cfg_world \<Rightarrow> string list" where
  "candidates w =
     [''config/settings.yaml'', ''config/settings.example.yaml'',
      package_root w @ ''/config/settings.yaml'', package_root w @ ''/config/settings.example.yaml'']"

definition resolve_path :: "cfg_world \<Rightarrow> string option \<Rightarrow> string res" where
  "resolve_path w config_path =
     (case config_path of
        Some p \<Rightarrow> if file_exists w p then Inr p
                  else Inl (ConfigError (''Specified configuration file not found: '' @ p))
      | None \<Rightarrow> (case find (file_exists w) (candidates w) of
          Some p \<Rightarrow> Inr p
        | None \<Rightarrow> Inl (ConfigError ''Could not locate config/settings.yaml or config/settings.example.yaml'')))"

text \<open>\<open>yaml.safe_load(f) or {}\<close>: a falsy root is the empty mapping; another root is no mapping.\<close>

fun root_mapping :: "cfg_value \<Rightarrow> cfg_dict option" where
  "root_mapping (CDict d) = Some d"
| "root_mapping CNull = Some []"
| "root_mapping (CBool b) = (if b then None else Some [])"
| "root_mapping (CInt k) = (if k = 0 then Some [] else None)"
| "root_mapping (CFloat x) = (if x = Fin 0 then Some [] else None)"
| "root_mapping (CStr s) = (if s = [] then Some [] else None)"
| "root_mapping (CList vs) = (if vs = [] then Some [] else None)"

text \<open>A list, a text or a number instead of a mapping: indexing it with a section, or looking for one in a
  number, is a \<open>TypeError\<close> outside the \<open>try\<close>; a list or text without the first section is reported.\<close>

definition first_missing :: py_error where
  "first_missing = ConfigError (''Missing required config section: '' @ quoted ''capture'')"

definition other_root :: "cfg_world \<Rightarrow> cfg_value \<Rightarrow> py_error" where
  "other_root w v =
     (if \<exists>e \<in> set (environ w). env_target (fst e) \<noteq> None then TypeError
      else case v of
        CList vs \<Rightarrow> if CStr ''capture'' \<in> set vs then TypeError else first_missing
      | CStr s \<Rightarrow> if sublist ''capture'' s then TypeError else first_missing
      | _ \<Rightarrow> TypeError)"

definition load_config ::
  "(string \<Rightarrow> cfg_value option) \<Rightarrow> (py_error \<Rightarrow> string) \<Rightarrow> cfg_world \<Rightarrow> string option \<Rightarrow> app_config res" where
  "load_config json_loads exc w config_path =
     bindE (resolve_path w config_path) (\<lambda>path.
     case yaml_load w path of
       Inl e \<Rightarrow> Inl (ConfigError (''Failed to parse YAML file at '' @ path @ '': '' @ e))
     | Inr doc \<Rightarrow> (case root_mapping doc of
         None \<Rightarrow> Inl (other_root w doc)
       | Some raw_data \<Rightarrow>
         let data = apply_env_overrides json_loads (environ w) raw_data
         in bindE (foldE (\<lambda>(section, keys) _. validate_section data section keys) required_sections ()) (\<lambda>_.
            case build_config data of
              Inr cfg \<Rightarrow> Inr cfg
            | Inl e \<Rightarrow> if e = TypeError \<or> e = KeyError
                       then Inl (ConfigError (''Error mapping configuration to dataclasses: '' @ exc e)) else Inl e)))"

text \<open>\<open>get_config\<close>: the configuration and the cache.\<close>

definition get_config ::
  "(string \<Rightarrow> cfg_value option) \<Rightarrow> (py_error \<Rightarrow> string) \<Rightarrow> cfg_world \<Rightarrow> bool \<Rightarrow> app_config option \<Rightarrow>
     app_config res \<times> app_config option" where
  "get_config json_loads exc w reload cache =
     (case cache of
        Some cfg \<Rightarrow> if reload then (case load_config json_loads exc w None of
                      Inl e \<Rightarrow> (Inl e, cache) | Inr c \<Rightarrow> (Inr c, Some c)) else (Inr cfg, cache)
      | None \<Rightarrow> (case load_config json_loads exc w None of
                   Inl e \<Rightarrow> (Inl e, cache) | Inr c \<Rightarrow> (Inr c, Some c)))"


section \<open>Overrides\<close>

definition cfg_get :: "cfg_dict \<Rightarrow> string \<Rightarrow> string \<Rightarrow> cfg_value option" where
  "cfg_get data section key = Option.bind (as_dict (dget data section)) (\<lambda>d. dget d key)"

text \<open>The last variable of the environment that names a key.\<close>

definition override_of :: "(string \<times> string) list \<Rightarrow> string \<Rightarrow> string \<Rightarrow> string option" where
  "override_of env section key = map_option snd (find (\<lambda>(n, _). env_target n = Some (section, key)) (rev env))"

lemma apply_override_get:
  "cfg_get (apply_override jl (n, v) data) s k
     = (if env_target n = Some (s, k) then Some (parse_env_value jl v) else cfg_get data s k)"
  by (cases "as_dict (dget data s)")
     (auto simp: apply_override_def cfg_get_def Let_def split: option.splits)

lemma override_of_snoc:
  "override_of (env @ [(n, v)]) s k = (if env_target n = Some (s, k) then Some v else override_of env s k)"
  by (simp add: override_of_def)

text \<open>The configuration after the overrides: the last override of a key, or the file's value.\<close>

lemma apply_env_get:
  "cfg_get (apply_env_overrides jl env data) s k
     = (case override_of env s k of Some raw \<Rightarrow> Some (parse_env_value jl raw) | None \<Rightarrow> cfg_get data s k)"
proof (induction env rule: rev_induct)
  case Nil
  then show ?case by (simp add: apply_env_overrides_def override_of_def)
next
  case (snoc e env)
  obtain n v where e: "e = (n, v)" by (cases e)
  have "apply_env_overrides jl (env @ [e]) data = apply_override jl (n, v) (apply_env_overrides jl env data)"
    by (simp add: apply_env_overrides_def e)
  then show ?case using snoc by (simp add: apply_override_get override_of_snoc e)
qed

section \<open>What validation and mapping give\<close>

lemma validate_section_ok:
  "validate_section data s ks = Inr u \<Longrightarrow> k \<in> set ks \<Longrightarrow> \<exists>v. cfg_get data s k = Some v \<and> v \<noteq> CNull"
proof -
  assume v: "validate_section data s ks = Inr u" and k: "k \<in> set ks"
  then obtain d where d: "as_dict (dget data s) = Some d" by (auto simp: validate_section_def split: option.splits)
  have "foldE (\<lambda>key _. if dget d key = None \<or> dget d key = Some CNull then Inl (f key) else Inr ()) ks () = Inr u
      \<Longrightarrow> k \<in> set ks \<Longrightarrow> dget d k \<noteq> None \<and> dget d k \<noteq> Some CNull" for f :: "string \<Rightarrow> py_error"
    by (induction ks) (auto split: if_splits)
  then have "dget d k \<noteq> None \<and> dget d k \<noteq> Some CNull"
    using v k d by (simp add: validate_section_def)
  then show ?thesis using d by (auto simp: cfg_get_def)
qed

lemma validate_all_ok:
  "foldE (\<lambda>(section, keys) _. validate_section data section keys) secs () = Inr u \<Longrightarrow> (s, ks) \<in> set secs \<Longrightarrow>
     validate_section data s ks = Inr ()"
  by (induction secs) (auto simp: res_simps)

lemma mapE_nth: "mapE f xs = Inr ys \<Longrightarrow> i < length xs \<Longrightarrow> f (xs ! i) = Inr (ys ! i)"
proof (induction xs arbitrary: i ys)
  case (Cons x xs)
  then show ?case by (cases i) (auto simp: res_simps)
qed simp

lemma section_args_get:
  "section_args data s = Inr vs \<Longrightarrow> i < length (dget_or required_sections s []) \<Longrightarrow>
     cfg_get data s (dget_or required_sections s [] ! i) = Some (vs ! i)"
  unfolding section_args_def
  by (auto simp: cfg_section_def dataclass_args_def cfg_get_def res_simps
      split: option.splits cfg_value.splits if_splits dest!: mapE_nth)


text \<open>The fields of the configuration that are a value of the mapping, with its section and key; the lists
  of \<open>SparkConfig\<close> and \<open>DecayConfig\<close> are \<open>list\<close> of theirs.\<close>

definition plain_fields :: "app_config \<Rightarrow> (string \<times> string \<times> cfg_value) list" where
  "plain_fields c =
     (let ca = app_capture c; fl = app_flume c; hd = app_hdfs c; sp = app_spark c; sv = app_serving c; gr = app_graph c;
          da = app_dashboard c; it = app_itemsets c
      in [(''capture'', ''iface'', cc_iface ca), (''capture'', ''rotate_seconds'', cc_rotate_seconds ca),
          (''capture'', ''rotate_mb'', cc_rotate_mb ca), (''capture'', ''out_dir'', cc_out_dir ca),
          (''capture'', ''sink'', cc_sink ca), (''flume'', ''tcp_host'', fc_tcp_host fl), (''flume'', ''tcp_port'', fc_tcp_port fl),
          (''hdfs'', ''namenode_uri'', hc_namenode_uri hd), (''hdfs'', ''root'', hc_root hd),
          (''spark'', ''trigger_s'', sc_trigger_s sp), (''spark'', ''watermark_s'', sc_watermark_s sp),
          (''spark'', ''slide_s'', sc_slide_s sp), (''spark'', ''max_files_per_trigger'', sc_max_files_per_trigger sp),
          (''spark'', ''max_rows_per_batch'', sc_max_rows_per_batch sp), (''spark'', ''checkpoint_root'', sc_checkpoint_root sp),
          (''spark'', ''top_n_ports'', sc_top_n_ports sp), (''spark'', ''max_edges_per_window'', sc_max_edges_per_window sp),
          (''serving'', ''db_path'', sv_db_path sv), (''serving'', ''cleanup_every_s'', sv_cleanup_every_s sv),
          (''serving'', ''retention_hours'', sv_retention_hours sv), (''graph'', ''lookback_s'', gc_lookback_s gr),
          (''graph'', ''top_n_nodes'', gc_top_n_nodes gr), (''alerts'', ''rules_path'', ac_rules_path (app_alerts c)),
          (''dashboard'', ''refresh_s'', dc_refresh_s da), (''dashboard'', ''timezone'', dc_timezone da),
          (''dashboard'', ''stale_after_s'', dc_stale_after_s da), (''itemsets'', ''window_s'', ic_window_s it),
          (''itemsets'', ''every_s'', ic_every_s it), (''itemsets'', ''min_support'', ic_min_support it),
          (''itemsets'', ''num_buckets'', ic_num_buckets it)])"

lemma dlookup_iff: "dlookup d k = Inr v \<longleftrightarrow> dget d k = Some v"
  by (auto simp: dlookup_def split: option.splits)

lemma build_spark_get:
  assumes "build_spark d = Inr sp"
  shows "dget d ''trigger_s'' = Some (sc_trigger_s sp)" "dget d ''watermark_s'' = Some (sc_watermark_s sp)"
    "dget d ''slide_s'' = Some (sc_slide_s sp)" "dget d ''max_files_per_trigger'' = Some (sc_max_files_per_trigger sp)"
    "dget d ''max_rows_per_batch'' = Some (sc_max_rows_per_batch sp)" "dget d ''checkpoint_root'' = Some (sc_checkpoint_root sp)"
    "dget d ''top_n_ports'' = Some (sc_top_n_ports sp)" "dget d ''max_edges_per_window'' = Some (sc_max_edges_per_window sp)"
  using assms by (auto simp: build_spark_def res_simps dlookup_iff)

lemma build_config_get:
  assumes "build_config data = Inr cfg" and "(s, k, v) \<in> set (plain_fields cfg)"
  shows "cfg_get data s k = Some v"
proof -
  obtain d ca fl hd sp sv gr al da it where sec: "cfg_section data ''spark'' = Inr d"
    "section_args data ''capture'' = Inr ca" "section_args data ''flume'' = Inr fl" "section_args data ''hdfs'' = Inr hd"
    "build_spark d = Inr sp" "section_args data ''serving'' = Inr sv" "section_args data ''graph'' = Inr gr"
    "section_args data ''alerts'' = Inr al" "section_args data ''dashboard'' = Inr da" "section_args data ''itemsets'' = Inr it"
    and cfg: "plain_fields cfg
      = [(''capture'', ''iface'', ca ! 0), (''capture'', ''rotate_seconds'', ca ! 1),
          (''capture'', ''rotate_mb'', ca ! 2), (''capture'', ''out_dir'', ca ! 3),
          (''capture'', ''sink'', ca ! 4), (''flume'', ''tcp_host'', fl ! 0), (''flume'', ''tcp_port'', fl ! 1),
          (''hdfs'', ''namenode_uri'', hd ! 0), (''hdfs'', ''root'', hd ! 1),
          (''spark'', ''trigger_s'', sc_trigger_s sp), (''spark'', ''watermark_s'', sc_watermark_s sp),
          (''spark'', ''slide_s'', sc_slide_s sp), (''spark'', ''max_files_per_trigger'', sc_max_files_per_trigger sp),
          (''spark'', ''max_rows_per_batch'', sc_max_rows_per_batch sp), (''spark'', ''checkpoint_root'', sc_checkpoint_root sp),
          (''spark'', ''top_n_ports'', sc_top_n_ports sp), (''spark'', ''max_edges_per_window'', sc_max_edges_per_window sp),
          (''serving'', ''db_path'', sv ! 0), (''serving'', ''cleanup_every_s'', sv ! 1),
          (''serving'', ''retention_hours'', sv ! 2), (''graph'', ''lookback_s'', gr ! 0),
          (''graph'', ''top_n_nodes'', gr ! 1), (''alerts'', ''rules_path'', al ! 0),
          (''dashboard'', ''refresh_s'', da ! 0), (''dashboard'', ''timezone'', da ! 1),
          (''dashboard'', ''stale_after_s'', da ! 2), (''itemsets'', ''window_s'', it ! 0),
          (''itemsets'', ''every_s'', it ! 1), (''itemsets'', ''min_support'', it ! 2),
          (''itemsets'', ''num_buckets'', it ! 3)]"
    using assms(1) unfolding build_config_def bindE_Inr_iff
    by (elim exE conjE) (rule that, assumption+, simp add: plain_fields_def Let_def, drule sym, simp)
  have names: "dget_or required_sections ''capture'' [] = [''iface'', ''rotate_seconds'', ''rotate_mb'', ''out_dir'', ''sink'']"
    "dget_or required_sections ''flume'' [] = [''tcp_host'', ''tcp_port'']"
    "dget_or required_sections ''hdfs'' [] = [''namenode_uri'', ''root'']"
    "dget_or required_sections ''serving'' [] = [''db_path'', ''cleanup_every_s'', ''retention_hours'']"
    "dget_or required_sections ''graph'' [] = [''lookback_s'', ''top_n_nodes'']"
    "dget_or required_sections ''alerts'' [] = [''rules_path'']"
    "dget_or required_sections ''dashboard'' [] = [''refresh_s'', ''timezone'', ''stale_after_s'']"
    "dget_or required_sections ''itemsets'' [] = [''window_s'', ''every_s'', ''min_support'', ''num_buckets'']"
    by (simp_all add: required_sections_def dget_or_def)
  have args: "\<forall>i < length ns. cfg_get data s (ns ! i) = Some (xs ! i)"
    if "section_args data s = Inr xs" "dget_or required_sections s [] = ns" for s xs ns
    using section_args_get [OF that(1)] that(2) by blast
  have spark: "cfg_get data ''spark'' k = dget d k" for k
    using sec(1) by (auto simp: cfg_section_def cfg_get_def split: option.splits cfg_value.splits)
  note a = args [OF sec(2) names(1)] args [OF sec(3) names(2)] args [OF sec(4) names(3)] args [OF sec(6) names(4)]
    args [OF sec(7) names(5)] args [OF sec(8) names(6)] args [OF sec(9) names(7)] args [OF sec(10) names(8)]
  have "\<forall>(s, k, v) \<in> set (plain_fields cfg). cfg_get data s k = Some v"
    unfolding cfg using a build_spark_get [OF sec(5)] by (simp add: spark All_less_Suc numeral_eq_Suc)
  then show ?thesis using assms(2) by fastforce
qed


lemma load_config_parts:
  assumes "load_config jl exc w p = Inr cfg"
  obtains path doc raw where "resolve_path w p = Inr path" "yaml_load w path = Inr doc" "root_mapping doc = Some raw"
    "foldE (\<lambda>(section, keys) _. validate_section (apply_env_overrides jl (environ w) raw) section keys) required_sections () = Inr ()"
    "build_config (apply_env_overrides jl (environ w) raw) = Inr cfg"
proof -
  obtain path where path: "resolve_path w p = Inr path"
    using assms unfolding load_config_def bindE_Inr_iff by blast
  obtain doc where doc: "yaml_load w path = Inr doc"
    using assms unfolding load_config_def path by (cases "yaml_load w path") auto
  obtain raw where raw: "root_mapping doc = Some raw"
    using assms unfolding load_config_def path by (cases "root_mapping doc") (auto simp: doc)
  let ?d = "apply_env_overrides jl (environ w) raw"
  have run: "bindE (foldE (\<lambda>(section, keys) _. validate_section ?d section keys) required_sections ()) (\<lambda>_.
      case build_config ?d of Inr cfg \<Rightarrow> Inr cfg
      | Inl e \<Rightarrow> if e = TypeError \<or> e = KeyError
                 then Inl (ConfigError (''Error mapping configuration to dataclasses: '' @ exc e)) else Inl e) = Inr cfg"
    using assms unfolding load_config_def path by (simp add: doc raw Let_def)
  then have "foldE (\<lambda>(section, keys) _. validate_section ?d section keys) required_sections () = Inr ()"
    by (auto simp: bindE_Inr_iff)
  moreover have "build_config ?d = Inr cfg" using run by (auto simp: bindE_Inr_iff split: sum.splits if_splits)
  ultimately show ?thesis using that path doc raw by blast
qed

lemma plain_fields_required:
  "(s, k, v) \<in> set (plain_fields cfg) \<Longrightarrow> \<exists>ks. (s, ks) \<in> set required_sections \<and> k \<in> set ks"
proof -
  have "\<forall>(s, k, v) \<in> set (plain_fields cfg). \<exists>(s', ks) \<in> set required_sections. s' = s \<and> k \<in> set ks"
    by (simp add: plain_fields_def Let_def required_sections_def)
  then show "(s, k, v) \<in> set (plain_fields cfg) \<Longrightarrow> ?thesis" by fastforce
qed

section \<open>Properties\<close>

text \<open>C20: what a loaded configuration holds.  If loading succeeds, it read an existing file, and each of the
  thirty plain fields has a value that is not null: the one given by the last environment variable
  \<open>LNTA_<SECTION>__<KEY>\<close> that names it, cast from its text, or else the one of the file.\<close>

theorem load_config_sound:
  assumes "load_config jl exc w p = Inr cfg"
  shows "\<exists>path doc raw. file_exists w path \<and> yaml_load w path = Inr doc \<and> root_mapping doc = Some raw
    \<and> (\<forall>(s, k, v) \<in> set (plain_fields cfg). v \<noteq> CNull
         \<and> Some v = (case override_of (environ w) s k of Some text \<Rightarrow> Some (parse_env_value jl text) | None \<Rightarrow> cfg_get raw s k))"
proof -
  obtain path doc raw where l: "resolve_path w p = Inr path" "yaml_load w path = Inr doc" "root_mapping doc = Some raw"
    "foldE (\<lambda>(section, keys) _. validate_section (apply_env_overrides jl (environ w) raw) section keys) required_sections () = Inr ()"
    "build_config (apply_env_overrides jl (environ w) raw) = Inr cfg" using load_config_parts [OF assms] .
  have "file_exists w path"
    using l(1) by (auto simp: resolve_path_def find_Some_iff split: option.splits if_splits)
  moreover have "v \<noteq> CNull \<and> Some v = (case override_of (environ w) s k of Some text \<Rightarrow> Some (parse_env_value jl text)
      | None \<Rightarrow> cfg_get raw s k)" if f: "(s, k, v) \<in> set (plain_fields cfg)" for s k v
  proof -
    obtain ks where ks: "(s, ks) \<in> set required_sections" "k \<in> set ks" using plain_fields_required [OF f] by blast
    obtain x where "cfg_get (apply_env_overrides jl (environ w) raw) s k = Some x" "x \<noteq> CNull"
      using validate_section_ok [OF validate_all_ok [OF l(4) ks(1)] ks(2)] by blast
    moreover have "cfg_get (apply_env_overrides jl (environ w) raw) s k = Some v" by (rule build_config_get [OF l(5) f])
    ultimately show ?thesis by (simp add: apply_env_get)
  qed
  ultimately show ?thesis using l(2,3) by blast
qed

definition example_data :: cfg_dict where
  "example_data = map (\<lambda>(s, ks). (s, CDict (map (\<lambda>k. (k, CStr k)) ks))) required_sections"

definition example_world :: cfg_world where
  "example_world = \<lparr>file_exists = (\<lambda>p. p = ''config/settings.yaml''), yaml_load = (\<lambda>_. Inr (CDict example_data)),
     environ = [(''PATH'', ''x''), (''LNTA_SPARK__TRIGGER_S'', ''10'')], package_root = ''/app''\<rparr>"

lemma example_config:
  "\<exists>cfg. load_config (\<lambda>_. None) (\<lambda>_. []) example_world None = Inr cfg \<and> sc_trigger_s (app_spark cfg) = CInt 10"
proof -
  have "case load_config (\<lambda>_. None) (\<lambda>_. []) example_world None of
      Inr cfg \<Rightarrow> sc_trigger_s (app_spark cfg) = CInt 10 | Inl _ \<Rightarrow> False"
    by code_simp
  then show ?thesis by (auto split: sum.splits)
qed


theorem load_config_sound_witness:
  "\<exists>cfg. load_config (\<lambda>_. None) (\<lambda>_. []) example_world None = Inr cfg \<and> fc_tcp_port (app_flume cfg) \<noteq> CNull"
proof -
  obtain cfg where c: "load_config (\<lambda>_. None) (\<lambda>_. []) example_world None = Inr cfg" using example_config by blast
  have "(''flume'', ''tcp_port'', fc_tcp_port (app_flume cfg)) \<in> set (plain_fields cfg)"
    by (simp add: plain_fields_def Let_def)
  then show ?thesis using load_config_sound [OF c] c by blast
qed

lemma foldE_ConfigError:
  assumes "\<And>x s e. f x s = Inl e \<Longrightarrow> \<exists>m. e = ConfigError m"
  shows "foldE f xs s = Inl e \<Longrightarrow> \<exists>m. e = ConfigError m"
  by (induction xs arbitrary: s) (auto simp: bindE_Inl_iff dest: assms)

lemma validate_section_error: "validate_section data s ks = Inl e \<Longrightarrow> \<exists>m. e = ConfigError m"
  by (auto simp: validate_section_def split: option.splits if_splits dest!: foldE_ConfigError [rotated])

lemma mapE_error_of:
  assumes "\<And>x e. f x = Inl e \<Longrightarrow> P e"
  shows "mapE f xs = Inl e \<Longrightarrow> P e"
  by (induction xs) (auto simp: bindE_Inl_iff dest: assms)

lemma mapping_errors:
  "to_list v = Inl e \<Longrightarrow> e = TypeError" "dlookup d k = Inl e \<Longrightarrow> e = KeyError"
  "cfg_section data s = Inl e \<Longrightarrow> e = TypeError \<or> e = KeyError"
  "section_args data s = Inl e \<Longrightarrow> e = TypeError \<or> e = KeyError"
proof -
  show "to_list v = Inl e \<Longrightarrow> e = TypeError" by (cases v) auto
  show "dlookup d k = Inl e \<Longrightarrow> e = KeyError" by (auto simp: dlookup_def split: option.splits)
  show sec: "cfg_section data s = Inl e \<Longrightarrow> e = TypeError \<or> e = KeyError"
    by (auto simp: cfg_section_def split: option.splits cfg_value.splits)
  have "dataclass_args ns d = Inl x \<Longrightarrow> x = TypeError" for ns d x
  proof -
    assume x: "dataclass_args ns d = Inl x"
    have "mapE (\<lambda>n. case dget d n of None \<Rightarrow> Inl TypeError | Some v \<Rightarrow> Inr v) ns = Inl x \<Longrightarrow> x = TypeError"
      by (rule mapE_error_of [where P = "\<lambda>e. e = TypeError"]) (auto split: option.splits)
    then show ?thesis using x by (auto simp: dataclass_args_def split: if_splits)
  qed
  then show "section_args data s = Inl e \<Longrightarrow> e = TypeError \<or> e = KeyError"
    using sec unfolding section_args_def bindE_Inl_iff by blast
qed

definition maps_or_fails :: "'a res \<Rightarrow> bool" where
  "maps_or_fails m \<longleftrightarrow> (\<forall>e. m = Inl e \<longrightarrow> e = TypeError \<or> e = KeyError)"

lemma maps_or_fails_bind: "maps_or_fails m \<Longrightarrow> (\<And>x. maps_or_fails (f x)) \<Longrightarrow> maps_or_fails (bindE m f)"
  by (auto simp: maps_or_fails_def bindE_Inl_iff)

lemma maps_or_fails_parts:
  "maps_or_fails (Inr x)" "maps_or_fails (to_list v)" "maps_or_fails (dlookup d k)"
  "maps_or_fails (cfg_section data s)" "maps_or_fails (section_args data s)"
  unfolding maps_or_fails_def by (auto dest: mapping_errors)

lemma build_config_error: "build_config data = Inl e \<Longrightarrow> e = TypeError \<or> e = KeyError"
proof -
  have "maps_or_fails (build_spark d)" for d
    unfolding build_spark_def by (intro maps_or_fails_bind maps_or_fails_parts)
  then have "maps_or_fails (build_config data)"
    unfolding build_config_def by (intro maps_or_fails_bind maps_or_fails_parts)
  then show "build_config data = Inl e \<Longrightarrow> ?thesis" by (simp add: maps_or_fails_def)
qed

lemma other_root_error: "(\<exists>m. other_root w v = ConfigError m) \<or> other_root w v = TypeError"
  by (simp add: other_root_def first_missing_def split: cfg_value.splits)

lemma load_config_error:
  assumes e: "load_config jl exc w p = Inl e"
  shows "(\<exists>m. e = ConfigError m)
    \<or> (e = TypeError \<and> (\<exists>path doc. resolve_path w p = Inr path \<and> yaml_load w path = Inr doc \<and> root_mapping doc = None))"
proof (cases "resolve_path w p")
  case (Inl e')
  then show ?thesis using e by (auto simp: load_config_def resolve_path_def split: option.splits if_splits)
next
  case (Inr path)
  show ?thesis
  proof (cases "yaml_load w path")
    case (Inl a)
    then show ?thesis using e Inr by (auto simp: load_config_def)
  next
    case doc: (Inr doc)
    show ?thesis
    proof (cases "root_mapping doc")
      case None
      then show ?thesis using e Inr doc other_root_error [of w doc] by (auto simp: load_config_def)
    next
      case (Some raw)
      let ?d = "apply_env_overrides jl (environ w) raw"
      consider "foldE (\<lambda>(section, keys) _. validate_section ?d section keys) required_sections () = Inl e"
        | e' where "build_config ?d = Inl e'" "e = ConfigError (''Error mapping configuration to dataclasses: '' @ exc e')"
        using e Inr doc Some build_config_error [of ?d]
        by (auto simp: load_config_def Let_def bindE_Inl_iff split: sum.splits if_splits)
      then have "\<exists>m. e = ConfigError m"
      proof cases
        case 1
        then show ?thesis by (rule foldE_ConfigError [rotated]) (auto dest: validate_section_error)
      qed simp
      then show ?thesis by blast
    qed
  qed
qed

text \<open>C33: how loading fails.  Whatever the files, their contents and the environment are, loading fails with
  a \<open>ConfigError\<close>, except that a YAML file whose root is neither a mapping nor falsy may end in a
  \<open>TypeError\<close>; a required key that is absent or null after the overrides makes it fail.\<close>

theorem load_config_errors:
  "(\<forall>e. load_config jl exc w p = Inl e \<longrightarrow> (\<exists>m. e = ConfigError m)
       \<or> (e = TypeError \<and> (\<exists>path doc. resolve_path w p = Inr path \<and> yaml_load w path = Inr doc \<and> root_mapping doc = None)))
   \<and> (resolve_path w p = Inr path \<and> yaml_load w path = Inr doc \<and> root_mapping doc = Some raw
        \<and> (s, ks) \<in> set required_sections \<and> k \<in> set ks
        \<and> cfg_get (apply_env_overrides jl (environ w) raw) s k \<in> {None, Some CNull}
      \<longrightarrow> (\<exists>m. load_config jl exc w p = Inl (ConfigError m)))"
proof -
  have "\<exists>m. load_config jl exc w p = Inl (ConfigError m)"
    if "resolve_path w p = Inr path" "yaml_load w path = Inr doc" "root_mapping doc = Some raw"
      "(s, ks) \<in> set required_sections" "k \<in> set ks"
      "cfg_get (apply_env_overrides jl (environ w) raw) s k \<in> {None, Some CNull}"
  proof (cases "load_config jl exc w p")
    case (Inr cfg)
    obtain path' doc' raw' where l: "resolve_path w p = Inr path'" "yaml_load w path' = Inr doc'" "root_mapping doc' = Some raw'"
      "foldE (\<lambda>(section, keys) _. validate_section (apply_env_overrides jl (environ w) raw') section keys) required_sections () = Inr ()"
      using load_config_parts [OF Inr] by metis
    then have "raw' = raw" using that(1-3) by simp
    then show ?thesis using validate_section_ok [OF validate_all_ok [OF l(4) that(4)] that(5)] that(6) by auto
  next
    case (Inl e)
    then show ?thesis using load_config_error [OF Inl] that(1-3) by auto
  qed
  then show ?thesis using load_config_error by blast
qed

theorem load_config_errors_witness:
  "\<exists>m. load_config (\<lambda>_. None) (\<lambda>_. []) (example_world\<lparr>environ := [], yaml_load := \<lambda>_. Inr CNull\<rparr>) None = Inl (ConfigError m)"
proof -
  let ?w = "example_world\<lparr>environ := [], yaml_load := \<lambda>_. Inr CNull\<rparr>"
  have "resolve_path ?w None = Inr ''config/settings.yaml''"
    by (simp add: resolve_path_def candidates_def example_world_def)
  moreover have "(''decay'', [''half_lives_s'']) \<in> set required_sections" by (simp add: required_sections_def)
  ultimately show ?thesis
    using load_config_errors [of "\<lambda>_. None" "\<lambda>_. []" ?w None "''config/settings.yaml''" CNull "[]" "''decay''" "[''half_lives_s'']" "''half_lives_s''"]
    by (simp add: apply_env_overrides_def cfg_get_def)
qed

text \<open>The cache: after a success the configuration is not read again unless asked to.\<close>

lemma get_config_cached:
  assumes "get_config jl exc w reload cache = (Inr cfg, cache')"
  shows "cache' = Some cfg \<and> get_config jl exc w' False cache' = (Inr cfg, cache')"
  using assms by (auto simp: get_config_def split: option.splits if_splits sum.splits)

text \<open>A 1 or 0 in the environment becomes a truth value, not the integer.\<close>

lemma parse_env_one: "parse_env_value jl ''1'' = CBool True \<and> parse_env_value jl ''0'' = CBool False"
proof -
  have "lower ''1'' = ''1''" "lower ''0'' = ''0''" by code_simp+
  then show ?thesis by (simp add: parse_env_value_def)
qed

text \<open>A file whose root is a list of the section names escapes as a \<open>TypeError\<close>.\<close>

lemma list_root_raises:
  "load_config jl exc (example_world\<lparr>environ := [], yaml_load := \<lambda>_. Inr (CList [CStr ''capture''])\<rparr>) None = Inl TypeError"
  by (simp add: load_config_def resolve_path_def candidates_def example_world_def other_root_def)

end
