(* ===== verification/Generate.thy ===== *)
theory Generate
  imports Capture_Parser "HOL-Library.Multiset"
begin

text \<open>
  The synthetic traffic generator, \<open>capture/generate.py\<close>: the scenarios, the pacing loop and the ground
  truth.  Python's generator \<open>random.Random\<close> is the parameter \<open>rng_ops\<close> with its state threaded;
  \<open>good_rng\<close> is its documented contract.
\<close>

section \<open>The random generator\<close>

record 'g rng_ops =
  expovariate :: "real \<Rightarrow> 'g \<Rightarrow> real \<times> 'g"
  random01 :: "'g \<Rightarrow> real \<times> 'g"
  rand_int :: "int \<Rightarrow> int \<Rightarrow> 'g \<Rightarrow> int \<times> 'g"
  choose_index :: "nat \<Rightarrow> 'g \<Rightarrow> nat \<times> 'g"
  shuffled :: "int list \<Rightarrow> 'g \<Rightarrow> int list \<times> 'g"

definition good_rng :: "'g rng_ops \<Rightarrow> bool" where
  "good_rng R \<longleftrightarrow>
     (\<forall>g a b. a \<le> b \<longrightarrow> a \<le> fst (rand_int R a b g) \<and> fst (rand_int R a b g) \<le> b)
     \<and> (\<forall>g n. 0 < n \<longrightarrow> fst (choose_index R n g) < n)
     \<and> (\<forall>g xs. mset (fst (shuffled R xs g)) = mset xs)"

text \<open>\<open>rng.choice(xs)\<close>\<close>

definition choice :: "'g rng_ops \<Rightarrow> 'a list \<Rightarrow> 'g \<Rightarrow> 'a \<times> 'g" where
  "choice R xs g = (case choose_index R (length xs) g of (i, g1) \<Rightarrow> (xs ! i, g1))"

section \<open>Times and hosts\<close>

definition format_ts :: "real \<Rightarrow> string res" where
  "format_ts epoch =
     bindE (from_timestamp epoch) (\<lambda>t.
       let millis = py_trunc ((epoch - of_int (py_trunc epoch)) * 1000);
           clamped = (if millis < 0 then 0 else if millis > 999 then 999 else millis)
       in Inr (strftime_seconds t @ ''.'' @ pad 3 clamped))"

text \<open>\<open>strftime("%Y-%m-%dT%H:%M:%S.000Z")\<close> of the start of the ten-second window.\<close>

definition window_key_10s :: "real \<Rightarrow> string res" where
  "window_key_10s epoch =
     bindE (from_timestamp (of_int \<lfloor>epoch / 10\<rfloor> * 10)) (\<lambda>t.
       Inr (int_str (dt_year t) @ ''-'' @ pad 2 (dt_month t) @ ''-'' @ pad 2 (dt_day t) @ ''T''
         @ pad 2 (dt_hour t) @ '':'' @ pad 2 (dt_minute t) @ '':'' @ pad 2 (dt_second t) @ ''.000Z''))"

datatype scenario = Normal | Spike | PortscanLike | Fanout | DnsHeavy | MultiHostGraph

definition lan_clients :: "string list" where "lan_clients = [''192.168.1.10'', ''192.168.1.15'', ''192.168.1.20'']"
definition servers_web :: "string list" where
  "servers_web = [''198.51.100.10'', ''198.51.100.20'', ''203.0.113.5'', ''203.0.113.50'']"
definition dns_servers :: "string list" where "dns_servers = [''192.168.1.1'', ''198.51.100.53'']"

definition lan_macs :: "(string, string) dict" where
  "lan_macs = [(''192.168.1.10'', ''00:11:22:33:44:01''), (''192.168.1.15'', ''00:11:22:33:44:02''),
     (''192.168.1.20'', ''00:11:22:33:44:03''), (''192.168.1.1'', ''00:11:22:33:44:fe''), (''192.168.1.99'', ''00:11:22:33:44:99'')]"

definition router_mac :: string where "router_mac = ''00:11:22:33:44:fe''"

text \<open>The toy graph with its nodes put in: source, destination (address and MAC), port and protocol.\<close>

definition graph_nodes :: "(string, string \<times> string) dict" where
  "graph_nodes = [(''A'', (''10.0.0.1'', ''02:00:00:00:00:01'')), (''B'', (''10.0.0.2'', ''02:00:00:00:00:02'')),
     (''C'', (''10.0.0.3'', ''02:00:00:00:00:03'')), (''D'', (''10.0.0.4'', ''02:00:00:00:00:04''))]"

definition graph_edges :: "(string \<times> string \<times> int \<times> string) list" where
  "graph_edges = [(''A'', ''B'', 443, ''TCP''), (''A'', ''C'', 80, ''TCP''), (''C'', ''B'', 443, ''TCP''), (''D'', ''B'', 53, ''UDP'')]"

definition fanout_ips :: "string list" where
  "fanout_ips = map (\<lambda>i. ''198.51.100.'' @ int_str (int i)) [1..<100]"

section \<open>Packets\<close>

definition packet :: "string \<Rightarrow> real \<Rightarrow> string \<Rightarrow> string \<Rightarrow> int option \<Rightarrow> int option \<Rightarrow> string \<Rightarrow> int \<Rightarrow>
    string \<Rightarrow> string \<Rightarrow> string option \<Rightarrow> capture_record" where
  "packet ts iat src dst sp dp proto len smac dmac flags =
     \<lparr>cr_timestamp = ts, cr_src_ip = src, cr_dst_ip = dst, cr_src_port = sp, cr_dst_port = dp, cr_protocol = proto,
      cr_packet_length = len, cr_src_mac = Some smac, cr_dst_mac = Some dmac, cr_tcp_flags = flags,
      cr_iat_ms = Some (Fin (py_round iat 3))\<rparr>"

definition graph_packet :: "'g rng_ops \<Rightarrow> string \<Rightarrow> real \<Rightarrow> 'g \<Rightarrow> capture_record \<times> 'g" where
  "graph_packet R ts iat g =
     (let ((src_lbl, dst_lbl, dst_p, proto), g1) = choice R graph_edges g;
          (src_ip, src_mac) = dget_or graph_nodes src_lbl ([], []);
          (dst_ip, dst_mac) = dget_or graph_nodes dst_lbl ([], []);
          (src_p, g2) = rand_int R 49152 65535 g1;
          flags = (if proto = ''TCP'' then Some ''0x0018'' else None);
          (len, g3) = choice R [64, 128, 512, 1024, 1420] g2;
          (roll, g4) = random01 R g3
      in if roll < 35 / 100
         then (packet ts iat dst_ip src_ip (Some dst_p) (Some src_p) proto len dst_mac src_mac flags, g4)
         else (packet ts iat src_ip dst_ip (Some src_p) (Some dst_p) proto len src_mac dst_mac flags, g4))"

definition scan_packet :: "'g rng_ops \<Rightarrow> string \<Rightarrow> real \<Rightarrow> int \<Rightarrow> 'g \<Rightarrow> capture_record \<times> 'g" where
  "scan_packet R ts iat port g =
     (let (src_p, g1) = rand_int R 40000 60000 g
      in (packet ts iat ''192.168.1.99'' ''198.51.100.20'' (Some src_p) (Some port) ''TCP'' 60
            (dget_or lan_macs ''192.168.1.99'' []) router_mac (Some ''0x0002''), g1))"

definition fanout_packet :: "'g rng_ops \<Rightarrow> string \<Rightarrow> real \<Rightarrow> string \<Rightarrow> 'g \<Rightarrow> capture_record \<times> 'g" where
  "fanout_packet R ts iat dst g =
     (let (src_p, g1) = rand_int R 40000 60000 g
      in (packet ts iat ''192.168.1.10'' dst (Some src_p) (Some 443) ''TCP'' 64
            (dget_or lan_macs ''192.168.1.10'' []) router_mac (Some ''0x0002''), g1))"

text \<open>The mixed scenarios: DNS, ICMP or web, and the reply in the other direction.\<close>

definition dns_fields where
  "dns_fields R client g =
     (let (dst, g1) = choice R dns_servers g; (sp, g2) = rand_int R 49152 65535 g1; (len, g3) = rand_int R 60 140 g2
      in ((client, dst, Some sp, Some (53 :: int), ''UDP'', len, None :: string option), g3))"

definition icmp_fields where
  "icmp_fields R client g =
     (let (len, g1) = choice R [64, 84] g
      in ((client, ''198.51.100.1'', None :: int option, None :: int option, ''ICMP'', len :: int, None :: string option), g1))"

definition web_fields where
  "web_fields R client g =
     (let (dst, g1) = choice R servers_web g; (sp, g2) = rand_int R 40000 65000 g1; (roll, g3) = random01 R g2;
          (len, g4) = choice R [64, 128, 512, 1024, 1420, 1500] g3;
          (flags, g5) = choice R [''0x0018'', ''0x0010'', ''0x0002''] g4
      in ((client, dst, Some sp, Some (if roll < 8 / 10 then 443 else 80 :: int), ''TCP'', len :: int, Some flags), g5))"

definition mixed_packet :: "'g rng_ops \<Rightarrow> scenario \<Rightarrow> string \<Rightarrow> real \<Rightarrow> 'g \<Rightarrow> capture_record \<times> 'g" where
  "mixed_packet R sc ts iat g =
     (let (p_roll, g1) = random01 R g;
          is_dns = (if sc = DnsHeavy then p_roll < 85 / 100 else p_roll < 15 / 100);
          is_web = (\<not> is_dns \<and> p_roll < 95 / 100);
          is_icmp = (\<not> is_dns \<and> \<not> is_web);
          (client, g2) = choice R lan_clients g1;
          client_mac = dget_or lan_macs client ''00:11:22:33:44:00'';
          ((src, dst, sp, dp, proto, len, flags), g3) =
            (if is_dns then dns_fields R client g2 else if is_icmp then icmp_fields R client g2 else web_fields R client g2);
          (back, g4) = random01 R g3
      in if back < 4 / 10 \<and> (proto = ''TCP'' \<or> proto = ''UDP'')
         then (packet ts iat dst src dp sp proto len router_mac client_mac flags, g4)
         else (packet ts iat src dst sp dp proto len client_mac router_mac flags, g4))"

section \<open>The loop\<close>

record 'g gen_state =
  gs_rng :: 'g
  gs_time :: real
  gs_last :: real
  gs_portscan_idx :: nat
  gs_fanout_idx :: nat
  gs_records :: "capture_record list"

text \<open>The packet of one turn, with the state after it.\<close>

definition emit :: "'g rng_ops \<Rightarrow> scenario \<Rightarrow> int list \<Rightarrow> string \<Rightarrow> real \<Rightarrow> 'g gen_state \<Rightarrow> 'g gen_state" where
  "emit R sc ports ts iat st =
     (case (case sc of
              MultiHostGraph \<Rightarrow> (graph_packet R ts iat (gs_rng st), st)
            | PortscanLike \<Rightarrow> (scan_packet R ts iat (ports ! (gs_portscan_idx st mod length ports)) (gs_rng st),
                               st\<lparr>gs_portscan_idx := gs_portscan_idx st + 1\<rparr>)
            | Fanout \<Rightarrow> (fanout_packet R ts iat (fanout_ips ! (gs_fanout_idx st mod length fanout_ips)) (gs_rng st),
                         st\<lparr>gs_fanout_idx := gs_fanout_idx st + 1\<rparr>)
            | _ \<Rightarrow> (mixed_packet R sc ts iat (gs_rng st), st)) of
       ((r, g), st1) \<Rightarrow> st1\<lparr>gs_rng := g, gs_records := gs_records st1 @ [r]\<rparr>)"

definition effective_rate :: "scenario \<Rightarrow> real \<Rightarrow> real \<Rightarrow> real \<Rightarrow> real" where
  "effective_rate sc rate elapsed duration = (if sc = Spike \<and> elapsed \<ge> 2 / 3 * duration then rate * 4 else rate)"

text \<open>The advance of the clock: the drawn gap, bounded below and above.\<close>

definition advance :: "'g rng_ops \<Rightarrow> real \<Rightarrow> 'g gen_state \<Rightarrow> 'g gen_state" where
  "advance R rate st =
     (let (gap, g) = (if rate > 0 then expovariate R rate (gs_rng st) else (5 / 100, gs_rng st))
      in st\<lparr>gs_rng := g, gs_time := gs_time st + max (1 / 1000) (min gap 1)\<rparr>)"

lemma advance_time: "gs_time st + 1 / 1000 \<le> gs_time (advance R rate st)"
  by (simp add: advance_def split: prod.splits)

lemma emit_time [simp]: "gs_time (emit R sc ports ts iat st) = gs_time st" "gs_last (emit R sc ports ts iat st) = gs_last st"
  by (auto simp: emit_def split: scenario.splits prod.splits)

text \<open>\<open>while current_time < end_time\<close>\<close>

function generate_loop ::
  "'g rng_ops \<Rightarrow> scenario \<Rightarrow> int list \<Rightarrow> real \<Rightarrow> real \<Rightarrow> real \<Rightarrow> 'g gen_state \<Rightarrow> capture_record list res" where
  "generate_loop R sc ports base duration rate st =
     (if \<not> gs_time st < base + duration then Inr (gs_records st)
      else let st1 = advance R (effective_rate sc rate (gs_time st - base) duration) st
           in if gs_time st1 \<ge> base + duration then Inr (gs_records st1)
              else let iat = (if gs_records st1 \<noteq> [] then (gs_time st1 - gs_last st1) * 1000 else 0)
                   in case format_ts (gs_time st1) of
                        Inl e \<Rightarrow> Inl e
                      | Inr ts \<Rightarrow> generate_loop R sc ports base duration rate
                                   (emit R sc ports ts iat (st1\<lparr>gs_last := gs_time st1\<rparr>)))"
  by pat_completeness auto

termination
proof (relation "measure (\<lambda>(R, sc, ports, base, duration, rate, st). nat \<lceil>(base + duration - gs_time st) * 1000\<rceil>)")
  fix R :: "'g rng_ops" and sc ports and base duration rate :: real and st x xa ts
  assume st: "\<not> \<not> gs_time st < base + duration"
    and x: "x = advance R (effective_rate sc rate (gs_time st - base) duration) st"
  have "(base + duration - gs_time x) * 1000 \<le> (base + duration - gs_time st) * 1000 - 1"
    using advance_time [of st R "effective_rate sc rate (gs_time st - base) duration"] unfolding x by (simp add: field_simps)
  then have "\<lceil>(base + duration - gs_time x) * 1000\<rceil> \<le> \<lceil>(base + duration - gs_time st) * 1000\<rceil> - 1"
    by linarith
  moreover have "0 < \<lceil>(base + duration - gs_time st) * 1000\<rceil>" using st by simp
  ultimately show "((R, sc, ports, base, duration, rate, emit R sc ports ts xa (x\<lparr>gs_last := gs_time x\<rparr>)),
      R, sc, ports, base, duration, rate, st)
    \<in> measure (\<lambda>(R, sc, ports, base, duration, rate, st). nat \<lceil>(base + duration - gs_time st) * 1000\<rceil>)"
    by simp
qed simp

declare generate_loop.simps [simp del]

text \<open>\<open>generate_records\<close>: the ports of the scan are shuffled first, whatever the scenario.\<close>

definition generate_records ::
  "'g rng_ops \<Rightarrow> scenario \<Rightarrow> real \<Rightarrow> real \<Rightarrow> 'g \<Rightarrow> real \<Rightarrow> capture_record list res" where
  "generate_records R sc duration rate seed base =
     (case shuffled R (map int [20..<100]) seed of (ports, g) \<Rightarrow>
        generate_loop R sc ports base duration rate
          \<lparr>gs_rng = g, gs_time = base, gs_last = base, gs_portscan_idx = 0, gs_fanout_idx = 0, gs_records = []\<rparr>)"

section \<open>The ground truth\<close>

record truth =
  tr_packets :: int
  tr_bytes :: int
  tr_unique_src_ips :: int
  tr_unique_dst_ips :: int
  tr_unique_ports :: int
  tr_protocol_counts :: "(string, int) dict"
  tr_mean :: real
  tr_variance_population :: real
  tr_variance_sample :: real
  tr_windows :: "(string, int) dict"

text \<open>The window of one record; a text that is no date is a \<open>ValueError\<close>.\<close>

definition record_window :: "capture_record \<Rightarrow> string res" where
  "record_window r =
     (case strptime_seconds (split_on (CHR ''.'') (cr_timestamp r) ! 0) of
        None \<Rightarrow> Inl ValueError
      | Some dt \<Rightarrow> window_key_10s (of_int (to_micros dt) / 1000000))"

definition record_ports :: "capture_record \<Rightarrow> int list" where
  "record_ports r = (case cr_src_port r of Some p \<Rightarrow> [p] | None \<Rightarrow> []) @ (case cr_dst_port r of Some p \<Rightarrow> [p] | None \<Rightarrow> [])"

definition squares :: "real \<Rightarrow> int list \<Rightarrow> real" where
  "squares m xs = sum_list (map (\<lambda>x. (of_int x - m) ^ 2) xs)"

fun truth_step ::
  "capture_record \<Rightarrow> int list \<times> (string, int) dict \<times> int list \<times> (string, int) dict \<Rightarrow>
   (int list \<times> (string, int) dict \<times> int list \<times> (string, int) dict) res" where
  "truth_step r (ports, protos, lengths, windows) =
     bindE (record_window r) (\<lambda>w.
       Inr (fold List.insert (record_ports r) ports, counter_inc (cr_protocol r) protos,
            lengths @ [cr_packet_length r], counter_inc w windows))"

definition compute_ground_truth :: "capture_record list \<Rightarrow> truth res" where
  "compute_ground_truth rs =
     (if rs = []
      then Inr \<lparr>tr_packets = 0, tr_bytes = 0, tr_unique_src_ips = 0, tr_unique_dst_ips = 0, tr_unique_ports = 0,
                tr_protocol_counts = [], tr_mean = 0, tr_variance_population = 0, tr_variance_sample = 0, tr_windows = []\<rparr>
      else bindE (foldE truth_step rs ([], [], [], []))
             (\<lambda>(ports, protos, lengths, windows).
                let n = real (length rs); mean = of_int (sum_list lengths) / n
                in Inr \<lparr>tr_packets = int (length rs), tr_bytes = sum_list (map cr_packet_length rs),
                        tr_unique_src_ips = int (length (remdups (map cr_src_ip rs))),
                        tr_unique_dst_ips = int (length (remdups (map cr_dst_ip rs))),
                        tr_unique_ports = int (length ports), tr_protocol_counts = protos,
                        tr_mean = py_round mean 4,
                        tr_variance_population = py_round (squares mean lengths / n) 4,
                        tr_variance_sample = py_round (if length rs > 1 then squares mean lengths / (n - 1) else 0) 4,
                        tr_windows = windows\<rparr>))"

text \<open>\<open>write_dataset\<close>: the contents of the CSV file, and of the \<open>.truth.json\<close> file unless computing it fails.\<close>

definition write_dataset :: "(real \<Rightarrow> string) \<Rightarrow> capture_record list \<Rightarrow> string list \<times> truth res" where
  "write_dataset show rs = (map (\<lambda>r. format_row show (to_dict r) @ [CHR 0x0A]) rs, compute_ground_truth rs)"

text \<open>\<open>main\<close> after its arguments: every record is validated before anything is written.\<close>

definition check_generated :: "(real \<Rightarrow> string) \<Rightarrow> capture_record list \<Rightarrow> unit res" where
  "check_generated show rs =
     foldE (\<lambda>r u. bindE (validate_record show (to_dict r)) (\<lambda>(ok, reason). if ok then Inr u else Inl ValueError)) rs ()"

definition generate_main ::
  "'g rng_ops \<Rightarrow> (real \<Rightarrow> string) \<Rightarrow> scenario \<Rightarrow> real \<Rightarrow> real \<Rightarrow> 'g \<Rightarrow> real \<Rightarrow> (string list \<times> truth res) res" where
  "generate_main R show sc duration rate seed base =
     bindE (generate_records R sc duration rate seed base) (\<lambda>rs.
     bindE (check_generated show rs) (\<lambda>_. Inr (write_dataset show rs)))"

section \<open>Timestamps satisfy the contract\<close>

lemma list2: "length s = 2 \<Longrightarrow> \<exists>a b. s = [a, b]"
  by (auto simp: length_Suc_conv numeral_eq_Suc)

lemma list3: "length s = 3 \<Longrightarrow> \<exists>a b c. s = [a, b, c]"
  by (auto simp: length_Suc_conv numeral_eq_Suc)

lemma list4: "length s = 4 \<Longrightarrow> \<exists>a b c d. s = [a, b, c, d]"
  by (auto simp: length_Suc_conv numeral_eq_Suc)

lemma timestamp_checks:
  assumes t: "valid_datetime t" and y: "1000 \<le> dt_year t" and ms: "0 \<le> ms" "ms \<le> 999"
  shows "check_timestamp show (FStr (strftime_seconds t @ ''.'' @ pad 3 ms)) = Inr None
    \<and> strip (strftime_seconds t @ ''.'' @ pad 3 ms) = strftime_seconds t @ ''.'' @ pad 3 ms"
proof -
  let ?ts = "strftime_seconds t @ ''.'' @ pad 3 ms"
  have dim: "dt_day t < 10 ^ 2"
  proof -
    have "nat (dt_month t - 1) < 12" using t by (auto simp: valid_datetime_def)
    then have "month_lengths (is_leap (dt_year t)) ! nat (dt_month t - 1) \<in> set (month_lengths (is_leap (dt_year t)))" by simp
    then have "days_in_month (dt_year t) (dt_month t) \<le> 31"
      by (auto simp: days_in_month_def month_lengths_def split: if_splits)
    then show ?thesis using t by (simp add: valid_datetime_def)
  qed
  have v: "0 \<le> dt_month t" "dt_month t < 10 ^ 2" "0 \<le> dt_day t" "0 \<le> dt_hour t" "dt_hour t < 10 ^ 2" "0 \<le> dt_minute t"
    "dt_minute t < 10 ^ 2" "0 \<le> dt_second t" "dt_second t < 10 ^ 2" "ms < 10 ^ 3" "dt_year t \<le> 9999"
    using t ms by (auto simp: valid_datetime_def)
  note p = pad_spec [of 2 "dt_month t"] pad_spec [of 2 "dt_day t"] pad_spec [of 2 "dt_hour t"]
    pad_spec [of 2 "dt_minute t"] pad_spec [of 2 "dt_second t"] pad_spec [of 3 ms]
  have len: "length (int_str (dt_year t)) = 4" "\<forall>c \<in> set (int_str (dt_year t)). is_digit c"
    using nat_str_len4 [of "nat (dt_year t)"] nat_str_props [of "nat (dt_year t)"] y v(11) by (auto simp: int_str_def)
  obtain y1 y2 y3 y4 m1 m2 d1 d2 h1 h2 i1 i2 s1 s2 a b c where
    l: "int_str (dt_year t) = [y1, y2, y3, y4]" "pad 2 (dt_month t) = [m1, m2]" "pad 2 (dt_day t) = [d1, d2]"
      "pad 2 (dt_hour t) = [h1, h2]" "pad 2 (dt_minute t) = [i1, i2]" "pad 2 (dt_second t) = [s1, s2]" "pad 3 ms = [a, b, c]"
    using list4 [OF len(1)] list2 [OF p(1)] list2 [OF p(4)] list2 [OF p(7)] list2 [OF p(10)] list2 [OF p(13)] list3 [OF p(16)]
      v dim ms by auto
  have dig: "\<forall>x \<in> {y1, y2, y3, y4, m1, m2, d1, d2, h1, h2, i1, i2, s1, s2, a, b, c}. is_digit x"
    using len(2) p(2,5,8,11,14,17) v dim ms unfolding l by simp
  have shape: "timestamp_shape ?ts"
    using dig by (simp add: timestamp_shape_def matches_def strftime_seconds_def l)
  have "strip ?ts = ?ts"
    by (rule strip_id) (use dig is_digit_plain(6) in \<open>simp add: strftime_seconds_def l\<close>)
  moreover have "split_on (CHR ''.'') ?ts = [strftime_seconds t, pad 3 ms]"
  proof -
    have "CHR ''.'' \<notin> set (strftime_seconds t)" "CHR ''.'' \<notin> set (pad 3 ms)"
      using strftime_chars [of "CHR ''.''" t] digits_not(4) [of "pad 3 ms"] p(17) v ms by (auto simp: is_digit_def)
    then show ?thesis by (simp add: split_on_append split_on_single)
  qed
  moreover have "?ts \<noteq> []" by simp
  ultimately show ?thesis using shape strptime_strftime [OF t y] by (simp add: check_timestamp_def require_def Let_def)
qed

text \<open>The years of the instants from 1970 to 9999.\<close>

lemma from_timestamp_years:
  assumes "0 \<le> x" "x < 253402300799"
  shows "\<exists>t. from_timestamp x = Inr t \<and> valid_datetime t \<and> 1000 \<le> dt_year t"
proof -
  define us where "us = round_half_even (x * 1000000)"
  have us: "0 \<le> us" "us \<le> 253402300799 * 1000000"
    using round_half_even_mono [of 0 "x * 1000000"] round_half_even_mono [of "x * 1000000" "of_int (253402300799 * 1000000)"]
      round_half_even_of_int [of 0] round_half_even_of_int [of "253402300799 * 1000000"] assms
    by (simp_all add: us_def)
  define ord where "ord = us div 1000000 div 86400 + epoch_ordinal"
  have "us div 1000000 \<le> 253402300799" using zdiv_mono1 [OF us(2), of 1000000] by simp
  from zdiv_mono1 [OF this, of 86400] have ord: "719163 \<le> ord" "ord \<le> max_ordinal"
    using us(1) by (simp_all add: ord_def epoch_ordinal_def max_ordinal_def pos_imp_zdiv_nonneg_iff)
  obtain y m d where ymd: "ord2ymd ord = (y, m, d)" by (cases "ord2ymd ord")
  then obtain t where t: "of_micros us = Inr t" "dt_year t = y"
    using ord by (auto simp: of_micros_def ord_def Let_def)
  have o1: "1 \<le> ord" using ord by linarith
  note c = ord2ymd_spec [OF o1 ymd]
  have "1000 \<le> y"
  proof (rule ccontr)
    assume "\<not> 1000 \<le> y"
    then have y: "y - 1 \<le> 998" "0 \<le> y - 1" using c(1) by linarith+
    have "month_lengths l ! i \<le> 31 \<and> sum_list (take k (month_lengths l)) \<le> 366" if "i < 12" for i k l
    proof -
      have "month_lengths l ! i \<in> set (month_lengths l)" using that by simp
      moreover have "sum_list (take k (month_lengths l)) \<le> sum_list (take k (month_lengths l)) + sum_list (drop k (month_lengths l))"
        by (intro le_add_same_cancel1 [THEN iffD2] sum_list_nonneg)
           (auto simp: month_lengths_def dest!: in_set_dropD split: if_splits)
      then have "sum_list (take k (month_lengths l)) \<le> sum_list (month_lengths l)"
        by (simp flip: sum_list_append)
      ultimately show ?thesis by (auto simp: month_lengths_def split: if_splits)
    qed
    note ml = this
    have "nat (m - 1) < 12" using c(2,3) by linarith
    then have "days_before_month y m \<le> 366"
      using ml [of "nat (m - 1)"] by (simp add: days_before_month_def)
    moreover have "days_in_month y m \<le> 31"
      using conjunct1 [OF ml [OF \<open>nat (m - 1) < 12\<close>]] by (simp add: days_in_month_def)
    then have "d \<le> 31" using c(5) by linarith
    moreover have "(y - 1) div 4 \<le> 250" "0 \<le> (y - 1) div 100" "(y - 1) div 400 \<le> 3" using y by linarith+
    moreover have "days_before_year y \<le> 364523"
      using y calculation(3-5) unfolding days_before_year_def by simp
    ultimately have "ymd2ord y m d \<le> 364920"
      unfolding ymd2ord_def by linarith
    then show False using c(6) ord(1) by linarith
  qed
  then show ?thesis using t of_micros_valid [OF t(1)] by (simp add: from_timestamp_def us_def)
qed

lemma format_ts_valid:
  assumes "0 \<le> x" "x < 253402300799"
  shows "\<exists>ts. format_ts x = Inr ts \<and> check_timestamp show (FStr ts) = Inr None \<and> strip ts = ts"
proof -
  obtain t where t: "from_timestamp x = Inr t" "valid_datetime t" "1000 \<le> dt_year t"
    using from_timestamp_years [OF assms] by blast
  show ?thesis using t timestamp_checks [OF t(2,3)] by (simp add: format_ts_def Let_def)
qed


section \<open>Packets satisfy the contract\<close>

definition good_ip :: "string \<Rightarrow> bool" where
  "good_ip s \<longleftrightarrow> s \<noteq> [] \<and> ip_address (strip s) \<noteq> None"

definition good_mac :: "string \<Rightarrow> bool" where
  "good_mac s \<longleftrightarrow> mac_shape (lower (strip s))"

definition good_port :: "int option \<Rightarrow> bool" where
  "good_port p \<longleftrightarrow> (\<forall>k \<in> set_option p. 0 \<le> k \<and> k \<le> 65535)"

definition good_flags :: "string option \<Rightarrow> bool" where
  "good_flags f \<longleftrightarrow> f \<in> {None, Some ''0x0018'', Some ''0x0010'', Some ''0x0002''}"

lemma packet_valid:
  assumes "check_timestamp show (FStr ts) = Inr None" "0 \<le> iat" "good_ip src" "good_ip dst" "good_port sp" "good_port dp"
    "proto \<in> {''TCP'', ''UDP'', ''ICMP''}" "1 \<le> len" "len \<le> 65535" "good_mac smac" "good_mac dmac" "good_flags flags"
  shows "validate_values show (record_values (packet ts iat src dst sp dp proto len smac dmac flags)) = Inr (True, ''OK'')"
proof -
  have up: "upper (strip proto) \<in> set allowed_protocols" "proto \<noteq> []"
  proof -
    have "upper (strip ''TCP'') = ''TCP''" "upper (strip ''UDP'') = ''UDP''" "upper (strip ''ICMP'') = ''ICMP''" by code_simp+
    then show "upper (strip proto) \<in> set allowed_protocols" "proto \<noteq> []" using assms(7) by (auto simp: allowed_protocols_def)
  qed
  have fl: "flags_shape (strip ''0x0018'')" "flags_shape (strip ''0x0010'')" "flags_shape (strip ''0x0002'')" by code_simp+
  have "check_ip show l n (FStr s) = Inr None" if "good_ip s" for l n s
    using that by (simp add: good_ip_def check_ip_def require_def)
  moreover have "check_port show l (opt_value FInt p) = Inr None" if "good_port p" for l p
    using that by (cases p) (auto simp: good_port_def check_port_def check_int_def present_def require_def opt_value_def)
  moreover have "check_mac show l (opt_value FStr (Some m)) = Inr None" if "good_mac m" for l m
    using that by (simp add: good_mac_def check_mac_def require_def opt_value_def)
  moreover have "check_flags show (opt_value FStr flags) = Inr None"
    using assms(12) fl by (auto simp: good_flags_def check_flags_def require_def opt_value_def present_def)
  moreover have "check_protocol show (FStr proto) = Inr None"
    using up by (simp add: check_protocol_def require_def)
  moreover have "check_length show (FInt len) = Inr None"
    using assms(8,9) by (simp add: check_length_def check_int_def present_def require_def strip_int_str)
  moreover have "0 \<le> py_round iat 3" using py_round_mono [OF assms(2), of 3] py_round_of_int [of 0 3] by simp
  then have "check_iat show (opt_value FFloat (Some (Fin (py_round iat 3)))) = Inr None"
    by (simp add: check_iat_def require_def opt_value_def)
  ultimately have "\<forall>c \<in> set (row_checks show (record_values (packet ts iat src dst sp dp proto len smac dmac flags))). c = Inr None"
    using assms by (simp add: row_checks_def record_values_def packet_def)
  then show ?thesis by (simp add: validate_values_def first_failure_ok)
qed

lemma good_hosts:
  "\<forall>s \<in> set (lan_clients @ servers_web @ dns_servers @ [''192.168.1.99'', ''198.51.100.1'', ''10.0.0.1'', ''10.0.0.2'', ''10.0.0.3'', ''10.0.0.4'']). good_ip s"
proof -
  have "list_all good_ip (lan_clients @ servers_web @ dns_servers @ [''192.168.1.99'', ''198.51.100.1'', ''10.0.0.1'', ''10.0.0.2'', ''10.0.0.3'', ''10.0.0.4''])"
    by code_simp
  then show ?thesis by (simp add: list_all_iff)
qed

lemma good_macs:
  "\<forall>m \<in> set (map snd lan_macs @ [router_mac, ''00:11:22:33:44:00'', ''02:00:00:00:00:01'', ''02:00:00:00:00:02'', ''02:00:00:00:00:03'', ''02:00:00:00:00:04'']). good_mac m"
proof -
  have "list_all good_mac (map snd lan_macs @ [router_mac, ''00:11:22:33:44:00'', ''02:00:00:00:00:01'', ''02:00:00:00:00:02'', ''02:00:00:00:00:03'', ''02:00:00:00:00:04''])"
    by code_simp
  then show ?thesis by (simp add: list_all_iff)
qed

lemma good_fanout: "s \<in> set fanout_ips \<Longrightarrow> good_ip s"
proof -
  assume "s \<in> set fanout_ips"
  then obtain i where i: "1 \<le> i" "i < 100" "s = ''198.51.100.'' @ int_str (int i)" by (auto simp: fanout_ips_def)
  have "int_str 198 = ''198''" "int_str 51 = ''51''" "int_str 100 = ''100''" by code_simp+
  then have s: "s = ip_str (V4 198 51 100 (int i))" using i(3) by simp
  have w: "wf_ip (V4 198 51 100 (int i))" using i by (simp add: wf_ip_def)
  have "strip s = s"
    using i(3) int_str_nonempty [of "int i"] int_str_chars [OF last_in_set [OF int_str_nonempty [of "int i"]]] is_digit_plain(6)
    by (intro strip_id) (auto simp: is_space_def [of "CHR ''1''"] is_space_def [of "CHR ''-''"])
  moreover have "s \<noteq> []" using i(3) by simp
  ultimately show "good_ip s" using ip_address_v4_str [OF w] unfolding good_ip_def s by simp
qed

lemma choice_in: "good_rng R \<Longrightarrow> xs \<noteq> [] \<Longrightarrow> choice R xs g = (x, g') \<Longrightarrow> x \<in> set xs"
proof -
  assume a: "good_rng R" "xs \<noteq> []" "choice R xs g = (x, g')"
  have "fst (choose_index R (length xs) g) < length xs" using a(1,2) by (simp add: good_rng_def)
  then show "x \<in> set xs" using a(3) by (auto simp: choice_def split: prod.splits)
qed

lemma rand_int_in: "good_rng R \<Longrightarrow> rand_int R a b g = (k, g') \<Longrightarrow> a \<le> b \<Longrightarrow> a \<le> k \<and> k \<le> b"
  unfolding good_rng_def by (metis fst_conv)


lemmas host_facts = good_hosts [unfolded lan_clients_def servers_web_def dns_servers_def, simplified]
lemmas mac_facts = good_macs [unfolded lan_macs_def router_mac_def, simplified]

lemma graph_packet_valid:
  assumes R: "good_rng R" and ts: "check_timestamp show (FStr ts) = Inr None" "0 \<le> iat" and p: "graph_packet R ts iat g = (r, g')"
  shows "validate_values show (record_values r) = Inr (True, ''OK'')"
proof -
  obtain e g1 where e: "choice R graph_edges g = (e, g1)" by (cases "choice R graph_edges g")
  obtain sl dl dp proto where ee: "e = (sl, dl, dp, proto)" by (cases e)
  obtain sp g2 where sp: "rand_int R 49152 65535 g1 = (sp, g2)" by (cases "rand_int R 49152 65535 g1")
  obtain len g3 where len: "choice R [64, 128, 512, 1024, 1420 :: int] g2 = (len, g3)" by fastforce
  have "e \<in> set graph_edges" by (rule choice_in [OF R _ e]) (simp add: graph_edges_def)
  then have ed: "proto \<in> {''TCP'', ''UDP''}" "0 \<le> dp" "dp \<le> 65535" "sl \<in> {''A'', ''C'', ''D''}" "dl \<in> {''B'', ''C''}"
    by (auto simp: graph_edges_def ee)
  have l: "1 \<le> len" "len \<le> 65535" using choice_in [OF R _ len] by auto
  note s = rand_int_in [OF R sp]
  have n: "good_ip (fst (dget_or graph_nodes x ([], [])))" "good_mac (snd (dget_or graph_nodes x ([], [])))"
    if "x \<in> {''A'', ''B'', ''C'', ''D''}" for x
    using that host_facts mac_facts by (auto simp: graph_nodes_def dget_or_def)
  have "good_ip (fst (dget_or graph_nodes sl ([], [])))" "good_mac (snd (dget_or graph_nodes sl ([], [])))"
    "good_ip (fst (dget_or graph_nodes dl ([], [])))" "good_mac (snd (dget_or graph_nodes dl ([], [])))"
    using n [of sl] n [of dl] ed(4,5) by blast+
  then show ?thesis
    using p e sp len s l ed(1-3) ts
    by (auto simp: graph_packet_def ee Let_def good_port_def good_flags_def split: prod.splits if_splits intro!: packet_valid)
qed

lemma scan_packet_valid:
  assumes R: "good_rng R" and ts: "check_timestamp show (FStr ts) = Inr None" "0 \<le> iat" and port: "0 \<le> port" "port \<le> 65535"
    and p: "scan_packet R ts iat port g = (r, g')"
  shows "validate_values show (record_values r) = Inr (True, ''OK'')"
proof -
  obtain sp g1 where sp: "rand_int R 40000 60000 g = (sp, g1)" by (cases "rand_int R 40000 60000 g")
  then show ?thesis using p ts port rand_int_in [OF R sp] host_facts mac_facts
    by (auto simp: scan_packet_def lan_macs_def router_mac_def dget_or_def good_port_def good_flags_def intro!: packet_valid)
qed

lemma fanout_packet_valid:
  assumes R: "good_rng R" and ts: "check_timestamp show (FStr ts) = Inr None" "0 \<le> iat" and dst: "dst \<in> set fanout_ips"
    and p: "fanout_packet R ts iat dst g = (r, g')"
  shows "validate_values show (record_values r) = Inr (True, ''OK'')"
proof -
  obtain sp g1 where sp: "rand_int R 40000 60000 g = (sp, g1)" by (cases "rand_int R 40000 60000 g")
  then show ?thesis using p ts good_fanout [OF dst] rand_int_in [OF R sp] host_facts mac_facts
    by (auto simp: fanout_packet_def lan_macs_def router_mac_def dget_or_def good_port_def good_flags_def intro!: packet_valid)
qed


text \<open>What the three kinds of mixed packets share: both hosts, both ports, the protocol, length and flags are legal.\<close>

definition good_fields ::
  "string \<times> string \<times> int option \<times> int option \<times> string \<times> int \<times> string option \<Rightarrow> bool" where
  "good_fields f = (case f of (src, dst, sp, dp, proto, len, flags) \<Rightarrow>
     good_ip src \<and> good_ip dst \<and> good_port sp \<and> good_port dp \<and> proto \<in> {''TCP'', ''UDP'', ''ICMP''}
     \<and> 1 \<le> len \<and> len \<le> 65535 \<and> good_flags flags)"

lemma dns_fields_good:
  assumes R: "good_rng R" and c: "good_ip client" and f: "dns_fields R client g = (f, g')"
  shows "good_fields f"
proof -
  obtain dst g1 where d: "choice R dns_servers g = (dst, g1)" by fastforce
  obtain sp g2 where sp: "rand_int R 49152 65535 g1 = (sp, g2)" by fastforce
  obtain len g3 where len: "rand_int R 60 140 g2 = (len, g3)" by fastforce
  have "good_ip dst" using choice_in [OF R _ d] good_hosts by (auto simp: dns_servers_def)
  then show ?thesis using f d sp len rand_int_in [OF R sp] rand_int_in [OF R len] c
    by (auto simp: dns_fields_def good_fields_def good_port_def good_flags_def)
qed

lemma icmp_fields_good:
  assumes R: "good_rng R" and c: "good_ip client" and f: "icmp_fields R client g = (f, g')"
  shows "good_fields f"
proof -
  obtain len g1 where len: "choice R [64, 84 :: int] g = (len, g1)" by fastforce
  then show ?thesis using f choice_in [OF R _ len] c host_facts
    by (auto simp: icmp_fields_def good_fields_def good_port_def good_flags_def)
qed

lemma web_fields_good:
  assumes R: "good_rng R" and c: "good_ip client" and f: "web_fields R client g = (f, g')"
  shows "good_fields f"
proof -
  obtain dst g1 where d: "choice R servers_web g = (dst, g1)" by fastforce
  obtain sp g2 where sp: "rand_int R 40000 65000 g1 = (sp, g2)" by fastforce
  obtain u g3 where u: "random01 R g2 = (u, g3)" by fastforce
  obtain len g4 where len: "choice R [64, 128, 512, 1024, 1420, 1500 :: int] g3 = (len, g4)" by fastforce
  obtain fl g5 where fl: "choice R [''0x0018'', ''0x0010'', ''0x0002''] g4 = (fl, g5)" by fastforce
  have "good_ip dst" using choice_in [OF R _ d] good_hosts by (auto simp: servers_web_def)
  moreover have "1 \<le> len" "len \<le> 65535" using choice_in [OF R _ len] by auto
  moreover have "good_flags (Some fl)" using choice_in [OF R _ fl] by (auto simp: good_flags_def)
  ultimately show ?thesis using f d sp u len fl rand_int_in [OF R sp] c
    by (auto simp: web_fields_def good_fields_def good_port_def)
qed

lemma mixed_packet_valid:
  assumes R: "good_rng R" and ts: "check_timestamp show (FStr ts) = Inr None" "0 \<le> iat" and p: "mixed_packet R sc ts iat g = (r, g')"
  shows "validate_values show (record_values r) = Inr (True, ''OK'')"
proof -
  obtain u g1 where u: "random01 R g = (u, g1)" by fastforce
  obtain c g2 where c: "choice R lan_clients g1 = (c, g2)" by fastforce
  have cl: "good_ip c" using choice_in [OF R _ c] good_hosts by (auto simp: lan_clients_def)
  have mac: "good_mac (dget_or lan_macs c ''00:11:22:33:44:00'')" "good_mac router_mac"
    using mac_facts by (auto simp: lan_macs_def router_mac_def dget_or_def)
  define dns where "dns = (if sc = DnsHeavy then u < 85 / 100 else u < 15 / 100)"
  obtain f g3 where f: "(if dns then dns_fields R c g2
      else if \<not> (\<not> dns \<and> u < 95 / 100) \<and> \<not> dns then icmp_fields R c g2 else web_fields R c g2) = (f, g3)" by fastforce
  then have gf: "good_fields f"
    using dns_fields_good [OF R cl] icmp_fields_good [OF R cl] web_fields_good [OF R cl] by (auto split: if_splits)
  obtain bk g4 where b: "random01 R g3 = (bk, g4)" by fastforce
  obtain src dst sp dp proto len flags where ff: "f = (src, dst, sp, dp, proto, len, flags)" by (cases f) auto
  have "r = packet ts iat dst src dp sp proto len router_mac (dget_or lan_macs c ''00:11:22:33:44:00'') flags
      \<or> r = packet ts iat src dst sp dp proto len (dget_or lan_macs c ''00:11:22:33:44:00'') router_mac flags"
    using p u c f b ff by (auto simp: mixed_packet_def Let_def dns_def [symmetric] conj_commute split: if_splits)
  then show ?thesis using gf ts mac unfolding ff good_fields_def by (auto intro!: packet_valid)
qed


section \<open>The loop keeps the contract\<close>

lemma packet_timestamps:
  "graph_packet R ts iat g = (r, g') \<Longrightarrow> cr_timestamp r = ts" "scan_packet R ts iat port g = (r, g') \<Longrightarrow> cr_timestamp r = ts"
  "fanout_packet R ts iat dst g = (r, g') \<Longrightarrow> cr_timestamp r = ts" "mixed_packet R sc ts iat g = (r, g') \<Longrightarrow> cr_timestamp r = ts"
  by (auto simp: graph_packet_def scan_packet_def fanout_packet_def mixed_packet_def packet_def Let_def split: prod.splits if_splits)

lemma emit_records:
  assumes R: "good_rng R" and ts: "check_timestamp show (FStr ts) = Inr None" "0 \<le> iat"
    and ports: "ports \<noteq> []" "\<forall>k \<in> set ports. 0 \<le> k \<and> k \<le> 65535"
  shows "\<exists>r. gs_records (emit R sc ports ts iat st) = gs_records st @ [r]
    \<and> validate_values show (record_values r) = Inr (True, ''OK'') \<and> cr_timestamp r = ts"
proof -
  have port: "0 \<le> ports ! (i mod length ports)" "ports ! (i mod length ports) \<le> 65535" for i
    using ports by simp_all
  have "fanout_ips \<noteq> []" by (simp add: fanout_ips_def)
  then have fan: "fanout_ips ! (i mod length fanout_ips) \<in> set fanout_ips" for i by simp
  note v = graph_packet_valid [OF R ts] scan_packet_valid [OF R ts port] fanout_packet_valid [OF R ts fan] mixed_packet_valid [OF R ts]
  show ?thesis
    using packet_timestamps by (cases sc) (auto simp: emit_def v split: prod.splits)
qed

definition good_record :: "(real \<Rightarrow> string) \<Rightarrow> capture_record \<Rightarrow> bool" where
  "good_record show r \<longleftrightarrow> validate_values show (record_values r) = Inr (True, ''OK'') \<and> strip (cr_timestamp r) = cr_timestamp r"

text \<open>The previous time stays behind the clock, so that the gap is never negative.\<close>

definition loop_good :: "(real \<Rightarrow> string) \<Rightarrow> real \<Rightarrow> 'g gen_state \<Rightarrow> bool" where
  "loop_good show base st \<longleftrightarrow> base \<le> gs_time st \<and> gs_last st \<le> gs_time st
     \<and> (\<forall>r \<in> set (gs_records st). good_record show r)
     \<and> real (length (gs_records st)) \<le> (gs_time st - base) * 1000"

lemma advance_fields [simp]: "gs_records (advance R rate st) = gs_records st" "gs_last (advance R rate st) = gs_last st"
  "gs_portscan_idx (advance R rate st) = gs_portscan_idx st" "gs_fanout_idx (advance R rate st) = gs_fanout_idx st"
  by (auto simp: advance_def split: prod.splits)

lemma generate_loop_good:
  assumes "good_rng R" and "ports \<noteq> []" "\<forall>k \<in> set ports. 0 \<le> k \<and> k \<le> 65535"
    and "0 \<le> base" "base + duration < 253402300799"
    and "loop_good show base st" "gs_time st < base + duration \<or> gs_records st = []"
  shows "\<exists>rs. generate_loop R sc ports base duration rate st = Inr rs
    \<and> (\<forall>r \<in> set rs. good_record show r)
    \<and> real (length rs) \<le> max 0 (duration * 1000)"
  using assms
proof (induction R sc ports base duration rate st rule: generate_loop.induct)
  case (1 R sc ports base duration rate st)
  define st1 where "st1 = advance R (effective_rate sc rate (gs_time st - base) duration) st"
  have t: "gs_time st + 1 / 1000 \<le> gs_time st1" unfolding st1_def by (rule advance_time)
  have same: "gs_records st1 = gs_records st" "gs_last st1 = gs_last st" by (simp_all add: st1_def)
  note g = "1.prems"(6) [unfolded loop_good_def]
  show ?case
  proof (cases "gs_time st < base + duration \<and> gs_time st1 < base + duration")
    case False
    then have "generate_loop R sc ports base duration rate st = Inr (gs_records st)"
      by (subst generate_loop.simps) (auto simp: Let_def same simp flip: st1_def)
    moreover have "real (length (gs_records st)) \<le> max 0 (duration * 1000)"
      using g "1.prems"(7) by (auto simp: algebra_simps)
    ultimately show ?thesis using g by blast
  next
    case True
    have "0 \<le> gs_time st1" "gs_time st1 < 253402300799" using t g "1.prems"(4,5) True by linarith+
    then obtain ts where ts: "format_ts (gs_time st1) = Inr ts" "check_timestamp show (FStr ts) = Inr None" "strip ts = ts"
      using format_ts_valid by blast
    define iat where "iat = (if gs_records st1 \<noteq> [] then (gs_time st1 - gs_last st1) * 1000 else 0)"
    have iat: "0 \<le> iat" using t g same by (simp add: iat_def)
    let ?st2 = "emit R sc ports ts iat (st1\<lparr>gs_last := gs_time st1\<rparr>)"
    obtain r where r: "gs_records ?st2 = gs_records st @ [r]" "good_record show r"
      unfolding good_record_def using ts(3) emit_records [OF "1.prems"(1) ts(2) iat "1.prems"(2,3), of sc "st1\<lparr>gs_last := gs_time st1\<rparr>"] same by auto
    have "loop_good show base ?st2" using g r t by (auto simp: loop_good_def)
    then have "\<exists>rs. generate_loop R sc ports base duration rate ?st2 = Inr rs
      \<and> (\<forall>r \<in> set rs. good_record show r)
      \<and> real (length rs) \<le> max 0 (duration * 1000)"
      using "1.IH" [OF _ st1_def _ iat_def ts(1)] "1.prems"(1-5) True by simp
    moreover have "generate_loop R sc ports base duration rate st = generate_loop R sc ports base duration rate ?st2"
      using True ts(1) by (subst generate_loop.simps) (simp add: Let_def iat_def flip: st1_def)
    ultimately show ?thesis by simp
  qed
qed

lemma scan_ports_good:
  assumes "good_rng R"
  shows "fst (shuffled R (map int [20..<100]) g) \<noteq> []"
    "\<forall>k \<in> set (fst (shuffled R (map int [20..<100]) g)). 0 \<le> k \<and> k \<le> 65535"
proof -
  have m: "mset (fst (shuffled R (map int [20..<100]) g)) = mset (map int [20..<100])"
    using assms unfolding good_rng_def by blast
  then show "fst (shuffled R (map int [20..<100]) g) \<noteq> []" by (auto dest: mset_eq_length)
  show "\<forall>k \<in> set (fst (shuffled R (map int [20..<100]) g)). 0 \<le> k \<and> k \<le> 65535"
    using mset_eq_setD [OF m] by auto
qed

lemma generate_records_good:
  assumes "good_rng R" "0 \<le> base" "base + duration < 253402300799"
  shows "\<exists>rs. generate_records R sc duration rate seed base = Inr rs
    \<and> (\<forall>r \<in> set rs. good_record show r)
    \<and> real (length rs) \<le> max 0 (duration * 1000)"
proof -
  obtain ports g where p: "shuffled R (map int [20..<100]) seed = (ports, g)" by fastforce
  show ?thesis
    using generate_loop_good [OF assms(1) _ _ assms(2,3), of ports "show"] scan_ports_good [OF assms(1), of seed] p
    by (simp add: generate_records_def loop_good_def)
qed


section \<open>The ground truth is computed\<close>

lemma tens: "(0::int) \<le> a \<Longrightarrow> a < n \<Longrightarrow> 0 \<le> a div 10 * 10 \<and> a div 10 * 10 < n"
  using div_mult_mod_eq [of a 10] pos_mod_sign [of 10 a] pos_imp_zdiv_nonneg_iff [of 10 a] by simp

lemma window_key_ok:
  assumes "valid_datetime t" "dt_micro t = 0"
  shows "\<exists>w. window_key_10s (of_int (to_micros t) / 1000000) = Inr w"
proof -
  let ?o = "ymd2ord (dt_year t) (dt_month t) (dt_day t)" and ?sod = "dt_hour t * 3600 + dt_minute t * 60 + dt_second t"
  define s where "s = (?o - epoch_ordinal) * 86400 + ?sod"
  have us: "to_micros t = s * 1000000" using assms(2) by (simp add: to_micros_def s_def)
  have o: "1 \<le> ?o" "?o \<le> max_ordinal" using ymd2ord_range assms(1) by (auto simp: valid_datetime_def)
  have sod: "0 \<le> ?sod" "?sod < 86400" using assms(1) by (auto simp: valid_datetime_def)
  have "s div 10 = (?o - epoch_ordinal) * 8640 + ?sod div 10"
    using div_mult_self3 [of 10 "(?o - epoch_ordinal) * 8640" ?sod] by (simp add: s_def algebra_simps)
  then have "s div 10 * 10 = ?sod div 10 * 10 + (?o - epoch_ordinal) * 86400" by simp
  moreover have "0 \<le> ?sod div 10 * 10" "?sod div 10 * 10 < 86400" using tens [OF sod] by blast+
  ultimately have "s div 10 * 10 div 86400 = ?o - epoch_ordinal"
    using div_mult_self1 [of 86400 "?sod div 10 * 10" "?o - epoch_ordinal"] div_pos_pos_trivial [of "?sod div 10 * 10" 86400] by simp
  then have "\<exists>d. of_micros (s div 10 * 10 * 1000000) = Inr d"
    using o by (simp add: of_micros_def Let_def split: prod.splits)
  moreover have "of_int \<lfloor>of_int (to_micros t) / 1000000 / (10 :: real)\<rfloor> * 10 * (1000000 :: real) = of_int (s div 10 * 10 * 1000000)"
    by (simp add: us floor_divide_of_int_eq [of s 10, simplified])
  ultimately show ?thesis unfolding window_key_10s_def from_timestamp_def by (auto simp flip: of_int_mult simp: res_simps)
qed

lemma strptime_valid: "strptime_seconds s = Some t \<Longrightarrow> valid_datetime t \<and> dt_micro t = 0"
  by (auto simp: strptime_seconds_def Let_def split: list.splits bind_splits prod.splits if_splits)

lemma record_window_ok:
  assumes "good_record show r"
  shows "\<exists>w. record_window r = Inr w"
proof -
  have "check_timestamp show (FStr (cr_timestamp r)) = Inr None" "strip (cr_timestamp r) = cr_timestamp r"
    using assms by (auto simp: good_record_def validate_values_def first_failure_ok row_checks_def record_values_def)
  then have "strptime_seconds (split_on (CHR ''.'') (cr_timestamp r) ! 0) \<noteq> None"
    by (auto simp: check_timestamp_def Let_def split: if_splits list.splits)
  then show ?thesis using window_key_ok strptime_valid by (fastforce simp: record_window_def)
qed

lemma truth_fold:
  assumes "\<forall>r \<in> set rs. record_window r = Inr (w r)"
  shows "foldE truth_step rs (ports, protos, lengths, windows)
     = Inr (fold List.insert (concat (map record_ports rs)) ports, fold counter_inc (map cr_protocol rs) protos,
         lengths @ map cr_packet_length rs, fold counter_inc (map w rs) windows)"
  using assms by (induction rs arbitrary: ports protos lengths windows) simp_all

lemma truth_windows:
  assumes "compute_ground_truth rs = Inr t"
  shows "\<forall>r \<in> set rs. \<exists>w. record_window r = Inr w"
proof (cases "rs = []")
  case False
  have "foldE truth_step rs s = Inr x \<Longrightarrow> \<forall>r \<in> set rs. \<exists>w. record_window r = Inr w" for s x
  proof (induction rs arbitrary: s)
    case (Cons r rs)
    obtain ports protos lengths windows where s: "s = (ports, protos, lengths, windows)" by (cases s)
    show ?case using Cons by (cases "record_window r") (auto simp: s)
  qed simp
  then show ?thesis using assms False by (auto simp: compute_ground_truth_def bindE_Inr_iff)
qed simp

lemma count_list_map: "count_list (map f xs) y = length (filter (\<lambda>x. f x = y) xs)"
  by (induction xs) auto

lemma inserts_card:
  "distinct ys \<Longrightarrow> distinct (fold List.insert xs ys) \<and> set (fold List.insert xs ys) = set xs \<union> set ys"
  by (induction xs arbitrary: ys) auto

lemma squares_nonneg: "0 \<le> squares m xs"
  by (auto simp: squares_def intro!: sum_list_nonneg)

lemma check_generated_ok:
  "\<forall>r \<in> set rs. validate_values show (record_values r) = Inr (True, ''OK'') \<Longrightarrow> check_generated show rs = Inr ()"
  by (induction rs) (simp_all add: check_generated_def validate_to_dict)

section \<open>Scans and fan-outs go round\<close>

lemma generate_loop_keeps:
  assumes "Q st" and turn: "\<And>st rate ts iat l. Q st \<Longrightarrow> Q (emit R sc ports ts iat (advance R rate st\<lparr>gs_last := l\<rparr>))"
    and "generate_loop R sc ports base duration rate st = Inr rs"
  shows "\<exists>st'. Q st' \<and> rs = gs_records st'"
  using assms
proof (induction R sc ports base duration rate st rule: generate_loop.induct)
  case (1 R sc ports base duration rate st)
  define st1 where "st1 = advance R (effective_rate sc rate (gs_time st - base) duration) st"
  define iat where "iat = (if gs_records st1 \<noteq> [] then (gs_time st1 - gs_last st1) * 1000 else 0)"
  note run = "1.prems"(3) [unfolded generate_loop.simps [of R sc ports base duration rate st], folded st1_def, unfolded Let_def, folded iat_def]
  show ?case
  proof (cases "gs_time st < base + duration \<and> gs_time st1 < base + duration")
    case False
    then have "rs = gs_records st" using run by (auto simp: st1_def split: if_splits)
    then show ?thesis using "1.prems"(1) by blast
  next
    case True
    then obtain ts where ts: "format_ts (gs_time st1) = Inr ts" using run by (auto split: sum.splits)
    have "Q (emit R sc ports ts iat (st1\<lparr>gs_last := gs_time st1\<rparr>))"
      unfolding st1_def by (rule "1.prems"(2)) (rule "1.prems"(1))
    then show ?thesis using "1.IH" [OF _ st1_def _ iat_def ts] "1.prems"(2) run True ts by simp
  qed
qed

lemma emit_scan:
  "map cr_dst_port (gs_records (emit R PortscanLike ports ts iat st))
     = map cr_dst_port (gs_records st) @ [Some (ports ! (gs_portscan_idx st mod length ports))]"
  "gs_portscan_idx (emit R PortscanLike ports ts iat st) = Suc (gs_portscan_idx st)"
  by (auto simp: emit_def scan_packet_def packet_def split: prod.splits)

lemma emit_fanout:
  "map cr_dst_ip (gs_records (emit R Fanout ports ts iat st))
     = map cr_dst_ip (gs_records st) @ [fanout_ips ! (gs_fanout_idx st mod length fanout_ips)]"
  "gs_fanout_idx (emit R Fanout ports ts iat st) = Suc (gs_fanout_idx st)"
  by (auto simp: emit_def fanout_packet_def packet_def split: prod.splits)

lemma cyclic_distinct:
  assumes "distinct xs" "inj f" "xs \<noteq> []"
  shows "distinct (take (length xs) (map (\<lambda>i. f (xs ! (i mod length xs))) [0..<n]))"
proof -
  have "inj_on (\<lambda>i. f (xs ! (i mod length xs))) {0..<min (length xs) n}"
    using assms by (intro inj_onI) (auto simp: inj_eq nth_eq_iff_index_eq)
  moreover have "take (length xs) [0..<n] = [0..<min (length xs) n]"
    by (cases "length xs \<le> n") (simp_all add: min_def)
  ultimately show ?thesis by (simp add: take_map distinct_map)
qed

lemma scan_cycle:
  fixes R :: "'g rng_ops"
  assumes "generate_records R PortscanLike duration rate seed base = Inr rs"
  shows "\<exists>n. map cr_dst_port rs = map (\<lambda>i. Some (fst (shuffled R (map int [20..<100]) seed) ! (i mod
    length (fst (shuffled R (map int [20..<100]) seed))))) [0..<n]"
proof -
  let ?p = "fst (shuffled R (map int [20..<100]) seed)"
  let ?Q = "\<lambda>st :: 'g gen_state. map cr_dst_port (gs_records st) = map (\<lambda>i. Some (?p ! (i mod length ?p))) [0..<gs_portscan_idx st]"
  have "\<exists>st'. ?Q st' \<and> rs = gs_records st'"
    by (rule generate_loop_keeps [where Q = ?Q, OF _ _ assms [unfolded generate_records_def case_prod_unfold]])
       (simp_all add: emit_scan)
  then show ?thesis by blast
qed

lemma fanout_cycle:
  fixes R :: "'g rng_ops"
  assumes "generate_records R Fanout duration rate seed base = Inr rs"
  shows "\<exists>n. map cr_dst_ip rs = map (\<lambda>i. fanout_ips ! (i mod length fanout_ips)) [0..<n]"
proof -
  let ?Q = "\<lambda>st :: 'g gen_state. map cr_dst_ip (gs_records st) = map (\<lambda>i. fanout_ips ! (i mod length fanout_ips)) [0..<gs_fanout_idx st]"
  have "\<exists>st'. ?Q st' \<and> rs = gs_records st'"
    by (rule generate_loop_keeps [where Q = ?Q, OF _ _ assms [unfolded generate_records_def case_prod_unfold]])
       (simp_all add: emit_fanout)
  then show ?thesis by blast
qed

lemma distinct_fanout: "distinct fanout_ips" "length fanout_ips = 99"
proof -
  have "inj (\<lambda>i. ''198.51.100.'' @ int_str (int i))"
    by (intro injI) (metis py_int_str option.inject of_nat_eq_iff same_append_eq)
  then show "distinct fanout_ips"
    unfolding fanout_ips_def distinct_map using inj_on_subset [OF _ subset_UNIV] distinct_upt by blast
qed (simp add: fanout_ips_def)

section \<open>Properties\<close>

text \<open>C5: Every scenario terminates with at most a thousand packets a second, every generated record
  satisfies the record contract, and the data set and its ground truth are written.
\<close>
theorem generated_valid:
  assumes R: "good_rng R" and base: "0 \<le> base" "base + duration < 253402300799"
  shows "\<exists>rs t. generate_records R sc duration rate seed base = Inr rs
    \<and> generate_main R show sc duration rate seed base = Inr (map (\<lambda>r. format_row show (to_dict r) @ [CHR 0x0A]) rs, Inr t)
    \<and> (\<forall>r \<in> set rs. validate_record show (to_dict r) = Inr (True, ''OK''))
    \<and> real (length rs) \<le> max 0 (duration * 1000) \<and> tr_packets t = int (length rs)"
proof -
  obtain rs where rs: "generate_records R sc duration rate seed base = Inr rs" "\<forall>r \<in> set rs. good_record show r"
    "real (length rs) \<le> max 0 (duration * 1000)"
    using generate_records_good [OF assms] by blast
  obtain w where w: "\<forall>r \<in> set rs. record_window r = Inr (w r)"
    using record_window_ok rs(2) by metis
  obtain t where t: "compute_ground_truth rs = Inr t" "tr_packets t = int (length rs)"
    by (cases "rs = []") (auto simp: compute_ground_truth_def truth_fold [OF w] Let_def)
  show ?thesis
    using rs t check_generated_ok [of rs "show"]
    by (auto simp: generate_main_def write_dataset_def validate_to_dict good_record_def)
qed

text \<open>C34: The ground truth adds up: the protocol counters and the window counters both sum to the number of
  packets, each protocol has its number of records, the ports are counted once, and the population
  variance is between 0 and the sample variance when there are two packets or more.
\<close>
theorem ground_truth_totals:
  assumes t: "compute_ground_truth rs = Inr t"
  shows "tr_packets t = int (length rs) \<and> tr_bytes t = sum_list (map cr_packet_length rs)
    \<and> sum_list (map snd (tr_protocol_counts t)) = tr_packets t
    \<and> (\<forall>p. dget_or (tr_protocol_counts t) p 0 = int (length (filter (\<lambda>r. cr_protocol r = p) rs)))
    \<and> sum_list (map snd (tr_windows t)) = tr_packets t
    \<and> tr_unique_ports t = int (card (\<Union>r \<in> set rs. set_option (cr_src_port r) \<union> set_option (cr_dst_port r)))
    \<and> 0 \<le> tr_variance_population t \<and> (1 < length rs \<longrightarrow> tr_variance_population t \<le> tr_variance_sample t)"
proof (cases "rs = []")
  case True
  then show ?thesis using t by (auto simp: compute_ground_truth_def dget_or_def)
next
  case False
  obtain w where w: "\<forall>r \<in> set rs. record_window r = Inr (w r)" using truth_windows [OF t] by metis
  let ?l = "map cr_packet_length rs" and ?n = "real (length rs)"
  define m where "m = of_int (sum_list ?l) / ?n"
  define ports where "ports = fold List.insert (concat (map record_ports rs)) []"
  have tt: "tr_packets t = int (length rs)" "tr_bytes t = sum_list ?l" "tr_unique_ports t = int (length ports)"
    "tr_protocol_counts t = fold counter_inc (map cr_protocol rs) []" "tr_windows t = fold counter_inc (map w rs) []"
    "tr_variance_population t = py_round (squares m ?l / ?n) 4"
    "1 < length rs \<Longrightarrow> tr_variance_sample t = py_round (squares m ?l / (?n - 1)) 4"
    using t False by (auto simp: compute_ground_truth_def truth_fold [OF w] Let_def m_def ports_def)
  have "distinct ports" "set ports = (\<Union>r \<in> set rs. set_option (cr_src_port r) \<union> set_option (cr_dst_port r))"
    using inserts_card [of "[]" "concat (map record_ports rs)"]
    by (auto simp: ports_def record_ports_def split: option.splits)
  then have "int (length ports) = int (card (\<Union>r \<in> set rs. set_option (cr_src_port r) \<union> set_option (cr_dst_port r)))"
    by (metis distinct_card)
  moreover have "0 \<le> py_round (squares m ?l / ?n) 4"
    using py_round_mono [of 0 "squares m ?l / ?n" 4] py_round_of_int [of 0 4] squares_nonneg [of m ?l] by simp
  moreover have "py_round (squares m ?l / ?n) 4 \<le> py_round (squares m ?l / (?n - 1)) 4" if "1 < length rs"
    using that squares_nonneg [of m ?l] by (intro py_round_mono frac_le) auto
  moreover have "dget_or (fold counter_inc (map cr_protocol rs) []) p 0 = int (length (filter (\<lambda>r. cr_protocol r = p) rs))" for p
    using counter_of [of "map cr_protocol rs" p] count_list_0_iff [of "map cr_protocol rs" p]
    by (simp add: dget_or_def count_list_map)
  moreover have "sum_list (map snd (fold counter_inc (map f rs) [])) = int (length rs)" for f :: "capture_record \<Rightarrow> string"
    using counter_total [of "[]" "map f rs"] by simp
  ultimately show ?thesis using tt by simp
qed


text \<open>The scans touch as many targets as they can: the first eighty packets of a port scan go to
  distinct ports, and the first ninety-nine of a fan-out to distinct hosts.
\<close>
theorem scans_spread:
  assumes R: "good_rng R"
  shows "(generate_records R PortscanLike duration rate seed base = Inr rs \<longrightarrow> distinct (take 80 (map cr_dst_port rs)))
    \<and> (generate_records R Fanout duration rate seed base = Inr rs \<longrightarrow> distinct (take 99 (map cr_dst_ip rs)))"
proof -
  let ?p = "fst (shuffled R (map int [20..<100]) seed)"
  have m: "mset ?p = mset (map int [20..<100])" using R unfolding good_rng_def by blast
  have p: "distinct ?p" "length ?p = 80"
    using mset_eq_imp_distinct_iff [OF m] mset_eq_length [OF m] by (simp_all add: distinct_map)
  have ne: "?p \<noteq> []" "fanout_ips \<noteq> []" using p(2) distinct_fanout(2) by auto
  have "inj (Some :: int \<Rightarrow> int option)" by simp
  from cyclic_distinct [OF p(1) this ne(1)] cyclic_distinct [OF distinct_fanout(1) inj_on_id ne(2)] show ?thesis
    using scan_cycle [of R duration rate seed base rs] fanout_cycle [of R duration rate seed base rs] p(2) distinct_fanout(2)
    by fastforce
qed

definition plain_rng :: "unit rng_ops" where
  "plain_rng = \<lparr>expovariate = \<lambda>rate g. (1 / rate, g), random01 = \<lambda>g. (1 / 2, g), rand_int = \<lambda>a b g. (a, g),
     choose_index = \<lambda>n g. (0, g), shuffled = \<lambda>xs g. (rev xs, g)\<rparr>"

lemma plain_rng_good: "good_rng plain_rng"
  by (simp add: good_rng_def plain_rng_def)

theorem generated_valid_witness:
  "\<exists>rs t. generate_main plain_rng (\<lambda>x. int_str \<lfloor>x\<rfloor>) Spike 60 20 () 1758412800
      = Inr (map (\<lambda>r. format_row (\<lambda>x. int_str \<lfloor>x\<rfloor>) (to_dict r) @ [CHR 0x0A]) rs, Inr t)
    \<and> real (length rs) \<le> 60000 \<and> tr_packets t = int (length rs)"
  using generated_valid [OF plain_rng_good, of 1758412800 60 Spike 20 "()" "\<lambda>x. int_str \<lfloor>x\<rfloor>"] by auto

theorem ground_truth_totals_witness:
  "\<exists>t. compute_ground_truth [example_record] = Inr t \<and> sum_list (map snd (tr_windows t)) = 1
    \<and> dget_or (tr_protocol_counts t) (cr_protocol example_record) 0 = 1"
proof -
  have "strip (cr_timestamp example_record) = cr_timestamp example_record" by code_simp
  then have "good_record (\<lambda>x. int_str \<lfloor>x\<rfloor>) example_record" using example_valid by (simp add: good_record_def)
  then obtain w where "record_window example_record = Inr w" using record_window_ok by blast
  then obtain t where t: "compute_ground_truth [example_record] = Inr t"
    by (auto simp: compute_ground_truth_def Let_def)
  show ?thesis using t ground_truth_totals [OF t] by auto
qed

lemma plain_turn:
  "gs_time (advance plain_rng 20 st) = gs_time st + 1 / 20"
  by (simp add: advance_def plain_rng_def)

theorem scans_spread_witness:
  "\<exists>rs. generate_records plain_rng PortscanLike 4 20 () 1758412800 = Inr rs \<and> distinct (take 80 (map cr_dst_port rs))"
proof -
  obtain rs where "generate_records plain_rng PortscanLike 4 20 () 1758412800 = Inr rs"
    using generate_records_good [OF plain_rng_good, of 1758412800 4 PortscanLike 20 "()"] by auto
  then show ?thesis using scans_spread [OF plain_rng_good, of 4 20 "()" 1758412800 rs] by blast
qed

end
