(* ===== verification/Capture_Runner.thy ===== *)
theory Capture_Runner
  imports Writers
begin

text \<open>
  The capture runner, \<open>capture/run_capture.py\<close>: TShark processes whose output reader threads put into a
  bounded queue, and the main thread that consumes it, writes records and rejects, and supervises the
  processes.  The threads are interleaved by a step relation: the readers, the processes, the signals
  and the clock may move at any time.  The writer is a parameter, with its interface \<open>line_log\<close>.
\<close>

section \<open>Starting\<close>

record runner_cfg =
  rc_iface :: string
  rc_filter :: "string option"
  rc_duration :: "int option"
  rc_queue_size :: int
  rc_tshark_path :: string
  rc_extra_args :: "string list"

datatype writer_kind = Csv_Writer | Json_Writer | Tcp_Writer | Stdout_Writer

text \<open>\<open>_init_writer\<close>\<close>

definition init_writer :: "string \<Rightarrow> string \<Rightarrow> writer_kind res" where
  "init_writer sink out_format =
     (if sink = ''file'' then Inr (if out_format = ''json'' then Json_Writer else Csv_Writer)
      else if sink = ''tcp'' then Inr Tcp_Writer
      else if sink = ''stdout'' then Inr Stdout_Writer
      else Inl ValueError)"

text \<open>\<open>Path(p).name\<close>\<close>

definition path_name :: "string \<Rightarrow> string" where
  "path_name p =
     (let parts = filter (\<lambda>s. s \<noteq> [] \<and> s \<noteq> ''.'') (split_on (CHR ''/'') p)
      in if parts = [] then [] else last parts)"

text \<open>The command of \<open>_start_subprocess\<close>: a fake TShark run by Python takes its script first.\<close>

definition start_command :: "runner_cfg \<Rightarrow> string list res" where
  "start_command cfg =
     bindE (build_command (rc_iface cfg) (rc_filter cfg) (rc_duration cfg) (rc_tshark_path cfg)) (\<lambda>cmd.
       Inr (if rc_extra_args cfg \<noteq> []
            then if sublist ''python'' (lower (path_name (rc_tshark_path cfg)))
                 then [rc_tshark_path cfg] @ rc_extra_args cfg @ drop 1 cmd
                 else cmd @ rc_extra_args cfg
            else cmd))"

section \<open>The state\<close>

text \<open>Where the main thread is in \<open>run\<close>.  A test of the stop flag and what follows it are different places, since
  a signal may come between them.\<close>

datatype pc =
    Supervise      \<comment> \<open>the outer loop's condition\<close>
  | Starting       \<comment> \<open>the start of a process\<close>
  | Consume        \<comment> \<open>the inner loop's condition\<close>
  | Get            \<comment> \<open>\<open>queue.get\<close> and the line\<close>
  | Stats          \<comment> \<open>the periodic statistics\<close>
  | Limit          \<comment> \<open>the duration limit\<close>
  | Poll           \<comment> \<open>has TShark exited\<close>
  | Drain          \<comment> \<open>the queue of an exited process\<close>
  | After          \<comment> \<open>after the inner loop: the stop flag\<close>
  | Ended          \<comment> \<open>the exit code and the restart\<close>
  | GaveUp         \<comment> \<open>after the last restart, the stop flag being set\<close>
  | Shutdown       \<comment> \<open>terminating the child\<close>
  | FinalDrain
  | Closing
  | Returned int
  | Raised py_error

datatype process = NotStarted | Running | Exited int

text \<open>A reader thread: the line it has taken and not yet put, and the output still to come.\<close>

datatype reader = Reader (rd_hand: "string option") (rd_rest: "string list")

record stats =
  st_frames_seen :: nat
  st_records_written :: nat
  st_rejects :: "(string, int) dict"
  st_dropped :: nat

text \<open>The runner.  The last three fields are the history: the lines the readers took, the lines that
  entered the queue, and the lines the main thread consumed.\<close>

record 's runner =
  rn_pc :: pc
  rn_stop :: bool
  rn_queue :: "string list"
  rn_readers :: "reader list"
  rn_proc :: process
  rn_restarts :: nat
  frames_seen :: nat
  records_written :: nat
  rejects_by_reason :: "(string, int) dict"
  dropped_queue_full :: nat
  rn_writer :: 's
  rejects_log :: "string list"
  capture_stats :: "stats option"
  rn_taken :: nat
  rn_arrived :: "string list"
  rn_consumed :: "string list"

definition runner_init :: "'s \<Rightarrow> 's runner" where
  "runner_init w =
     \<lparr>rn_pc = Supervise, rn_stop = False, rn_queue = [], rn_readers = [], rn_proc = NotStarted, rn_restarts = 0,
      frames_seen = 0, records_written = 0, rejects_by_reason = [], dropped_queue_full = 0, rn_writer = w,
      rejects_log = [], capture_stats = None, rn_taken = 0, rn_arrived = [], rn_consumed = []\<rparr>"

definition max_restarts :: nat where "max_restarts = 5"

section \<open>Its operations\<close>

text \<open>\<open>_log_reject\<close>: the counter always, the line when the file can be written.\<close>

definition log_reject :: "bool \<Rightarrow> reject \<Rightarrow> 's runner \<Rightarrow> 's runner" where
  "log_reject file_ok r s =
     s\<lparr>rejects_by_reason := counter_inc (reason_value (reason r)) (rejects_by_reason s),
       rejects_log := (if file_ok
         then rejects_log s @ [reason_value (reason r) @ '' | '' @ detail r @ '' | '' @ strip (raw_line r) @ [newline]]
         else rejects_log s)\<rparr>"

text \<open>\<open>write_stats\<close>: the file is replaced as a whole, or kept when that fails.\<close>

definition write_stats :: "bool \<Rightarrow> 's runner \<Rightarrow> 's runner" where
  "write_stats file_ok s =
     (if file_ok
      then s\<lparr>capture_stats := Some \<lparr>st_frames_seen = frames_seen s, st_records_written = records_written s,
               st_rejects = rejects_by_reason s, st_dropped = dropped_queue_full s\<rparr>\<rparr>
      else s)"

text \<open>The line at the head of the queue is parsed, and written or rejected.\<close>

definition handle_line ::
  "(string \<Rightarrow> (reject + capture_record) res) \<Rightarrow> ('e \<Rightarrow> capture_record \<Rightarrow> 's \<Rightarrow> 's \<times> unit res) \<Rightarrow> 'e \<Rightarrow> bool \<Rightarrow>
     's runner \<Rightarrow> 's runner" where
  "handle_line parse put e file_ok s =
     (let line = hd (rn_queue s);
          s1 = s\<lparr>rn_queue := tl (rn_queue s), frames_seen := frames_seen s + 1, rn_consumed := rn_consumed s @ [line]\<rparr>
      in case parse line of
           Inl er \<Rightarrow> s1\<lparr>rn_pc := Raised er\<rparr>
         | Inr (Inl r) \<Rightarrow> log_reject file_ok r s1
         | Inr (Inr r) \<Rightarrow> (case put e r (rn_writer s1) of
              (w, Inl er) \<Rightarrow> s1\<lparr>rn_writer := w, rn_pc := Raised er\<rparr>
            | (w, Inr _) \<Rightarrow> s1\<lparr>rn_writer := w, records_written := records_written s1 + 1\<rparr>))"

definition queue_full :: "runner_cfg \<Rightarrow> 's runner \<Rightarrow> bool" where
  "queue_full cfg s \<longleftrightarrow> 0 < rc_queue_size cfg \<and> rc_queue_size cfg \<le> int (length (rn_queue s))"

text \<open>\<open>put(line, block=False)\<close> by the reader \<open>i\<close>\<close>

definition put_line :: "runner_cfg \<Rightarrow> nat \<Rightarrow> string \<Rightarrow> 's runner \<Rightarrow> 's runner" where
  "put_line cfg i line s =
     (let s1 = s\<lparr>rn_readers := (rn_readers s)[i := Reader None (rd_rest (rn_readers s ! i))]\<rparr>
      in if queue_full cfg s then s1\<lparr>dropped_queue_full := dropped_queue_full s + 1\<rparr>
         else s1\<lparr>rn_queue := rn_queue s @ [line], rn_arrived := rn_arrived s @ [line]\<rparr>)"

text \<open>A process that exits with another code than 0 is restarted, five times at most.\<close>

definition restart :: "'s runner \<Rightarrow> 's runner" where
  "restart s =
     (let n = rn_restarts s + 1
      in if max_restarts < n then s\<lparr>rn_restarts := n, rn_stop := True, rn_pc := GaveUp\<rparr>
         else s\<lparr>rn_restarts := n, rn_pc := Supervise\<rparr>)"

section \<open>The steps\<close>

text \<open>The reader threads, the processes and the signal handler.\<close>

inductive env_step :: "runner_cfg \<Rightarrow> 's runner \<Rightarrow> 's runner \<Rightarrow> bool" for cfg where
  take_line: "i < length (rn_readers s) \<Longrightarrow> rn_readers s ! i = Reader None (l # ls) \<Longrightarrow> \<not> rn_stop s \<Longrightarrow>
     env_step cfg s (s\<lparr>rn_readers := (rn_readers s)[i := Reader (Some l) ls], rn_taken := rn_taken s + 1\<rparr>)"
| reader_stops: "i < length (rn_readers s) \<Longrightarrow> rn_readers s ! i = Reader None (l # ls) \<Longrightarrow> rn_stop s \<Longrightarrow>
     env_step cfg s (s\<lparr>rn_readers := (rn_readers s)[i := Reader None []]\<rparr>)"
| put: "i < length (rn_readers s) \<Longrightarrow> rd_hand (rn_readers s ! i) = Some l \<Longrightarrow> env_step cfg s (put_line cfg i l s)"
| exit: "rn_proc s = Running \<Longrightarrow> env_step cfg s (s\<lparr>rn_proc := Exited code\<rparr>)"
| signal: "\<not> rn_stop s \<Longrightarrow> env_step cfg s (s\<lparr>rn_stop := True\<rparr>)"

text \<open>The main thread.\<close>

inductive main_step ::
  "runner_cfg \<Rightarrow> (string \<Rightarrow> (reject + capture_record) res) \<Rightarrow> ('e \<Rightarrow> capture_record \<Rightarrow> 's \<Rightarrow> 's \<times> unit res) \<Rightarrow>
   ('e \<Rightarrow> 's \<Rightarrow> 's) \<Rightarrow> ('e \<Rightarrow> 's \<Rightarrow> 's) \<Rightarrow> 's runner \<Rightarrow> 's runner \<Rightarrow> bool"
  for cfg parse "write" flush close where
  supervise: "rn_pc s = Supervise \<Longrightarrow> \<not> rn_stop s \<Longrightarrow> rn_restarts s \<le> max_restarts \<Longrightarrow>
     main_step cfg parse write flush close s (s\<lparr>rn_pc := Starting\<rparr>)"
| supervise_ends: "rn_pc s = Supervise \<Longrightarrow> rn_stop s \<or> max_restarts < rn_restarts s \<Longrightarrow>
     main_step cfg parse write flush close s (s\<lparr>rn_pc := Shutdown\<rparr>)"
| spawn: "rn_pc s = Starting \<Longrightarrow> start_command cfg = Inr cmd \<Longrightarrow>
     main_step cfg parse write flush close s
       (s\<lparr>rn_proc := Running, rn_readers := rn_readers s @ [Reader None out], rn_pc := Consume\<rparr>)"
| spawn_fails: "rn_pc s = Starting \<Longrightarrow> main_step cfg parse write flush close s (s\<lparr>rn_pc := Returned 1\<rparr>)"
| consume_ends: "rn_pc s = Consume \<Longrightarrow> rn_stop s \<Longrightarrow> main_step cfg parse write flush close s (s\<lparr>rn_pc := After\<rparr>)"
| consume_next: "rn_pc s = Consume \<Longrightarrow> \<not> rn_stop s \<Longrightarrow> main_step cfg parse write flush close s (s\<lparr>rn_pc := Get\<rparr>)"
| consume: "rn_pc s = Get \<Longrightarrow> rn_queue s \<noteq> [] \<Longrightarrow>
     main_step cfg parse write flush close s (handle_line parse write e ok (s\<lparr>rn_pc := Stats\<rparr>))"
| consume_empty: "rn_pc s = Get \<Longrightarrow> rn_queue s = [] \<Longrightarrow>
     main_step cfg parse write flush close s (s\<lparr>rn_pc := Stats\<rparr>)"
| stats_due: "rn_pc s = Stats \<Longrightarrow>
     main_step cfg parse write flush close s (write_stats ok (s\<lparr>rn_writer := flush e (rn_writer s), rn_pc := Limit\<rparr>))"
| stats_not_due: "rn_pc s = Stats \<Longrightarrow> main_step cfg parse write flush close s (s\<lparr>rn_pc := Limit\<rparr>)"
| limit_hit: "rn_pc s = Limit \<Longrightarrow> rc_duration cfg \<noteq> None \<Longrightarrow>
     main_step cfg parse write flush close s (s\<lparr>rn_stop := True, rn_pc := After\<rparr>)"
| limit_not_hit: "rn_pc s = Limit \<Longrightarrow> main_step cfg parse write flush close s (s\<lparr>rn_pc := Poll\<rparr>)"
| still_running: "rn_pc s = Poll \<Longrightarrow> rn_proc s = Running \<Longrightarrow> main_step cfg parse write flush close s (s\<lparr>rn_pc := Consume\<rparr>)"
| has_exited: "rn_pc s = Poll \<Longrightarrow> rn_proc s \<noteq> Running \<Longrightarrow> main_step cfg parse write flush close s (s\<lparr>rn_pc := Drain\<rparr>)"
| drain: "rn_pc s = Drain \<Longrightarrow> rn_queue s \<noteq> [] \<Longrightarrow> main_step cfg parse write flush close s (handle_line parse write e ok s)"
| drained: "rn_pc s = Drain \<Longrightarrow> rn_queue s = [] \<Longrightarrow> main_step cfg parse write flush close s (s\<lparr>rn_pc := After\<rparr>)"
| stopped: "rn_pc s = After \<Longrightarrow> rn_stop s \<Longrightarrow> main_step cfg parse write flush close s (s\<lparr>rn_pc := Supervise\<rparr>)"
| not_stopped: "rn_pc s = After \<Longrightarrow> \<not> rn_stop s \<Longrightarrow> main_step cfg parse write flush close s (s\<lparr>rn_pc := Ended\<rparr>)"
| clean_exit: "rn_pc s = Ended \<Longrightarrow> rn_proc s = Exited 0 \<Longrightarrow>
     main_step cfg parse write flush close s (s\<lparr>rn_pc := Shutdown\<rparr>)"
| crashed: "rn_pc s = Ended \<Longrightarrow> rn_proc s \<noteq> Exited 0 \<Longrightarrow> main_step cfg parse write flush close s (restart s)"
| give_up: "rn_pc s = GaveUp \<Longrightarrow> main_step cfg parse write flush close s (s\<lparr>rn_pc := Returned 1\<rparr>)"
| terminate: "rn_pc s = Shutdown \<Longrightarrow>
     main_step cfg parse write flush close s
       (s\<lparr>rn_proc := (if rn_proc s = Running then Exited code else rn_proc s), rn_pc := FinalDrain\<rparr>)"
| final_drain: "rn_pc s = FinalDrain \<Longrightarrow> rn_queue s \<noteq> [] \<Longrightarrow>
     main_step cfg parse write flush close s (handle_line parse write e ok s)"
| final_drained: "rn_pc s = FinalDrain \<Longrightarrow> rn_queue s = [] \<Longrightarrow>
     main_step cfg parse write flush close s (s\<lparr>rn_pc := Closing\<rparr>)"
| close_writer: "rn_pc s = Closing \<Longrightarrow>
     main_step cfg parse write flush close s
       (write_stats ok (s\<lparr>rn_writer := close e' (flush e (rn_writer s)), rn_pc := Returned 0\<rparr>))"

text \<open>One step of the system.\<close>

definition runner_step ::
  "runner_cfg \<Rightarrow> (string \<Rightarrow> (reject + capture_record) res) \<Rightarrow> ('e \<Rightarrow> capture_record \<Rightarrow> 's \<Rightarrow> 's \<times> unit res) \<Rightarrow>
   ('e \<Rightarrow> 's \<Rightarrow> 's) \<Rightarrow> ('e \<Rightarrow> 's \<Rightarrow> 's) \<Rightarrow> 's runner \<Rightarrow> 's runner \<Rightarrow> bool" where
  "runner_step cfg parse put flush close s t \<longleftrightarrow> env_step cfg s t \<or> main_step cfg parse put flush close s t"

section \<open>The accounts\<close>

definition hands :: "'s runner \<Rightarrow> nat" where
  "hands s = sum_list (map (\<lambda>r. if rd_hand r = None then 0 else 1) (rn_readers s))"

definition accepted :: "(string \<Rightarrow> (reject + capture_record) res) \<Rightarrow> string list \<Rightarrow> capture_record list" where
  "accepted parse ls = concat (map (\<lambda>l. case parse l of Inr (Inr r) \<Rightarrow> [r] | _ \<Rightarrow> []) ls)"

definition failed :: "'s runner \<Rightarrow> nat" where
  "failed s = (case rn_pc s of Raised _ \<Rightarrow> 1 | _ \<Rightarrow> 0)"

definition queue_ok :: "runner_cfg \<Rightarrow> 's runner \<Rightarrow> bool" where
  "queue_ok cfg s \<longleftrightarrow> rn_consumed s @ rn_queue s = rn_arrived s \<and> frames_seen s = length (rn_consumed s)
     \<and> rn_taken s = length (rn_arrived s) + dropped_queue_full s + hands s
     \<and> (0 < rc_queue_size cfg \<longrightarrow> int (length (rn_queue s)) \<le> rc_queue_size cfg)"

definition counts_ok :: "(string \<Rightarrow> (reject + capture_record) res) \<Rightarrow> 's runner \<Rightarrow> bool" where
  "counts_ok parse s \<longleftrightarrow> wf_dict (rejects_by_reason s)
     \<and> sum_list (map snd (rejects_by_reason s)) + int (length (accepted parse (rn_consumed s))) = int (length (rn_consumed s))
     \<and> records_written s + failed s = length (accepted parse (rn_consumed s))"

definition restarts_ok :: "'s runner \<Rightarrow> bool" where
  "restarts_ok s \<longleftrightarrow> length (rn_readers s) \<le> rn_restarts s + (if rn_pc s = Starting \<or> rn_pc s = Supervise \<and> \<not> rn_stop s then 0 else 1)
     \<and> length (rn_readers s) \<le> 6 \<and> (rn_restarts s \<le> 5 \<or> rn_restarts s = 6 \<and> rn_pc s \<in> {GaveUp, Returned 1})"

lemma sum_list_map_update:
  "i < length xs \<Longrightarrow> sum_list (map f (xs[i := y])) + f (xs ! i) = sum_list (map f xs) + (f y :: nat)"
proof -
  assume i: "i < length xs"
  then have "f (xs ! i) \<le> sum_list (map f xs)" using elem_le_sum_list [of i "map f xs"] by simp
  then show ?thesis using i sum_list_update [of i "map f xs" "f y"] by (simp add: map_update)
qed

lemma hands_update:
  "i < length (rn_readers s) \<Longrightarrow> hands (s\<lparr>rn_readers := (rn_readers s)[i := r]\<rparr>) + (if rd_hand (rn_readers s ! i) = None then 0 else 1)
     = hands s + (if rd_hand r = None then 0 else 1)"
  using sum_list_map_update [of i "rn_readers s" "\<lambda>r. if rd_hand r = None then 0 else 1" r] by (simp add: hands_def)

lemma handle_line_fields [simp]:
  "rn_queue (handle_line parse put e ok s) = tl (rn_queue s)" "frames_seen (handle_line parse put e ok s) = frames_seen s + 1"
  "rn_consumed (handle_line parse put e ok s) = rn_consumed s @ [hd (rn_queue s)]"
  "rn_arrived (handle_line parse put e ok s) = rn_arrived s" "rn_taken (handle_line parse put e ok s) = rn_taken s"
  "rn_readers (handle_line parse put e ok s) = rn_readers s" "rn_stop (handle_line parse put e ok s) = rn_stop s"
  "rn_restarts (handle_line parse put e ok s) = rn_restarts s" "rn_proc (handle_line parse put e ok s) = rn_proc s"
  "dropped_queue_full (handle_line parse put e ok s) = dropped_queue_full s"
  by (auto simp: handle_line_def log_reject_def Let_def split: sum.splits prod.splits)

lemma handle_line_pc: "rn_pc (handle_line parse put e ok s) = rn_pc s \<or> (\<exists>er. rn_pc (handle_line parse put e ok s) = Raised er)"
  by (auto simp: handle_line_def log_reject_def Let_def split: sum.splits prod.splits)

lemma write_stats_fields [simp]:
  "rn_queue (write_stats ok s) = rn_queue s" "frames_seen (write_stats ok s) = frames_seen s"
  "rn_consumed (write_stats ok s) = rn_consumed s" "rn_arrived (write_stats ok s) = rn_arrived s"
  "rn_taken (write_stats ok s) = rn_taken s" "rn_readers (write_stats ok s) = rn_readers s"
  "rn_stop (write_stats ok s) = rn_stop s" "rn_restarts (write_stats ok s) = rn_restarts s"
  "rn_proc (write_stats ok s) = rn_proc s" "dropped_queue_full (write_stats ok s) = dropped_queue_full s"
  "rn_pc (write_stats ok s) = rn_pc s" "rn_writer (write_stats ok s) = rn_writer s"
  "records_written (write_stats ok s) = records_written s" "rejects_by_reason (write_stats ok s) = rejects_by_reason s"
  by (auto simp: write_stats_def)

lemma queue_ok_simps [simp]:
  "queue_ok cfg (s\<lparr>rn_pc := p\<rparr>) = queue_ok cfg s" "queue_ok cfg (s\<lparr>rn_stop := b\<rparr>) = queue_ok cfg s"
  "queue_ok cfg (s\<lparr>rn_proc := pr\<rparr>) = queue_ok cfg s" "queue_ok cfg (s\<lparr>rn_restarts := n\<rparr>) = queue_ok cfg s"
  "queue_ok cfg (s\<lparr>rn_writer := w\<rparr>) = queue_ok cfg s" "queue_ok cfg (write_stats ok s) = queue_ok cfg s"
  by (simp_all add: queue_ok_def hands_def)

lemma handle_line_queue: "queue_ok cfg s \<Longrightarrow> rn_queue s \<noteq> [] \<Longrightarrow> queue_ok cfg (handle_line parse put e ok s)"
  by (auto simp: queue_ok_def hands_def)

lemma env_queue: "env_step cfg s t \<Longrightarrow> queue_ok cfg s \<Longrightarrow> queue_ok cfg t"
proof (induction rule: env_step.induct)
  case (take_line i s l ls)
  then show ?case using hands_update [of i s "Reader (Some l) ls"] by (simp add: queue_ok_def) (simp add: hands_def)
next
  case (reader_stops i s l ls)
  then show ?case using hands_update [of i s "Reader None []"] by (simp add: queue_ok_def)
next
  case (put i s l)
  then show ?case using hands_update [of i s "Reader None (rd_rest (rn_readers s ! i))"]
    by (auto simp: put_line_def queue_ok_def queue_full_def Let_def hands_def)
qed simp_all

lemma main_queue: "main_step cfg parse put flush close s t \<Longrightarrow> queue_ok cfg s \<Longrightarrow> queue_ok cfg t"
proof (induction rule: main_step.induct)
  case (spawn s cmd out)
  then show ?case by (simp add: queue_ok_def hands_def)
qed (simp_all add: handle_line_queue restart_def Let_def)

lemma counts_ok_simps [simp]:
  "counts_ok parse (s\<lparr>rn_stop := b\<rparr>) = counts_ok parse s" "counts_ok parse (s\<lparr>rn_proc := pr\<rparr>) = counts_ok parse s"
  "counts_ok parse (s\<lparr>rn_restarts := n\<rparr>) = counts_ok parse s" "counts_ok parse (s\<lparr>rn_writer := w\<rparr>) = counts_ok parse s"
  "counts_ok parse (s\<lparr>rn_readers := rs\<rparr>) = counts_ok parse s" "counts_ok parse (s\<lparr>rn_taken := n\<rparr>) = counts_ok parse s"
  "counts_ok parse (s\<lparr>dropped_queue_full := n\<rparr>) = counts_ok parse s" "counts_ok parse (s\<lparr>rn_queue := q\<rparr>) = counts_ok parse s"
  "counts_ok parse (s\<lparr>rn_arrived := q\<rparr>) = counts_ok parse s" "counts_ok parse (write_stats ok s) = counts_ok parse s"
  by (simp_all add: counts_ok_def failed_def)

lemma counts_ok_pc:
  "failed s = 0 \<Longrightarrow> \<nexists>e. p = Raised e \<Longrightarrow> counts_ok parse (s\<lparr>rn_pc := p\<rparr>) = counts_ok parse s"
  by (auto simp: counts_ok_def failed_def split: pc.splits)

lemma accepted_snoc: "accepted parse (ls @ [l]) = accepted parse ls @ (case parse l of Inr (Inr r) \<Rightarrow> [r] | _ \<Rightarrow> [])"
  by (simp add: accepted_def)

lemma handle_line_counts:
  assumes parse: "\<And>l e. parse l \<noteq> Inl e" and ok: "counts_ok parse s" "failed s = 0"
  shows "counts_ok parse (handle_line parse put e file_ok s)"
proof (cases "parse (hd (rn_queue s))")
  case (Inl er)
  then show ?thesis using parse by blast
next
  case (Inr x)
  show ?thesis
  proof (cases x)
    case (Inl r)
    then show ?thesis using ok \<open>parse _ = Inr x\<close>
      by (simp add: handle_line_def Let_def log_reject_def counts_ok_def accepted_snoc counter_inc_def sum_dset failed_def)
  next
    case (Inr r)
    then show ?thesis using ok \<open>parse _ = Inr x\<close>
      by (auto simp: handle_line_def Let_def counts_ok_def accepted_snoc failed_def split: prod.splits sum.splits)
  qed
qed

lemma env_counts: "env_step cfg s t \<Longrightarrow> counts_ok parse s \<Longrightarrow> counts_ok parse t"
  by (induction rule: env_step.induct) (simp_all add: put_line_def Let_def)

lemma main_counts:
  assumes "\<And>l e. parse l \<noteq> Inl e"
  shows "main_step cfg parse put flush close s t \<Longrightarrow> counts_ok parse s \<Longrightarrow> counts_ok parse t"
proof (induction rule: main_step.induct)
  case (consume s e ok)
  then show ?case by (intro handle_line_counts assms) (simp_all add: counts_ok_pc failed_def)
qed (simp_all add: handle_line_counts assms restart_def Let_def counts_ok_pc failed_def)

lemma env_restarts: "env_step cfg s t \<Longrightarrow> restarts_ok s \<Longrightarrow> restarts_ok t"
  by (induction rule: env_step.induct) (auto simp: put_line_def Let_def restarts_ok_def split: if_splits)

lemma handle_line_restarts: "restarts_ok s \<Longrightarrow> rn_pc s \<in> {Stats, Drain, FinalDrain} \<Longrightarrow> restarts_ok (handle_line parse put e ok s)"
  using handle_line_pc [of parse put e ok s] by (auto simp: restarts_ok_def)

lemma main_restarts: "main_step cfg parse put flush close s t \<Longrightarrow> restarts_ok s \<Longrightarrow> restarts_ok t"
proof (induction rule: main_step.induct)
  case (consume s e ok)
  then show ?case by (intro handle_line_restarts) (auto simp: restarts_ok_def)
next
  case (drain s e ok)
  then show ?case by (intro handle_line_restarts) auto
next
  case (final_drain s e ok)
  then show ?case by (intro handle_line_restarts) auto
next
  case (spawn s cmd out)
  then show ?case by (auto simp: restarts_ok_def max_restarts_def)
next
  case (crashed s)
  then show ?case by (auto simp: restarts_ok_def restart_def max_restarts_def Let_def)
qed (auto simp: restarts_ok_def split: if_splits)

definition runner_ok :: "runner_cfg \<Rightarrow> (string \<Rightarrow> (reject + capture_record) res) \<Rightarrow> 's runner \<Rightarrow> bool" where
  "runner_ok cfg parse s \<longleftrightarrow> queue_ok cfg s \<and> counts_ok parse s \<and> restarts_ok s"

lemma runner_init_ok: "runner_ok cfg parse (runner_init w)"
  by (simp add: runner_ok_def runner_init_def queue_ok_def hands_def counts_ok_def accepted_def failed_def restarts_ok_def)

lemma runner_step_ok:
  "(\<And>l e. parse l \<noteq> Inl e) \<Longrightarrow> runner_step cfg parse put flush close s t \<Longrightarrow> runner_ok cfg parse s \<Longrightarrow> runner_ok cfg parse t"
  unfolding runner_step_def runner_ok_def
  using env_queue env_counts env_restarts main_queue main_counts main_restarts by metis

lemma runner_reach_ok:
  assumes "\<And>l e. parse l \<noteq> Inl e" and "(runner_step cfg parse put flush close)\<^sup>*\<^sup>* (runner_init w) s"
  shows "runner_ok cfg parse s"
  using assms(2)
proof induction
  case base
  show ?case by (rule runner_init_ok)
next
  case (step s t)
  show ?case by (rule runner_step_ok [OF assms(1) step(2,3)])
qed

section \<open>The written lines\<close>

text \<open>With a writer that keeps a log, what is written are the lines of the records accepted, in order;
  a record whose write raised is the last one.\<close>

context line_log
begin

lemma handle_line_log:
  assumes parse: "\<And>l e. parse l \<noteq> Inl e" and ok: "counts_ok parse s" "failed s = 0"
    and log: "good (rn_writer s)"
      "out (rn_writer s) = before @ map (\<lambda>r. line (wrap r)) (take (records_written s) (accepted parse (rn_consumed s)))"
  shows "good (rn_writer (handle_line parse (\<lambda>e r. put e (wrap r)) e file_ok s))
    \<and> out (rn_writer (handle_line parse (\<lambda>e r. put e (wrap r)) e file_ok s))
      = before @ map (\<lambda>r. line (wrap r)) (take (records_written (handle_line parse (\<lambda>e r. put e (wrap r)) e file_ok s))
          (accepted parse (rn_consumed s @ [hd (rn_queue s)])))"
proof -
  have n: "records_written s = length (accepted parse (rn_consumed s))" using ok by (simp add: counts_ok_def)
  obtain x where x: "parse (hd (rn_queue s)) = Inr x" using parse by (cases "parse (hd (rn_queue s))") auto
  show ?thesis
  proof (cases x)
    case (Inl r)
    then show ?thesis using log n x by (simp add: handle_line_def log_reject_def Let_def accepted_snoc)
  next
    case (Inr r)
    obtain w y where w: "put e (wrap r) (rn_writer s) = (w, y)" by (cases "put e (wrap r) (rn_writer s)")
    show ?thesis
      using log n x Inr w log_write [OF log(1)] log_error [OF log(1)] log_write_good [OF log(1) w]
      by (cases y) (auto simp: handle_line_def Let_def accepted_snoc)
  qed
qed

lemma env_log:
  "env_step cfg s t \<Longrightarrow> rn_writer t = rn_writer s \<and> records_written t = records_written s \<and> rn_consumed t = rn_consumed s"
  by (induction rule: env_step.induct) (simp_all add: put_line_def Let_def)

lemma main_log:
  assumes parse: "\<And>l e. parse l \<noteq> Inl e"
    and "main_step cfg parse (\<lambda>e r. put e (wrap r)) flush close s t" "counts_ok parse s" "good (rn_writer s)"
      "out (rn_writer s) = before @ map (\<lambda>r. line (wrap r)) (take (records_written s) (accepted parse (rn_consumed s)))"
  shows "good (rn_writer t)
    \<and> out (rn_writer t) = before @ map (\<lambda>r. line (wrap r)) (take (records_written t) (accepted parse (rn_consumed t)))"
  using assms(2-)
proof (induction rule: main_step.induct)
  case (consume s e ok)
  have "counts_ok parse (s\<lparr>rn_pc := Stats\<rparr>)" "failed (s\<lparr>rn_pc := Stats\<rparr>) = 0"
    using consume by (simp_all add: counts_ok_pc failed_def)
  from handle_line_log [OF parse this, where before = before and wrap = wrap and e = e and file_ok = ok] show ?case using consume by simp
next
  case (drain s e ok)
  then show ?case using handle_line_log [OF parse, where s = s and before = before and wrap = wrap and e = e and file_ok = ok] by (simp add: failed_def)
next
  case (final_drain s e ok)
  then show ?case using handle_line_log [OF parse, where s = s and before = before and wrap = wrap and e = e and file_ok = ok] by (simp add: failed_def)
qed (simp_all add: log_flush log_close log_flush_good log_close_good restart_def Let_def)

lemma runner_log:
  assumes parse: "\<And>l e. parse l \<noteq> Inl e" and w: "good w"
    and "(runner_step cfg parse (\<lambda>e r. put e (wrap r)) flush close)\<^sup>*\<^sup>* (runner_init w) s"
  shows "good (rn_writer s)
    \<and> out (rn_writer s) = out w @ map (\<lambda>r. line (wrap r)) (take (records_written s) (accepted parse (rn_consumed s)))"
  using assms(3)
proof induction
  case base
  then show ?case using w by (simp add: runner_init_def accepted_def)
next
  case (step s t)
  have "counts_ok parse s" using runner_reach_ok [OF parse step(1)] by (simp add: runner_ok_def)
  then show ?case using step(2,3) main_log [OF parse] env_log [of cfg s t] unfolding runner_step_def by fastforce
qed

end

section \<open>Stopping\<close>

fun pc_rank :: "pc \<Rightarrow> nat" where
  "pc_rank (Returned _) = 0"
| "pc_rank (Raised _) = 0"
| "pc_rank GaveUp = 1"
| "pc_rank Closing = 1"
| "pc_rank FinalDrain = 2"
| "pc_rank Shutdown = 3"
| "pc_rank Supervise = 4"
| "pc_rank Ended = 5"
| "pc_rank After = 6"
| "pc_rank Consume = 7"
| "pc_rank Drain = 7"
| "pc_rank Poll = 8"
| "pc_rank Limit = 9"
| "pc_rank Stats = 10"
| "pc_rank Starting = 10"
| "pc_rank Get = 11"

text \<open>What is left to do once the stop flag is set.\<close>

definition reader_work :: "reader \<Rightarrow> nat" where
  "reader_work r = (if rd_hand r = None then 0 else 2) + (if rd_rest r = [] then 0 else 1)"

definition shutdown_bound :: "'s runner \<Rightarrow> nat" where
  "shutdown_bound s = sum_list (map reader_work (rn_readers s)) + length (rn_queue s)
     + (if rn_proc s = Running then 1 else 0) + pc_rank (rn_pc s)"

lemma handle_line_bound: "rn_queue s \<noteq> [] \<Longrightarrow> shutdown_bound (handle_line parse put e ok s) < shutdown_bound s"
proof -
  assume q: "rn_queue s \<noteq> []"
  have "pc_rank (rn_pc (handle_line parse put e ok s)) \<le> pc_rank (rn_pc s)"
    using handle_line_pc [of parse put e ok s] by auto
  then show ?thesis using q by (cases "rn_queue s") (simp_all add: shutdown_bound_def)
qed

lemma env_stop: "env_step cfg s t \<Longrightarrow> rn_stop s \<Longrightarrow> rn_stop t \<and> rn_pc t = rn_pc s \<and> shutdown_bound t < shutdown_bound s"
proof (induction rule: env_step.induct)
  case (reader_stops i s l ls)
  then show ?case using sum_list_map_update [of i "rn_readers s" reader_work "Reader None []"]
    by (simp add: shutdown_bound_def reader_work_def)
next
  case (put i s l)
  then show ?case
    using sum_list_map_update [of i "rn_readers s" reader_work "Reader None (rd_rest (rn_readers s ! i))"]
    by (auto simp: shutdown_bound_def put_line_def Let_def reader_work_def split: if_splits)
qed (simp_all add: shutdown_bound_def)

text \<open>The places from which \<open>run\<close> may still return 1 when the flag is set: the condition of the outer loop has been
  tested, or the process has been found to have ended.\<close>

definition may_fail :: "pc \<Rightarrow> bool" where
  "may_fail p \<longleftrightarrow> p \<in> {Starting, Ended, GaveUp}"

lemma main_stop:
  "main_step cfg parse put flush close s t \<Longrightarrow> rn_stop s \<Longrightarrow>
     rn_stop t \<and> shutdown_bound t < shutdown_bound s \<and> (may_fail (rn_pc t) \<longrightarrow> may_fail (rn_pc s))
     \<and> (\<forall>c. rn_pc t = Returned c \<longrightarrow> c = 0 \<or> c = 1 \<and> may_fail (rn_pc s))"
proof (induction rule: main_step.induct)
  case (consume s e ok)
  then show ?case using handle_line_bound [of "s\<lparr>rn_pc := Stats\<rparr>" parse put e ok]
      handle_line_pc [of parse put e ok "s\<lparr>rn_pc := Stats\<rparr>"]
    by (auto simp: shutdown_bound_def may_fail_def)
next
  case (drain s e ok)
  then show ?case using handle_line_bound [of s] handle_line_pc [of parse put e ok s] by (auto simp: may_fail_def)
next
  case (final_drain s e ok)
  then show ?case using handle_line_bound [of s] handle_line_pc [of parse put e ok s] by (auto simp: may_fail_def)
qed (simp_all add: shutdown_bound_def may_fail_def reader_work_def restart_def Let_def)

lemma main_progress:
  assumes "\<nexists>c. rn_pc s = Returned c" "\<nexists>e. rn_pc s = Raised e"
  shows "\<exists>t. main_step cfg parse put flush close s t"
proof (cases "rn_pc s")
  case Supervise
  then show ?thesis using supervise supervise_ends by (metis not_le)
next
  case Consume
  then show ?thesis using consume_ends consume_next by metis
next
  case Get
  then show ?thesis using consume consume_empty by metis
next
  case After
  then show ?thesis using stopped not_stopped by metis
next
  case Ended
  then show ?thesis using clean_exit crashed by metis
next
  case Poll
  then show ?thesis using still_running has_exited by metis
next
  case Drain
  then show ?thesis using drain drained by metis
next
  case FinalDrain
  then show ?thesis using final_drain final_drained by metis
qed (use assms spawn_fails give_up stats_not_due limit_not_hit terminate close_writer in \<open>metis+\<close>)

text \<open>Giving up after the last restart leaves the writer open and the statistics file as it was.\<close>

lemma give_up_skips_close:
  assumes "main_step cfg parse put flush close s t" "main_step cfg parse put flush close t u"
    and "rn_pc s = Ended" "rn_proc s \<noteq> Exited 0" "rn_restarts s = 5"
  shows "rn_pc u = Returned 1 \<and> rn_writer u = rn_writer s \<and> capture_stats u = capture_stats s"
proof -
  have t: "t = restart s" using assms(1,3,4) by (cases rule: main_step.cases) auto
  then have p: "rn_pc t = GaveUp" "rn_writer t = rn_writer s" "capture_stats t = capture_stats s"
    using assms(5) by (simp_all add: restart_def max_restarts_def)
  from assms(2) p(1) have "u = t\<lparr>rn_pc := Returned 1\<rparr>" by (cases rule: main_step.cases) auto
  with p show ?thesis by simp
qed

section \<open>Properties\<close>

text \<open>C3: The accounts of the runner.  Whatever the interleaving of the reader threads, the processes, the
  signals and the main thread: the lines leave the queue in the order they entered it, the queue stays
  within its size, every line a reader took is consumed, queued, dropped (and counted) or still in its
  hand, every consumed line is written or rejected (but the one whose write raised), and at most six
  processes are started.
\<close>
theorem runner_accounts:
  assumes run: "(runner_step cfg (capture_line exc show) put flush close)\<^sup>*\<^sup>* (runner_init w) s"
  shows "rn_consumed s @ rn_queue s = rn_arrived s \<and> frames_seen s = length (rn_consumed s)
    \<and> rn_taken s = frames_seen s + length (rn_queue s) + dropped_queue_full s + hands s
    \<and> (0 < rc_queue_size cfg \<longrightarrow> int (length (rn_queue s)) \<le> rc_queue_size cfg)
    \<and> int (frames_seen s) = int (records_written s) + sum_list (map snd (rejects_by_reason s)) + int (failed s)
    \<and> rn_restarts s \<le> 6 \<and> length (rn_readers s) \<le> 6"
proof -
  have "runner_ok cfg (capture_line exc show) s"
    by (rule runner_reach_ok [OF _ run]) (metis capture_line_total sum.distinct(1))
  then have q: "queue_ok cfg s" and c: "counts_ok (capture_line exc show) s" and r: "restarts_ok s"
    by (simp_all add: runner_ok_def)
  then have "length (rn_arrived s) = length (rn_consumed s) + length (rn_queue s)"
    unfolding queue_ok_def by (metis length_append)
  then show ?thesis using q c r unfolding queue_ok_def counts_ok_def restarts_ok_def by auto
qed

text \<open>C2: From the packets to the files.  At every moment of a run with the rotating CSV writer, unless a
  write raised, the files hold what they held before followed by the CSV lines of exactly the consumed
  lines the parser accepts, in the order of their arrival, and each of these records satisfies the
  contract.  When the runner has returned 0 with idle readers and nothing arrived late, every line taken
  was written, rejected or counted as dropped.
\<close>
theorem capture_to_csv:
  assumes w: "csv_good B n w"
    and run: "(runner_step cfg (capture_line exc show) (\<lambda>e r. csv_put show e (RObj r)) csv_flush csv_close)\<^sup>*\<^sup>* (runner_init w) s"
    and ok: "\<nexists>e. rn_pc s = Raised e"
  shows "csv_out (rn_writer s)
      = csv_out w @ map (\<lambda>r. to_csv_row show r @ [newline]) (accepted (capture_line exc show) (rn_consumed s))
    \<and> (\<forall>r \<in> set (accepted (capture_line exc show) (rn_consumed s)). validate_record show (to_dict r) = Inr (True, ''OK''))
    \<and> (rn_pc s = Returned 0 \<and> rn_queue s = [] \<and> hands s = 0 \<longrightarrow>
        int (rn_taken s) = int (length (csv_out (rn_writer s))) - int (length (csv_out w))
          + sum_list (map snd (rejects_by_reason s)) + int (dropped_queue_full s))"
proof -
  let ?parse = "capture_line exc show"
  have total: "?parse l \<noteq> Inl e" for l e by (metis capture_line_total sum.distinct(1))
  note log = csv.runner_log [OF total w run]
  have inv: "runner_ok cfg ?parse s" by (rule runner_reach_ok [OF total run])
  have "failed s = 0" using ok by (auto simp: failed_def split: pc.splits)
  then have n: "records_written s = length (accepted ?parse (rn_consumed s))"
    using inv by (simp add: runner_ok_def counts_ok_def)
  have line: "the_line (csv_line show (RObj r)) = to_csv_row show r @ [newline]" for r
    by (simp add: csv_line_def to_csv_row_def)
  have files: "csv_out (rn_writer s) = csv_out w @ map (\<lambda>r. to_csv_row show r @ [newline]) (accepted ?parse (rn_consumed s))"
    using log n by (simp add: line)
  moreover have "validate_record show (to_dict r) = Inr (True, ''OK'')" if "r \<in> set (accepted ?parse (rn_consumed s))" for r
    using that capture_accepted(3) by (auto simp: accepted_def validate_to_dict split: sum.splits)
  moreover have "rn_queue s = [] \<and> hands s = 0 \<Longrightarrow> int (rn_taken s) = int (length (csv_out (rn_writer s))) - int (length (csv_out w))
      + sum_list (map snd (rejects_by_reason s)) + int (dropped_queue_full s)"
    using inv files by (auto simp: runner_ok_def queue_ok_def counts_ok_def)
  ultimately show ?thesis by blast
qed

text \<open>C35: Shutdown ends.  Once the stop flag is set, whoever set it, every run of the readers, the processes and the
  main thread is finite, with an explicit bound, and it can end only when \<open>run\<close> has returned 0, or an exception of the
  parser or of the writer has left it, or when it has returned 1 and the main thread was, as we start to look, past a
  test of the flag: starting a process, looking at the exit code of one, or giving up after the last restart.
\<close>
theorem stop_terminates:
  assumes stop: "rn_stop s" "\<nexists>c. rn_pc s = Returned c"
  shows "(\<forall>k t. (runner_step cfg parse put flush close ^^ k) s t \<longrightarrow> k \<le> shutdown_bound s)
    \<and> (\<forall>t. (runner_step cfg parse put flush close)\<^sup>*\<^sup>* s t \<and> (\<nexists>u. runner_step cfg parse put flush close t u)
        \<longrightarrow> rn_pc t = Returned 0 \<or> (\<exists>e. rn_pc t = Raised e) \<or> rn_pc t = Returned 1 \<and> rn_pc s \<in> {Starting, Ended, GaveUp})"
proof -
  let ?R = "runner_step cfg parse put flush close"
  have dec: "?R a b \<Longrightarrow> rn_stop a \<Longrightarrow> rn_stop b \<and> shutdown_bound b < shutdown_bound a" for a b
    unfolding runner_step_def using env_stop main_stop by blast
  have "(?R ^^ k) s t \<Longrightarrow> rn_stop t \<and> k + shutdown_bound t \<le> shutdown_bound s" for k t
    by (induction k arbitrary: t) (use stop dec in \<open>fastforce+\<close>)
  moreover have "?R\<^sup>*\<^sup>* s t \<Longrightarrow> rn_stop t \<and> (may_fail (rn_pc t) \<longrightarrow> may_fail (rn_pc s))
      \<and> (\<forall>c. rn_pc t = Returned c \<longrightarrow> c = 0 \<or> c = 1 \<and> may_fail (rn_pc s))" for t
  proof (induction rule: rtranclp_induct)
    case (step a b)
    from step(2) show ?case unfolding runner_step_def
    proof
      assume "env_step cfg a b"
      with step(3) show ?thesis using env_stop [of cfg a b] by simp
    next
      assume "main_step cfg parse put flush close a b"
      with step(3) show ?thesis using main_stop [of cfg parse put flush close a b] by blast
    qed
  qed (use stop in auto)
  moreover have "(\<exists>c. rn_pc t = Returned c) \<or> (\<exists>e. rn_pc t = Raised e)" if "\<nexists>u. ?R t u" for t
    using that main_progress [of t] unfolding runner_step_def by blast
  ultimately show ?thesis unfolding may_fail_def by (metis le_add1 order_trans)
qed

section \<open>A run\<close>

lemma finish_run:
  assumes s: "rn_pc s = Stats" "\<not> rn_stop s" "rn_queue s = []" "rn_proc s = Running"
  shows "\<exists>t. (runner_step cfg parse put flush close)\<^sup>*\<^sup>* s t \<and> rn_pc t = Returned 0 \<and> rn_queue t = []
    \<and> rn_readers t = rn_readers s \<and> rn_consumed t = rn_consumed s"
proof -
  let ?R = "runner_step cfg parse put flush close"
  let ?a = "s\<lparr>rn_pc := Limit\<rparr>"
  let ?b = "?a\<lparr>rn_pc := Poll\<rparr>"
  let ?c = "?b\<lparr>rn_proc := Exited 0\<rparr>"
  let ?d = "?c\<lparr>rn_pc := Drain\<rparr>"
  let ?e = "?d\<lparr>rn_pc := After\<rparr>"
  let ?e' = "?e\<lparr>rn_pc := Ended\<rparr>"
  let ?f = "?e'\<lparr>rn_pc := Shutdown\<rparr>"
  let ?g = "?f\<lparr>rn_proc := (if rn_proc ?f = Running then Exited 0 else rn_proc ?f), rn_pc := FinalDrain\<rparr>"
  let ?h = "?g\<lparr>rn_pc := Closing\<rparr>"
  let ?t = "write_stats True (?h\<lparr>rn_writer := close undefined (flush undefined (rn_writer ?h)), rn_pc := Returned 0\<rparr>)"
  have m: "main_step cfg parse put flush close x y \<Longrightarrow> ?R x y" for x y by (simp add: runner_step_def)
  have "?R s ?a" by (rule m, rule stats_not_due) (rule s)
  moreover have "?R ?a ?b" by (rule m, rule limit_not_hit) simp
  moreover have "?R ?b ?c" unfolding runner_step_def by (rule disjI1, rule env_step.exit) (simp add: s)
  moreover have "?R ?c ?d" by (rule m, rule has_exited) simp_all
  moreover have "?R ?d ?e" by (rule m, rule drained) (simp_all add: s)
  moreover have "?R ?e ?e'" by (rule m, rule not_stopped) (simp_all add: s)
  moreover have "?R ?e' ?f" by (rule m, rule clean_exit) (simp_all add: s)
  moreover have "?R ?f ?g" by (rule m, rule terminate) simp
  moreover have "?R ?g ?h" by (rule m, rule final_drained) (simp_all add: s)
  moreover have "?R ?h ?t" by (rule m, rule close_writer) simp
  ultimately have "?R\<^sup>*\<^sup>* s ?t" by (meson rtranclp.rtrancl_into_rtrancl rtranclp.rtrancl_refl)
  then show ?thesis by (intro exI [of _ ?t]) (simp add: s)
qed

definition example_cfg :: runner_cfg where
  "example_cfg = \<lparr>rc_iface = ''eth0'', rc_filter = None, rc_duration = None, rc_queue_size = 10000,
     rc_tshark_path = ''tshark'', rc_extra_args = []\<rparr>"

abbreviation example_show :: "real \<Rightarrow> string" where "example_show \<equiv> \<lambda>x. int_str \<lfloor>x\<rfloor>"

abbreviation example_step :: "csv_writer runner \<Rightarrow> csv_writer runner \<Rightarrow> bool" where
  "example_step \<equiv> runner_step example_cfg (capture_line (\<lambda>_. []) example_show) (\<lambda>e r. csv_put example_show e (RObj r)) csv_flush csv_close"

lemma example_put: "\<exists>w. csv_put example_show 0 (RObj r) (csv_writer_init 60 10 []) = (w, Inr ())"
  using from_timestamp_0
  by (auto simp: csv_put_def rotate_if_needed_def should_rotate_def open_new_file_def close_current_def csv_line_def
      append_line_def csv_writer_init_def Let_def)

text \<open>TShark prints one line and exits with code 0.\<close>

lemma example_run:
  "\<exists>s. example_step\<^sup>*\<^sup>* (runner_init (csv_writer_init 60 10 [])) s \<and> rn_pc s = Returned 0 \<and> rn_queue s = []
    \<and> hands s = 0 \<and> rn_consumed s = [example_raw]"
proof -
  let ?parse = "capture_line (\<lambda>_. []) example_show" and ?put = "\<lambda>e r. csv_put example_show e (RObj r)"
  let ?s0 = "runner_init (csv_writer_init 60 10 [])"
  let ?s0' = "?s0\<lparr>rn_pc := Starting\<rparr>"
  let ?s1 = "?s0'\<lparr>rn_proc := Running, rn_readers := rn_readers ?s0' @ [Reader None [example_raw]], rn_pc := Consume\<rparr>"
  let ?s2 = "?s1\<lparr>rn_readers := (rn_readers ?s1)[0 := Reader (Some example_raw) []], rn_taken := rn_taken ?s1 + 1\<rparr>"
  let ?s3 = "put_line example_cfg 0 example_raw ?s2"
  let ?s3' = "?s3\<lparr>rn_pc := Get\<rparr>"
  let ?s4 = "handle_line ?parse ?put 0 True (?s3'\<lparr>rn_pc := Stats\<rparr>)"
  obtain cmd where cmd: "start_command example_cfg = Inr cmd"
    by (simp add: start_command_def example_cfg_def build_command_def Let_def)
  have "example_step ?s0 ?s0'" unfolding runner_step_def
    by (rule disjI2, rule supervise) (simp_all add: runner_init_def)
  moreover have "example_step ?s0' ?s1" unfolding runner_step_def
    by (rule disjI2, rule spawn) (simp_all add: cmd)
  moreover have "example_step ?s1 ?s2" unfolding runner_step_def
    by (rule disjI1, rule take_line) (simp_all add: runner_init_def)
  moreover have "example_step ?s2 ?s3" unfolding runner_step_def
    by (rule disjI1, rule env_step.put) (simp_all add: runner_init_def)
  moreover have s3: "rn_pc ?s3 = Consume" "\<not> rn_stop ?s3" "rn_queue ?s3 = [example_raw]" "rn_proc ?s3 = Running"
    "rn_readers ?s3 = [Reader None []]" "rn_consumed ?s3 = []" "rn_writer ?s3 = csv_writer_init 60 10 []"
    by (simp_all add: put_line_def runner_init_def queue_full_def example_cfg_def Let_def)
  then have "example_step ?s3 ?s3'" unfolding runner_step_def by (intro disjI2 consume_next) simp_all
  moreover have "example_step ?s3' ?s4" using s3(3) unfolding runner_step_def by (intro disjI2 consume) simp_all
  ultimately have run: "example_step\<^sup>*\<^sup>* ?s0 ?s4" by (meson rtranclp.rtrancl_into_rtrancl rtranclp.rtrancl_refl)
  obtain w where w: "csv_put example_show 0 (RObj example_record) (csv_writer_init 60 10 []) = (w, Inr ())"
    using example_put by blast
  have s4: "rn_pc ?s4 = Stats" using s3 w example_capture by (simp add: handle_line_def Let_def)
  obtain t where "example_step\<^sup>*\<^sup>* ?s4 t" "rn_pc t = Returned 0" "rn_queue t = []" "rn_readers t = rn_readers ?s4"
    "rn_consumed t = rn_consumed ?s4"
    using finish_run [OF s4, of example_cfg ?parse ?put csv_flush csv_close] s3 by auto
  then show ?thesis using run s3 by (intro exI [of _ t]) (auto simp: hands_def)
qed

theorem runner_accounts_witness:
  "\<exists>s. example_step\<^sup>*\<^sup>* (runner_init (csv_writer_init 60 10 [])) s \<and> rn_pc s = Returned 0 \<and> frames_seen s = 1
    \<and> rn_taken s = 1 + dropped_queue_full s"
proof -
  obtain s where s: "example_step\<^sup>*\<^sup>* (runner_init (csv_writer_init 60 10 [])) s" "rn_pc s = Returned 0" "rn_queue s = []"
    "hands s = 0" "rn_consumed s = [example_raw]" using example_run by blast
  show ?thesis using runner_accounts [OF s(1)] s by (intro exI [of _ s]) auto
qed

theorem capture_to_csv_witness:
  "\<exists>s. example_step\<^sup>*\<^sup>* (runner_init (csv_writer_init 60 10 [])) s \<and> rn_pc s = Returned 0
    \<and> csv_out (rn_writer s) = [to_csv_row example_show example_record @ [newline]]"
proof -
  obtain s where s: "example_step\<^sup>*\<^sup>* (runner_init (csv_writer_init 60 10 [])) s" "rn_pc s = Returned 0" "rn_queue s = []"
    "hands s = 0" "rn_consumed s = [example_raw]" using example_run by blast
  have g: "csv_good (10 * 1024 * 1024) 0 (csv_writer_init 60 10 [])" using csv_init_good [of "[]" 10 60] by simp
  have "csv_out (csv_writer_init 60 10 []) = []" by (simp add: csv_out_def csv_writer_init_def)
  moreover have "accepted (capture_line (\<lambda>_. []) example_show) [example_raw] = [example_record]"
    by (simp add: accepted_def example_capture)
  ultimately show ?thesis using capture_to_csv [OF g s(1)] s by (intro exI [of _ s]) simp
qed

theorem stop_terminates_witness:
  "\<forall>t. \<not> (example_step ^^ 5) ((runner_init (csv_writer_init 60 10 []))\<lparr>rn_stop := True\<rparr>) t"
  using stop_terminates [of "(runner_init (csv_writer_init 60 10 []))\<lparr>rn_stop := True\<rparr>" example_cfg
      "capture_line (\<lambda>_. []) example_show" "\<lambda>e r. csv_put example_show e (RObj r)" csv_flush csv_close]
  by (auto simp: runner_init_def shutdown_bound_def)

end
