(* ===== verification/Interfaces.thy ===== *)
theory Interfaces
  imports Pytext "HOL-Library.Sublist"
begin

text \<open>
  The interface listing, \<open>capture/list_interfaces.py\<close>: parsing \<open>tshark -D\<close> and \<open>ip -o addr\<close>, the detection
  of wireless interfaces, the choice of one and the printed table.  The results of the subprocesses, the
  files under \<open>/sys\<close> and \<open>psutil\<close> are parameters.
\<close>

section \<open>Lines and words\<close>

definition is_break :: "char \<Rightarrow> bool" where
  "is_break c = (let n = of_char c :: nat in (10 \<le> n \<and> n \<le> 13) \<or> (28 \<le> n \<and> n \<le> 30))"

text \<open>\<open>s.splitlines()\<close>, with the characters of the line read so far.\<close>

fun lines_from :: "string \<Rightarrow> string \<Rightarrow> string list" where
  "lines_from acc [] = (if acc = [] then [] else [acc])"
| "lines_from acc [c] = [if is_break c then acc else acc @ [c]]"
| "lines_from acc (c # d # cs) =
     (if c = CHR 0x0D \<and> d = CHR 0x0A then acc # lines_from [] cs
      else if is_break c then acc # lines_from [] (d # cs)
      else lines_from (acc @ [c]) (d # cs))"

definition splitlines :: "string \<Rightarrow> string list" where
  "splitlines s = lines_from [] s"

text \<open>The first word, what follows it, and all the words of \<open>s.split()\<close>.\<close>

definition first_word :: "string \<Rightarrow> string" where
  "first_word s = takeWhile (\<lambda>c. \<not> is_space c) (dropWhile is_space s)"

definition after_word :: "string \<Rightarrow> string" where
  "after_word s = dropWhile (\<lambda>c. \<not> is_space c) (dropWhile is_space s)"

lemma length_after_word: "length (after_word s) \<le> length s"
  unfolding after_word_def by (rule le_trans [OF length_dropWhile_le length_dropWhile_le])

lemma after_word_less: "first_word s \<noteq> [] \<Longrightarrow> length (after_word s) < length s"
proof -
  assume "first_word s \<noteq> []"
  then have "length (after_word s) < length (first_word s @ after_word s)" by simp
  also have "first_word s @ after_word s = dropWhile is_space s" by (simp add: first_word_def after_word_def)
  finally show ?thesis using length_dropWhile_le [of is_space s] by simp
qed

function split_words :: "string \<Rightarrow> string list" where
  "split_words s = (if first_word s = [] then [] else first_word s # split_words (after_word s))"
  by pat_completeness auto
termination
  by (relation "measure length") (simp_all add: after_word_less)

declare split_words.simps [simp del]

section \<open>Interfaces\<close>

record interface =
  if_index :: int
  if_name :: string
  if_description :: string
  if_wireless :: bool
  if_has_ip :: bool
  if_ip :: "string option"

text \<open>\<open>_TSHARK_D_LINE_RE\<close> on a stripped line: the number, the name and the description if there is one.\<close>

definition match_d_line :: "string \<Rightarrow> (string \<times> string \<times> string option) option" where
  "match_d_line line =
     (let ds = takeWhile is_digit line
      in case dropWhile is_digit line of
           [] \<Rightarrow> None
         | dot # r \<Rightarrow>
             if ds = [] \<or> dot \<noteq> CHR ''.'' \<or> r = [] \<or> \<not> is_space (hd r) \<or> first_word r = [] then None
             else let name = first_word r; tail = lstrip_by is_space (after_word r)
                  in if tail = [] then Some (ds, name, None)
                     else if 2 \<le> length tail \<and> hd tail \<in> {CHR ''('', CHR ''[''} \<and> last tail \<in> {CHR '')'', CHR '']''}
                     then Some (ds, name, Some (butlast (tl tail)))
                     else None)"

definition wireless_indicators :: "string list" where
  "wireless_indicators = [''wlan'', ''wlp'', ''wls'', ''wl'', ''wi-fi'', ''wifi'', ''wireless'', ''802.11'', ''air'']"

definition check_is_wireless :: "(string \<Rightarrow> bool) \<Rightarrow> string \<Rightarrow> string \<Rightarrow> bool" where
  "check_is_wireless exists_path name desc =
     (exists_path (''/sys/class/net/'' @ name @ ''/wireless'')
      \<or> (\<exists>ind \<in> set wireless_indicators. sublist ind (lower name) \<or> sublist ind (lower desc)))"

definition new_interface :: "(string \<Rightarrow> bool) \<Rightarrow> int \<Rightarrow> string \<Rightarrow> string \<Rightarrow> interface" where
  "new_interface exists_path idx name desc =
     \<lparr>if_index = idx, if_name = name, if_description = desc, if_wireless = check_is_wireless exists_path name desc,
      if_has_ip = False, if_ip = None\<rparr>"

definition is_bracket :: "char \<Rightarrow> bool" where
  "is_bracket c \<longleftrightarrow> c \<in> set '' ()[]''"

text \<open>The line as the expression matches it, or by its parts when it does not.\<close>

definition parse_d_line :: "(string \<Rightarrow> bool) \<Rightarrow> string \<Rightarrow> interface list" where
  "parse_d_line exists_path raw =
     (let line = strip raw
      in if line = [] then []
         else case match_d_line line of
           Some (ds, name, desc) \<Rightarrow>
             [new_interface exists_path (int (digits_val ds)) name (case desc of None \<Rightarrow> [] | Some d \<Rightarrow> d)]
         | None \<Rightarrow>
             let p = first_word line; others = lstrip_by is_space (after_word line)
             in if last p \<noteq> CHR ''.'' then []
                else case py_int (butlast p) of
                  None \<Rightarrow> []
                | Some idx \<Rightarrow>
                    let name = (if others \<noteq> [] then first_word others else p);
                        desc = (if length others > length name
                                then rstrip_by is_bracket (lstrip_by is_bracket (drop (length name) others)) else [])
                    in [new_interface exists_path idx name desc])"

definition parse_tshark_d_output :: "(string \<Rightarrow> bool) \<Rightarrow> string \<Rightarrow> interface list" where
  "parse_tshark_d_output exists_path output = concat (map (parse_d_line exists_path) (splitlines (strip output)))"

section \<open>Addresses\<close>

text \<open>The outcome of a subprocess: \<open>None\<close> when it raised, else its return code and output.\<close>

type_synonym outcome = "(int \<times> string) option"

definition add_ip_line :: "string \<Rightarrow> (string, string) dict \<Rightarrow> (string, string) dict" where
  "add_ip_line line ips =
     (let parts = split_words line
      in if 4 \<le> length parts \<and> (parts ! 2 = ''inet'' \<or> parts ! 2 = ''inet6'')
         then if dget ips (parts ! 1) = None \<or> parts ! 2 = ''inet''
              then dset (parts ! 1) (hd (split_on (CHR ''/'') (parts ! 3))) ips else ips
         else ips)"

definition interface_ips_linux :: "outcome \<Rightarrow> (string, string) dict" where
  "interface_ips_linux res =
     (case res of None \<Rightarrow> [] | Some (code, out) \<Rightarrow> if code = 0 then fold add_ip_line (splitlines out) [] else [])"

text \<open>\<open>psutil.net_if_addrs()\<close> as pairs of a family name and an address, \<open>None\<close> when it cannot be imported.\<close>

fun first_addresses :: "string \<Rightarrow> (string \<times> string) list \<Rightarrow> (string, string) dict \<Rightarrow> (string, string) dict" where
  "first_addresses iface [] ips = ips"
| "first_addresses iface ((family, address) # addrs) ips =
     (if (family = ''AF_INET'' \<or> family = ''AF_INET6'') \<and> address \<noteq> [] \<and> take 4 address \<noteq> ''127.''
      then if family = ''AF_INET'' then dset iface address ips
           else first_addresses iface addrs (dset iface address ips)
      else first_addresses iface addrs ips)"

definition interface_ips_fallback :: "(string \<times> (string \<times> string) list) list option \<Rightarrow> (string, string) dict" where
  "interface_ips_fallback psutil =
     (case psutil of None \<Rightarrow> [] | Some ifs \<Rightarrow> fold (\<lambda>(iface, addrs). first_addresses iface addrs) ifs [])"

definition ip_matches :: "interface \<Rightarrow> string \<Rightarrow> bool" where
  "ip_matches i name \<longleftrightarrow> lower name = lower (if_name i) \<or> sublist (lower name) (lower (if_description i))
     \<or> sublist (lower (if_name i)) (lower name)"

definition enrich_interface :: "(string, string) dict \<Rightarrow> interface \<Rightarrow> interface" where
  "enrich_interface ips i =
     (case find (\<lambda>(name, _). ip_matches i name) ips of
        None \<Rightarrow> i
      | Some (_, ip) \<Rightarrow> i\<lparr>if_has_ip := True, if_ip := Some ip\<rparr>)"

definition enrich_interfaces ::
  "bool \<Rightarrow> outcome \<Rightarrow> (string \<times> (string \<times> string) list) list option \<Rightarrow> interface list \<Rightarrow> interface list" where
  "enrich_interfaces is_nt ip_addr psutil ifs =
     (let ips = (if is_nt then [] else interface_ips_linux ip_addr);
          ips = (if ips = [] then interface_ips_fallback psutil else ips)
      in map (enrich_interface ips) ifs)"

definition list_interfaces ::
  "(string \<Rightarrow> bool) \<Rightarrow> bool \<Rightarrow> outcome \<Rightarrow> outcome \<Rightarrow> (string \<times> (string \<times> string) list) list option \<Rightarrow> interface list" where
  "list_interfaces exists_path is_nt tshark ip_addr psutil =
     (case tshark of
        None \<Rightarrow> []
      | Some (code, out) \<Rightarrow>
          if code = 0 then enrich_interfaces is_nt ip_addr psutil (parse_tshark_d_output exists_path out) else [])"

section \<open>The table and the choice\<close>

definition table_headers :: "string list" where
  "table_headers = [''#'', ''Name'', ''Description'', ''Wireless?'', ''Has IP?'', ''IP Address'']"

definition table_row :: "interface \<Rightarrow> string list" where
  "table_row i =
     [int_str (if_index i), if_name i, if if_description i = [] then ''-'' else if_description i,
      if if_wireless i then ''Yes'' else ''No'', if if_has_ip i then ''Yes'' else ''No'',
      case if_ip i of None \<Rightarrow> ''-'' | Some a \<Rightarrow> if a = [] then ''-'' else a]"

definition col_widths :: "string list list \<Rightarrow> nat list" where
  "col_widths rows = fold (\<lambda>row ws. map2 (\<lambda>w v. max w (length v)) ws row) rows (map length table_headers)"

definition ljust :: "nat \<Rightarrow> string \<Rightarrow> string" where
  "ljust w s = s @ replicate (w - length s) (CHR '' '')"

definition table_lines :: "interface list \<Rightarrow> string list" where
  "table_lines ifs =
     (let rows = map table_row ifs; ws = col_widths rows
      in [join ''  '' (map2 ljust ws table_headers), join ''  '' (map (\<lambda>w. replicate w (CHR ''-'')) ws)]
         @ map (\<lambda>row. join ''  '' (map2 ljust ws row)) rows)"

definition format_table :: "interface list \<Rightarrow> string" where
  "format_table ifs = join [CHR 0x0A] (table_lines ifs)"

definition auto_select_wifi :: "interface list \<Rightarrow> interface option" where
  "auto_select_wifi ifs =
     (case find (\<lambda>i. if_wireless i \<and> if_has_ip i) ifs of
        Some i \<Rightarrow> Some i
      | None \<Rightarrow> find if_wireless ifs)"

text \<open>\<open>main\<close>: the exit code with what is printed.\<close>

definition interfaces_main :: "bool \<Rightarrow> interface list \<Rightarrow> int \<times> string option" where
  "interfaces_main auto ifs =
     (if auto then (case auto_select_wifi ifs of Some i \<Rightarrow> (0, Some (if_name i)) | None \<Rightarrow> (2, None))
      else if ifs = [] then (1, Some ''No interfaces found or TShark is not installed/reachable.'')
      else (0, Some (format_table ifs)))"

section \<open>Lines of the table\<close>

lemma length_join: "length (join sep ps) = sum_list (map length ps) + (length ps - 1) * length sep"
  by (induction sep ps rule: join.induct) auto

lemma length_ljust: "length s \<le> w \<Longrightarrow> length (ljust w s) = w"
  by (simp add: ljust_def)

definition covers :: "nat list \<Rightarrow> string list \<Rightarrow> bool" where
  "covers ws row \<longleftrightarrow> list_all2 (\<lambda>w v. length v \<le> w) ws row"

definition widen :: "string list \<Rightarrow> nat list \<Rightarrow> nat list" where
  "widen row ws = map2 (\<lambda>w v. max w (length v)) ws row"

lemma widen_props:
  "length row = length ws \<Longrightarrow> length (widen row ws) = length ws \<and> covers (widen row ws) row \<and> list_all2 (\<le>) ws (widen row ws)"
  by (simp add: widen_def covers_def list_all2_conv_all_nth)

lemma covers_mono: "covers ws row \<Longrightarrow> list_all2 (\<le>) ws ws' \<Longrightarrow> covers ws' row"
  by (auto simp: covers_def list_all2_conv_all_nth) (metis le_trans)

lemma fold_widen:
  "\<forall>row \<in> set rows. length row = length ws \<Longrightarrow>
     length (fold widen rows ws) = length ws \<and> list_all2 (\<le>) ws (fold widen rows ws)
     \<and> (\<forall>row \<in> set rows. covers (fold widen rows ws) row)"
proof (induction rows arbitrary: ws)
  case (Cons row rows)
  note w = widen_props [of row ws]
  have "\<forall>r \<in> set rows. length r = length (widen row ws)" using Cons.prems w by simp
  note ih = Cons.IH [OF this]
  then have "list_all2 (\<le>) ws (fold widen rows (widen row ws))" "covers (fold widen rows (widen row ws)) row"
    using w Cons.prems covers_mono by (auto intro: list_all2_trans [OF order_trans])
  then show ?case using ih w Cons.prems by simp
qed (simp add: list_all2_refl)

lemma col_widths_fold: "col_widths rows = fold widen rows (map length table_headers)"
  unfolding col_widths_def by (rule fold_cong) (simp_all add: widen_def fun_eq_iff)

lemma length_table_row [simp]: "length (table_row i) = 6" "length table_headers = 6"
  by (simp_all add: table_row_def table_headers_def)

lemma line_length:
  assumes "covers ws row"
  shows "length (join ''  '' (map2 ljust ws row)) = sum_list ws + (length ws - 1) * 2"
proof -
  have n: "length row = length ws" using assms by (simp add: covers_def list_all2_lengthD)
  have "map length (map2 ljust ws row) = ws"
    using assms n by (intro nth_equalityI) (auto simp: covers_def list_all2_conv_all_nth length_ljust)
  then show ?thesis using n by (simp add: length_join)
qed

section \<open>Lines are read back\<close>

definition show_interface :: "nat \<times> string \<times> string \<Rightarrow> string" where
  "show_interface = (\<lambda>(k, name, desc). nat_str k @ ''. '' @ name @ '' ('' @ desc @ '')'')"

definition plain_interface :: "nat \<times> string \<times> string \<Rightarrow> bool" where
  "plain_interface = (\<lambda>(k, name, desc). name \<noteq> [] \<and> (\<forall>c \<in> set name. \<not> is_space c) \<and> (\<forall>c \<in> set desc. \<not> is_break c))"

lemma break_space: "is_break c \<Longrightarrow> is_space c"
  by (auto simp: is_break_def is_space_def Let_def)

lemma lines_from_line:
  "\<forall>c \<in> set l. \<not> is_break c \<Longrightarrow> lines_from acc (l @ CHR 0x0A # s) = (acc @ l) # lines_from [] s"
proof (induction l arbitrary: acc)
  case Nil
  have "is_break (CHR 0x0A)" by (simp add: is_break_def)
  then show ?case by (cases s) simp_all
next
  case (Cons c l)
  have "c \<noteq> CHR 0x0D" using Cons.prems by (auto simp: is_break_def)
  then show ?case using Cons by (cases "l @ CHR 0x0A # s") auto
qed

lemma lines_from_last: "\<forall>c \<in> set l. \<not> is_break c \<Longrightarrow> acc @ l \<noteq> [] \<Longrightarrow> lines_from acc l = [acc @ l]"
proof (induction l arbitrary: acc)
  case (Cons c l)
  have "c \<noteq> CHR 0x0D" using Cons.prems by (auto simp: is_break_def)
  then show ?case using Cons by (cases l) auto
qed simp

lemma splitlines_join:
  "\<forall>l \<in> set ls. l \<noteq> [] \<and> (\<forall>c \<in> set l. \<not> is_break c) \<Longrightarrow> splitlines (join [CHR 0x0A] ls) = ls"
proof (induction "[CHR 0x0A]" ls rule: join.induct)
  case (3 p q ps)
  then show ?case using lines_from_line [of p "[]" "join [CHR 0x0A] (q # ps)"] by (simp add: splitlines_def)
qed (simp_all add: splitlines_def lines_from_last)

lemma words_of_line:
  assumes "name \<noteq> []" "\<forall>c \<in> set name. \<not> is_space c"
  shows "first_word (CHR '' '' # name @ CHR '' '' # s) = name" "after_word (CHR '' '' # name @ CHR '' '' # s) = CHR '' '' # s"
proof -
  have sp: "is_space (CHR '' '')" by (simp add: is_space_def)
  have d: "dropWhile is_space (CHR '' '' # name @ CHR '' '' # s) = name @ CHR '' '' # s"
    using assms sp by (cases name) auto
  show "first_word (CHR '' '' # name @ CHR '' '' # s) = name"
    unfolding first_word_def d using assms sp by (simp add: takeWhile_append2)
  show "after_word (CHR '' '' # name @ CHR '' '' # s) = CHR '' '' # s"
    unfolding after_word_def d using assms sp by (simp add: dropWhile_append2)
qed

lemma show_interface_ends:
  "show_interface x \<noteq> []" "\<not> is_space (hd (show_interface x))" "last (show_interface x) = CHR '')''"
proof -
  obtain k name desc where x: "x = (k, name, desc)" by (cases x)
  have "nat_str k \<noteq> []" "\<forall>c \<in> set (nat_str k). is_digit c" using nat_str_props by blast+
  then show "show_interface x \<noteq> []" "\<not> is_space (hd (show_interface x))" "last (show_interface x) = CHR '')''"
    by (auto simp: show_interface_def x is_digit_plain)
qed

lemma parse_shown_line:
  assumes "plain_interface (k, name, desc)"
  shows "parse_d_line ex (show_interface (k, name, desc)) = [new_interface ex (int k) name desc]"
proof -
  let ?l = "show_interface (k, name, desc)" and ?r = "CHR '' '' # name @ CHR '' '' # CHR ''('' # desc @ '')''"
  have d: "\<forall>c \<in> set (nat_str k). is_digit c" "nat_str k \<noteq> []" "digits_val (nat_str k) = k"
    using nat_str_props by blast+
  have l: "?l = nat_str k @ CHR ''.'' # ?r" by (simp add: show_interface_def)
  have dot: "\<not> is_digit (CHR ''.'')" by (simp add: is_digit_def)
  have tw: "takeWhile is_digit ?l = nat_str k" "dropWhile is_digit ?l = CHR ''.'' # ?r"
    unfolding l using d(1) dot by (simp_all add: takeWhile_append2 dropWhile_append2)
  have nm: "name \<noteq> []" "\<forall>c \<in> set name. \<not> is_space c" using assms by (simp_all add: plain_interface_def)
  note w = words_of_line [OF nm, of "CHR ''('' # desc @ '')''"]
  have sp: "is_space (CHR '' '')" "\<not> is_space (CHR ''('')" by (simp_all add: is_space_def)
  then have "lstrip_by is_space (CHR '' '' # CHR ''('' # desc @ '')'') = CHR ''('' # desc @ '')''"
    by (simp add: lstrip_by_def)
  then have "match_d_line ?l = Some (nat_str k, name, Some desc)"
    using d(2) nm sp(1) unfolding match_d_line_def tw Let_def list.case w by (simp add: w)
  moreover have "strip ?l = ?l"
    using show_interface_ends [of "(k, name, desc)"] by (intro strip_id) (simp add: is_space_def)
  ultimately show ?thesis using show_interface_ends(1) d(3) by (simp add: parse_d_line_def)
qed

lemma shown_no_break:
  assumes "plain_interface x" "c \<in> set (show_interface x)"
  shows "\<not> is_break c"
proof -
  obtain k name desc where x: "x = (k, name, desc)" by (cases x)
  have "\<forall>c \<in> set (nat_str k). \<not> is_break c" "\<forall>c \<in> set name. \<not> is_break c"
    using nat_str_props [of k] is_digit_plain(6) break_space assms(1) unfolding x plain_interface_def by blast+
  moreover have "\<not> is_break (CHR ''.'')" "\<not> is_break (CHR '' '')" "\<not> is_break (CHR ''('')" "\<not> is_break (CHR '')'')"
    by (simp_all add: is_break_def)
  ultimately show ?thesis using assms by (auto simp: x show_interface_def plain_interface_def)
qed

lemma join_ends:
  "ps \<noteq> [] \<Longrightarrow> \<forall>p \<in> set ps. p \<noteq> [] \<Longrightarrow> hd (join sep ps) = hd (hd ps) \<and> last (join sep ps) = last (last ps) \<and> join sep ps \<noteq> []"
  by (induction sep ps rule: join.induct) auto

lemma strip_newline: "s \<noteq> [] \<Longrightarrow> \<not> is_space (hd s) \<Longrightarrow> \<not> is_space (last s) \<Longrightarrow> strip (s @ [CHR 0x0A]) = s"
proof -
  assume s: "s \<noteq> []" "\<not> is_space (hd s)" "\<not> is_space (last s)"
  then have "lstrip_by is_space (s @ [CHR 0x0A]) = s @ [CHR 0x0A]" by (cases s) (simp_all add: lstrip_by_def)
  moreover have "is_space (CHR 0x0A)" by (simp add: is_space_def)
  ultimately show ?thesis using s by (cases s rule: rev_cases) (simp_all add: strip_def rstrip_by_def)
qed

section \<open>Properties\<close>

text \<open>The table is aligned: two lines and one for each interface, all of the same length.
\<close>
theorem table_aligned:
  "length (table_lines ifs) = length ifs + 2
   \<and> (\<forall>l \<in> set (table_lines ifs). length l = sum_list (col_widths (map table_row ifs)) + 10)"
proof -
  let ?ws = "col_widths (map table_row ifs)"
  have w: "length ?ws = 6" "\<forall>row \<in> set (map table_row ifs). covers ?ws row" "covers ?ws table_headers"
    using fold_widen [of "map table_row ifs" "map length table_headers"] col_widths_fold [of "map table_row ifs"]
    by (auto simp: covers_def list_all2_conv_all_nth)
  have "length (join ''  '' (map (\<lambda>w. replicate w (CHR ''-'')) ?ws)) = sum_list ?ws + 10"
    using w(1) by (simp add: length_join o_def)
  then show ?thesis using w line_length [of ?ws] by (auto simp: table_lines_def Let_def)
qed

text \<open>The choice: \<open>--auto\<close> selects the first wireless interface with an address, without one the first
  wireless interface, and fails with exit code 2 exactly when no interface is wireless.
\<close>
theorem auto_select_spec:
  "(case auto_select_wifi ifs of
      Some i \<Rightarrow> i \<in> set ifs \<and> if_wireless i
        \<and> (if_has_ip i \<or> (\<forall>j \<in> set ifs. if_wireless j \<longrightarrow> \<not> if_has_ip j))
        \<and> (\<exists>k < length ifs. ifs ! k = i \<and> (\<forall>j < k. if_wireless (ifs ! j) \<longrightarrow> if_has_ip i \<and> \<not> if_has_ip (ifs ! j)))
        \<and> interfaces_main True ifs = (0, Some (if_name i))
    | None \<Rightarrow> (\<forall>j \<in> set ifs. \<not> if_wireless j) \<and> interfaces_main True ifs = (2, None))"
proof (cases "find (\<lambda>i. if_wireless i \<and> if_has_ip i) ifs")
  case (Some i)
  then obtain k where "k < length ifs" "if_wireless (ifs ! k) \<and> if_has_ip (ifs ! k)" "i = ifs ! k"
    "\<forall>j < k. \<not> (if_wireless (ifs ! j) \<and> if_has_ip (ifs ! j))" by (auto simp: find_Some_iff)
  then show ?thesis using Some by (auto simp: auto_select_wifi_def interfaces_main_def)
next
  case none: None
  then have n: "\<forall>j \<in> set ifs. if_wireless j \<longrightarrow> \<not> if_has_ip j" by (auto simp: find_None_iff)
  show ?thesis
  proof (cases "find if_wireless ifs")
    case (Some i)
    then obtain k where "k < length ifs" "if_wireless (ifs ! k)" "i = ifs ! k" "\<forall>j < k. \<not> if_wireless (ifs ! j)"
      by (auto simp: find_Some_iff)
    then show ?thesis using none Some n by (auto simp: auto_select_wifi_def interfaces_main_def)
  next
    case none': None
    then have "\<forall>j \<in> set ifs. \<not> if_wireless j" by (simp add: find_None_iff)
    moreover have "auto_select_wifi ifs = None" using none none' by (simp add: auto_select_wifi_def)
    ultimately show ?thesis by (simp add: interfaces_main_def)
  qed
qed

text \<open>C36: The listing of TShark is read back: for any interfaces whose names are words and whose
  descriptions hold no line break, the printed lines \<open>k. name (description)\<close> are parsed into exactly
  these interfaces, in order.
\<close>
theorem interfaces_roundtrip:
  assumes "\<forall>x \<in> set xs. plain_interface x"
  shows "parse_tshark_d_output ex (join [CHR 0x0A] (map show_interface xs) @ [CHR 0x0A])
    = map (\<lambda>(k, name, desc). new_interface ex (int k) name desc) xs"
proof (cases "xs = []")
  case True
  have "strip [CHR 0x0A] = []" by (simp add: strip_def lstrip_by_def rstrip_by_def is_space_def)
  then show ?thesis using True by (simp add: parse_tshark_d_output_def splitlines_def)
next
  case False
  let ?ls = "map show_interface xs"
  have ne: "\<forall>p \<in> set ?ls. p \<noteq> []" using show_interface_ends(1) by auto
  have e: "hd (join [CHR 0x0A] ?ls) = hd (show_interface (hd xs))" "last (join [CHR 0x0A] ?ls) = CHR '')''"
    "join [CHR 0x0A] ?ls \<noteq> []"
    using join_ends [OF _ ne] False show_interface_ends(3) by (auto simp: hd_map last_map)
  have "\<not> is_space (CHR '')'')" by (simp add: is_space_def)
  then have "strip (join [CHR 0x0A] ?ls @ [CHR 0x0A]) = join [CHR 0x0A] ?ls"
    using e show_interface_ends(2) by (intro strip_newline) auto
  moreover have "splitlines (join [CHR 0x0A] ?ls) = ?ls"
    using assms ne shown_no_break by (intro splitlines_join) auto
  moreover have "concat (map (\<lambda>x. parse_d_line ex (show_interface x)) xs) = map (\<lambda>(k, name, desc). new_interface ex (int k) name desc) xs"
    using assms by (induction xs) (auto simp: parse_shown_line)
  ultimately show ?thesis by (simp add: parse_tshark_d_output_def o_def)
qed

theorem interfaces_roundtrip_witness:
  "map if_name (parse_tshark_d_output (\<lambda>_. False)
     (join [CHR 0x0A] (map show_interface [(1, ''eth0'', ''LAN''), (2, ''wlan0'', ''Wi-Fi (5 GHz)'')]) @ [CHR 0x0A])) = [''eth0'', ''wlan0'']"
proof -
  have "\<forall>x \<in> set [(1, ''eth0'', ''LAN''), (2, ''wlan0'', ''Wi-Fi (5 GHz)'')]. plain_interface x"
    by (simp add: plain_interface_def is_space_def is_break_def)
  from interfaces_roundtrip [OF this, of "\<lambda>_. False"] show ?thesis by (simp add: new_interface_def)
qed

end
