(* ===== verification/Query_Sinks.thy ===== *)
theory Query_Sinks
  imports Serving_Db Pydate "HOL-Library.Word" "HOL-Library.Multiset"
begin

text \<open>
  The windowed streaming queries, \<open>streaming/queries\<close>: the aggregations they ask Spark for and the
  \<open>foreachBatch\<close> functions that write the emitted rows to the serving store.

  Spark is a parameter, the record \<open>spark\<close>; \<open>good_spark\<close> and \<open>update_mode\<close> state what its documentation
  promises.  Counts, sums and \<open>collect_set\<close> are SQL's.  The cast to \<open>int\<close> keeps 32 bits, as Spark 3.5
  does without ANSI mode.
\<close>

section \<open>Spark\<close>

text \<open>The time of a packet is in microseconds.\<close>

record packet_row =
  pk_time :: int
  pk_src_ip :: string
  pk_dst_ip :: string
  pk_dst_port :: "int option"
  pk_protocol :: string
  pk_length :: int
  pk_iat_ms :: "real option"

text \<open>A group is a window, given by its start in seconds, and the values of the other grouping columns.\<close>

type_synonym group_key = "int \<times> json list"

record spark =
  sp_window :: "int \<Rightarrow> packet_row \<Rightarrow> int"
  sp_watermark :: "int \<Rightarrow> packet_row list list \<Rightarrow> int"
  sp_date_format :: "int \<Rightarrow> string"
  sp_group :: "(packet_row \<Rightarrow> group_key) \<Rightarrow> packet_row list \<Rightarrow> (group_key \<times> packet_row list) list"
  sp_approx_distinct :: "json list \<Rightarrow> int"
  sp_expr :: "string \<Rightarrow> packet_row \<Rightarrow> bool option"
  sp_row_number :: "in_row list \<Rightarrow> (in_row \<times> int) list"

text \<open>
  What the documentation of Spark promises: windows tumble from the epoch; the watermark of a batch is, after the
  batches before it and for a delay in seconds, not above the newest time read in them less the delay (nor above the
  epoch before that); a grouping gives every group once, with its rows; times are formatted injectively.
\<close>

definition watermark_bound :: "int \<Rightarrow> packet_row list list \<Rightarrow> int" where
  "watermark_bound delay before = fold max (map (\<lambda>r. pk_time r - delay * 1000000) (concat before)) 0"

definition good_spark :: "spark \<Rightarrow> bool" where
  "good_spark S \<longleftrightarrow> inj (sp_date_format S)
     \<and> (\<forall>w r. 0 < w \<longrightarrow> sp_window S w r = pk_time r div (w * 1000000) * w)
     \<and> (\<forall>delay before. sp_watermark S delay before \<le> watermark_bound delay before)
     \<and> (\<forall>key rows. distinct (map fst (sp_group S key rows)) \<and> set (map fst (sp_group S key rows)) = key ` set rows
          \<and> (\<forall>(k, g) \<in> set (sp_group S key rows). mset g = mset (filter (\<lambda>r. key r = k) rows)))
     \<and> (\<forall>xs ys. set xs = set ys \<longrightarrow> sp_approx_distinct S xs = sp_approx_distinct S ys)"

text \<open>
  \<open>row_number\<close> over \<open>partitionBy("window_start")\<close>, ordered by the packets and the bytes, descending, and the
  port, for rows with different ports: one more than the number of rows before.
\<close>

definition row_window :: "in_row \<Rightarrow> json" where
  "row_window r = dget_or r ''window_start'' JNull"

definition int_col :: "string \<Rightarrow> in_row \<Rightarrow> int" where
  "int_col c r = (case dget r c of Some (JInt k) \<Rightarrow> k | _ \<Rightarrow> 0)"

definition ranks_before :: "in_row \<Rightarrow> in_row \<Rightarrow> bool" where
  "ranks_before x r \<longleftrightarrow> int_col ''packets'' x > int_col ''packets'' r
     \<or> int_col ''packets'' x = int_col ''packets'' r
       \<and> (int_col ''bytes'' x > int_col ''bytes'' r
          \<or> int_col ''bytes'' x = int_col ''bytes'' r \<and> int_col ''port'' x < int_col ''port'' r)"

definition sql_row_number :: "in_row list \<Rightarrow> (in_row \<times> int) list" where
  "sql_row_number rows =
     map (\<lambda>r. (r, 1 + int (length (filter (\<lambda>x. row_window x = row_window r \<and> ranks_before x r) rows)))) rows"

definition good_ranks :: "spark \<Rightarrow> bool" where
  "good_ranks S \<longleftrightarrow> (\<forall>rows. distinct (map (\<lambda>r. (row_window r, int_col ''port'' r)) rows)
     \<longrightarrow> mset (sp_row_number S rows) = mset (sql_row_number rows))"

text \<open>
  Output mode \<open>update\<close>: a batch emits the rows of the groups that it touches, aggregated over everything aggregated
  so far, in any order.
\<close>

definition emits ::
  "spark \<Rightarrow> (packet_row \<Rightarrow> group_key) \<Rightarrow> (group_key \<Rightarrow> packet_row list \<Rightarrow> in_row list) \<Rightarrow> packet_row list list \<Rightarrow>
     in_row list list \<Rightarrow> bool" where
  "emits S key out batches emitted \<longleftrightarrow> length emitted = length batches
     \<and> (\<forall>i < length batches. mset (emitted ! i) =
          mset (concat (map (\<lambda>(k, g). out k g)
            (filter (\<lambda>(k, g). k \<in> key ` set (batches ! i)) (sp_group S key (concat (take (Suc i) batches)))))))"

text \<open>
  \<open>withWatermark("event_time", delay)\<close> before the grouping by windows: a batch leaves out the packets whose window
  ended at or before its watermark.  The state of a window is removed only when its packets are late, so that an emitted
  group has all its packets that were not left out.
\<close>

definition late :: "spark \<Rightarrow> int \<Rightarrow> int \<Rightarrow> packet_row \<Rightarrow> bool" where
  "late S w watermark r \<longleftrightarrow> (sp_window S w r + w) * 1000000 \<le> watermark"

definition kept_batches :: "spark \<Rightarrow> int \<Rightarrow> int \<Rightarrow> packet_row list list \<Rightarrow> packet_row list list" where
  "kept_batches S w delay batches =
     map (\<lambda>i. filter (\<lambda>r. \<not> late S w (sp_watermark S delay (take i batches)) r) (batches ! i)) [0..<length batches]"

definition update_mode ::
  "spark \<Rightarrow> int \<Rightarrow> int \<Rightarrow> (packet_row \<Rightarrow> group_key) \<Rightarrow> (group_key \<Rightarrow> packet_row list \<Rightarrow> in_row list) \<Rightarrow>
     packet_row list list \<Rightarrow> in_row list list \<Rightarrow> bool" where
  "update_mode S w delay key out batches emitted \<longleftrightarrow> emits S key out (kept_batches S w delay batches) emitted"

text \<open>\<open>cast("int")\<close>\<close>

definition cast_int :: "int \<Rightarrow> json" where
  "cast_int k = JInt (sint (word_of_int k :: 32 word))"

definition total_length :: "packet_row list \<Rightarrow> int" where
  "total_length g = sum_list (map pk_length g)"

definition ports_of :: "packet_row list \<Rightarrow> int list" where
  "ports_of g = List.map_filter pk_dst_port g"

section \<open>The aggregations\<close>

text \<open>Each query has the key of its \<open>groupBy\<close> and the rows its \<open>select\<close> makes of a group.\<close>

definition window_cols :: "int \<Rightarrow> spark \<Rightarrow> group_key \<Rightarrow> in_row" where
  "window_cols w S k = [(''window_start'', JStr (sp_date_format S (fst k))), (''window_len_s'', JInt w)]"

definition count_cols :: "packet_row list \<Rightarrow> in_row" where
  "count_cols g = [(''packets'', cast_int (int (length g))), (''bytes'', cast_int (total_length g))]"

text \<open>\<open>build_window_metrics\<close>\<close>

definition window_metrics_key :: "int \<Rightarrow> spark \<Rightarrow> packet_row \<Rightarrow> group_key" where
  "window_metrics_key w S r = (sp_window S w r, [])"

definition window_metrics_out :: "int \<Rightarrow> spark \<Rightarrow> group_key \<Rightarrow> packet_row list \<Rightarrow> in_row list" where
  "window_metrics_out w S k g =
     [window_cols w S k @ count_cols g
        @ [(''pps'', JReal (real (length g) / of_int w)), (''bps'', JReal (of_int (total_length g) / of_int w))]]"

text \<open>\<open>build_protocol_counts\<close>\<close>

definition protocol_counts_key :: "int \<Rightarrow> spark \<Rightarrow> packet_row \<Rightarrow> group_key" where
  "protocol_counts_key w S r = (sp_window S w r, [JStr (pk_protocol r)])"

definition protocol_counts_out :: "int \<Rightarrow> spark \<Rightarrow> group_key \<Rightarrow> packet_row list \<Rightarrow> in_row list" where
  "protocol_counts_out w S k g = [window_cols w S k @ [(''protocol'', hd (snd k))] @ count_cols g]"

text \<open>\<open>build_port_counts\<close>, of the rows with a port\<close>

definition with_port :: "packet_row list \<Rightarrow> packet_row list" where
  "with_port rows = filter (\<lambda>r. pk_dst_port r \<noteq> None) rows"

definition port_counts_key :: "int \<Rightarrow> spark \<Rightarrow> packet_row \<Rightarrow> group_key" where
  "port_counts_key w S r = (sp_window S w r, [case pk_dst_port r of None \<Rightarrow> JNull | Some p \<Rightarrow> JInt p])"

definition port_counts_out :: "int \<Rightarrow> spark \<Rightarrow> group_key \<Rightarrow> packet_row list \<Rightarrow> in_row list" where
  "port_counts_out w S k g = [window_cols w S k @ [(''port'', hd (snd k))] @ count_cols g]"

text \<open>\<open>build_ip_edges\<close>\<close>

definition ip_edges_key :: "int \<Rightarrow> spark \<Rightarrow> packet_row \<Rightarrow> group_key" where
  "ip_edges_key w S r = (sp_window S w r, [JStr (pk_src_ip r), JStr (pk_dst_ip r)])"

definition ip_edges_out :: "int \<Rightarrow> spark \<Rightarrow> group_key \<Rightarrow> packet_row list \<Rightarrow> in_row list" where
  "ip_edges_out w S k g = [window_cols w S k @ [(''src_ip'', snd k ! 0), (''dst_ip'', snd k ! 1)] @ count_cols g]"

text \<open>\<open>build_source_stats\<close>\<close>

definition source_stats_key :: "int \<Rightarrow> spark \<Rightarrow> packet_row \<Rightarrow> group_key" where
  "source_stats_key w S r = (sp_window S w r, [JStr (pk_src_ip r)])"

definition source_stats_out :: "int \<Rightarrow> spark \<Rightarrow> group_key \<Rightarrow> packet_row list \<Rightarrow> in_row list" where
  "source_stats_out w S k g =
     [window_cols w S k @ [(''src_ip'', hd (snd k))] @ count_cols g
        @ [(''unique_dst_ips'', cast_int (int (card (pk_dst_ip ` set g)))),
           (''unique_dst_ports'', cast_int (int (card (set (ports_of g)))))]]"

text \<open>\<open>build_distinct_counts\<close>: exact sizes and HyperLogLog estimates\<close>

definition distinct_counts_key :: "int \<Rightarrow> spark \<Rightarrow> packet_row \<Rightarrow> group_key" where
  "distinct_counts_key w S r = (sp_window S w r, [])"

definition distinct_counts_out :: "int \<Rightarrow> spark \<Rightarrow> group_key \<Rightarrow> packet_row list \<Rightarrow> in_row list" where
  "distinct_counts_out w S k g =
     [window_cols w S k
        @ [(''src_ips_exact'', cast_int (int (card (pk_src_ip ` set g)))),
           (''dst_ips_exact'', cast_int (int (card (pk_dst_ip ` set g)))),
           (''ports_exact'', cast_int (int (card (set (ports_of g))))),
           (''src_ips_hll'', cast_int (sp_approx_distinct S (map (\<lambda>r. JStr (pk_src_ip r)) g))),
           (''dst_ips_hll'', cast_int (sp_approx_distinct S (map (\<lambda>r. JStr (pk_dst_ip r)) g))),
           (''ports_hll'', cast_int (sp_approx_distinct S (map JInt (ports_of g))))]]"

text \<open>\<open>build_filter_counts\<close>: conditional sums for every filter (a condition that is NULL is not met), exploded
  into a row for each; no filter at all is an error.  The filters are given by name and expression.\<close>

definition filter_counts_key :: "int \<Rightarrow> spark \<Rightarrow> packet_row \<Rightarrow> group_key" where
  "filter_counts_key w S r = (sp_window S w r, [])"

definition filter_counts_out :: "(string \<times> string) list \<Rightarrow> int \<Rightarrow> spark \<Rightarrow> group_key \<Rightarrow> packet_row list \<Rightarrow> in_row list" where
  "filter_counts_out specs w S k g =
     map (\<lambda>(name, expr). window_cols w S k @ [(''filter_name'', JStr name)]
            @ count_cols (filter (\<lambda>r. sp_expr S expr r = Some True) g)) specs"

definition filter_specs_for :: "(string \<times> string) list option \<Rightarrow> (string \<times> string) list \<Rightarrow> (string \<times> string) list res" where
  "filter_specs_for given defaults =
     (let specs = (case given of None \<Rightarrow> defaults | Some [] \<Rightarrow> defaults | Some xs \<Rightarrow> xs)
      in if specs = [] then Inl ValueError else Inr specs)"

text \<open>\<open>build_moments_window\<close>: the average and the sample variance and deviation of the values that are not
  NULL; NULL when there are too few of them.\<close>

definition sql_avg :: "real list \<Rightarrow> real option" where
  "sql_avg xs = (if xs = [] then None else Some (sum_list xs / real (length xs)))"

definition sql_var_samp :: "real list \<Rightarrow> real option" where
  "sql_var_samp xs =
     (if length xs < 2 then None
      else Some (sum_list (map (\<lambda>x. (x - sum_list xs / real (length xs))\<^sup>2) xs) / (real (length xs) - 1)))"

definition real_cell :: "real option \<Rightarrow> json" where
  "real_cell x = (case x of None \<Rightarrow> JNull | Some v \<Rightarrow> JReal v)"

definition lengths_of :: "packet_row list \<Rightarrow> real list" where
  "lengths_of g = map (\<lambda>r. of_int (pk_length r)) g"

definition iats_of :: "packet_row list \<Rightarrow> real list" where
  "iats_of g = List.map_filter pk_iat_ms g"

definition moments_window_key :: "int \<Rightarrow> spark \<Rightarrow> packet_row \<Rightarrow> group_key" where
  "moments_window_key w S r = (sp_window S w r, [])"

definition moments_window_out :: "int \<Rightarrow> spark \<Rightarrow> group_key \<Rightarrow> packet_row list \<Rightarrow> in_row list" where
  "moments_window_out w S k g =
     [window_cols w S k
        @ [(''n'', cast_int (int (length g))), (''mean_len'', real_cell (sql_avg (lengths_of g))),
           (''var_len'', real_cell (sql_var_samp (lengths_of g))),
           (''std_len'', real_cell (map_option sqrt (sql_var_samp (lengths_of g)))),
           (''iat_mean_ms'', real_cell (sql_avg (iats_of g))), (''iat_var_ms'', real_cell (sql_var_samp (iats_of g))),
           (''iat_std_ms'', real_cell (map_option sqrt (sql_var_samp (iats_of g))))]]"

section \<open>The sinks\<close>

text \<open>\<open>write_to_sqlite\<close> of the queries that store every emitted row.\<close>

definition write_rows :: "string \<Rightarrow> string list \<Rightarrow> in_row list \<Rightarrow> db_row list \<Rightarrow> db_row list" where
  "write_rows now keys rows tbl = (if rows = [] then tbl else snd (upsert now keys rows tbl))"

definition write_window_metrics :: "string \<Rightarrow> in_row list \<Rightarrow> db_row list \<Rightarrow> db_row list" where
  "write_window_metrics now rows tbl = write_rows now [''window_start'', ''window_len_s''] rows tbl"

definition write_protocol_counts :: "string \<Rightarrow> in_row list \<Rightarrow> db_row list \<Rightarrow> db_row list" where
  "write_protocol_counts now rows tbl = write_rows now [''window_start'', ''window_len_s'', ''protocol''] rows tbl"

definition write_filter_counts :: "string \<Rightarrow> in_row list \<Rightarrow> db_row list \<Rightarrow> db_row list" where
  "write_filter_counts now rows tbl = write_rows now [''window_start'', ''window_len_s'', ''filter_name''] rows tbl"

definition write_distinct_counts :: "string \<Rightarrow> in_row list \<Rightarrow> db_row list \<Rightarrow> db_row list" where
  "write_distinct_counts now rows tbl = write_rows now [''window_start'', ''window_len_s''] rows tbl"

definition write_source_stats :: "string \<Rightarrow> in_row list \<Rightarrow> db_row list \<Rightarrow> db_row list" where
  "write_source_stats now rows tbl = write_rows now [''window_start'', ''window_len_s'', ''src_ip''] rows tbl"

text \<open>The batches of a query, each with the time of its write.\<close>

definition run_sink ::
  "(string \<Rightarrow> in_row list \<Rightarrow> db_row list \<Rightarrow> db_row list) \<Rightarrow> (string \<times> in_row list) list \<Rightarrow> db_row list \<Rightarrow> db_row list" where
  "run_sink write_batch batches tbl = fold (\<lambda>(now, rows). write_batch now rows) batches tbl"

text \<open>\<open>write_edges\<close>: by window, the \<open>max_edges\<close> rows with the most bytes.  The rows come from the select,
  so that the window is a text and the bytes are an integer.\<close>

definition add_to_window :: "in_row \<Rightarrow> (json, in_row list) dict \<Rightarrow> (json, in_row list) dict" where
  "add_to_window r d = dset (row_window r) (dget_or d (row_window r) [] @ [r]) d"

definition capped_rows :: "int \<Rightarrow> in_row list \<Rightarrow> in_row list" where
  "capped_rows max_edges rows =
     concat (map (\<lambda>(ws, w_rows). slice_to (sort_desc (int_col ''bytes'') w_rows) max_edges) (fold add_to_window rows []))"

definition edge_keys :: "string list" where
  "edge_keys = [''window_start'', ''window_len_s'', ''src_ip'', ''dst_ip'']"

definition write_edges :: "string \<Rightarrow> int \<Rightarrow> in_row list \<Rightarrow> db_row list \<Rightarrow> db_row list" where
  "write_edges now max_edges rows tbl =
     (if rows = [] then tbl else snd (upsert now edge_keys (capped_rows max_edges rows) tbl))"

text \<open>\<open>write_to_sqlite\<close> of the port counts: the rows ranked by Spark up to \<open>top_n\<close>.\<close>

definition port_keys :: "string list" where
  "port_keys = [''window_start'', ''window_len_s'', ''port'']"

definition top_ports :: "spark \<Rightarrow> int \<Rightarrow> in_row list \<Rightarrow> in_row list" where
  "top_ports S top_n rows = map fst (filter (\<lambda>(r, rank). rank \<le> top_n) (sp_row_number S rows))"

definition write_ports :: "spark \<Rightarrow> string \<Rightarrow> int \<Rightarrow> in_row list \<Rightarrow> db_row list \<Rightarrow> db_row list" where
  "write_ports S now top_n rows tbl =
     (if rows = [] then tbl else write_rows now port_keys (top_ports S top_n rows) tbl)"

text \<open>The moments: NaN becomes NULL.\<close>

datatype cell = Null | Cell_Int int | Cell_Text string | Cell_Real pyfloat

fun clean_cell :: "cell \<Rightarrow> cell" where
  "clean_cell (Cell_Real NaN) = Null"
| "clean_cell v = v"

definition clean_moments :: "(string, cell) dict list \<Rightarrow> (string, cell) dict list" where
  "clean_moments rows = map (map (\<lambda>(k, v). (k, clean_cell v))) rows"

text \<open>What SQLite stores of a cell; \<open>sql_real\<close> gives it for a float that is not NaN.\<close>

fun cell_json :: "(pyfloat \<Rightarrow> json) \<Rightarrow> cell \<Rightarrow> json" where
  "cell_json sql_real Null = JNull"
| "cell_json sql_real (Cell_Int k) = JInt k"
| "cell_json sql_real (Cell_Text s) = JStr s"
| "cell_json sql_real (Cell_Real x) = sql_real x"

definition write_moments :: "(pyfloat \<Rightarrow> json) \<Rightarrow> string \<Rightarrow> (string, cell) dict list \<Rightarrow> db_row list \<Rightarrow> db_row list" where
  "write_moments sql_real now rows tbl =
     write_rows now [''window_start'', ''window_len_s'']
       (map (map (\<lambda>(k, v). (k, cell_json sql_real v))) (clean_moments rows)) tbl"

lemma clean_moments_no_nan:
  assumes "row \<in> set (clean_moments rows)" and "(c, v) \<in> set row"
  shows "v \<noteq> Cell_Real NaN"
proof -
  have no: "clean_cell x \<noteq> Cell_Real NaN" for x by (cases x rule: clean_cell.cases) simp_all
  from assms obtain x where "v = clean_cell x" by (auto simp: clean_moments_def)
  then show ?thesis using no by simp
qed

text \<open>The checkpoint directory of a query, \<open>q_...\<close>, with its window length.\<close>

definition checkpoint_dir :: "string \<Rightarrow> string \<Rightarrow> int \<Rightarrow> string" where
  "checkpoint_dir checkpoint_root query w = checkpoint_root @ ''/'' @ query @ ''_'' @ int_str w"

section \<open>What a query keeps in its table\<close>

lemma fst_image: "(\<lambda>(k, g). F k) ` A = F ` (fst ` A)"
  by (simp add: image_image case_prod_unfold)

lemma fst_restrict: "fst ` {p \<in> A. case p of (k, g) \<Rightarrow> k \<in> B} = fst ` A \<inter> B"
  by force

text \<open>
  The contract of a query whose groups emit one row each: fixed columns, key columns that identify the group and
  depend on nothing else, and aggregates that do not depend on the order of the rows.
\<close>

locale windowed_query =
  fixes S :: spark
    and key :: "packet_row \<Rightarrow> group_key"
    and row :: "group_key \<Rightarrow> packet_row list \<Rightarrow> in_row"
    and keys :: "string list"
    and cols :: "string list"
  assumes columns: "dkeys (row k g) = cols"
    and no_stamp: "''updated_at'' \<notin> set cols \<union> set keys"
    and not_null: "JNull \<notin> set (in_key keys (row (key r) g))"
    and key_only: "in_key keys (row k g) = in_key keys (row k g')"
    and key_inj: "good_spark S \<Longrightarrow> in_key keys (row (key r) g) = in_key keys (row (key r') g) \<Longrightarrow> key r = key r'"
    and order_free: "good_spark S \<Longrightarrow> mset g = mset g' \<Longrightarrow> row k g = row k g'"
begin

definition expected :: "packet_row list \<Rightarrow> packet_row \<Rightarrow> in_row" where
  "expected read r = row (key r) (filter (\<lambda>x. key x = key r) read)"

lemma emitted_rows:
  assumes S: "good_spark S"
    and e: "mset e = mset (concat (map (\<lambda>(k, g). [row k g]) (filter (\<lambda>(k, g). k \<in> key ` set b) (sp_group S key read))))"
    and b: "set b \<subseteq> set read"
  shows "set e = expected read ` set b" and "distinct (map (in_key keys) e)"
proof -
  let ?gs = "filter (\<lambda>(k, g). k \<in> key ` set b) (sp_group S key read)"
  have grp: "distinct (map fst (sp_group S key read))" "set (map fst (sp_group S key read)) = key ` set read"
    "\<And>k g. (k, g) \<in> set (sp_group S key read) \<Longrightarrow> mset g = mset (filter (\<lambda>r. key r = k) read)"
    using S unfolding good_spark_def by blast+
  have one: "concat (map (\<lambda>(k, g). [row k g]) ps) = map (\<lambda>(k, g). row k g) ps" for ps
    by (induction ps) auto
  have row_of: "row k g = row k (filter (\<lambda>r. key r = k) read)" if "(k, g) \<in> set ?gs" for k g
    using that grp(3) by (intro order_free [OF S]) simp
  show "set e = expected read ` set b"
  proof -
    have "set e = (\<lambda>(k, g). row k g) ` set ?gs" using e unfolding one by (metis set_map set_mset_mset)
    also have "\<dots> = (\<lambda>(k, g). row k (filter (\<lambda>r. key r = k) read)) ` set ?gs"
      using row_of by (intro image_cong) auto
    also have "\<dots> = (\<lambda>k. row k (filter (\<lambda>r. key r = k) read)) ` (fst ` set ?gs)"
      by (rule fst_image [of "\<lambda>k. row k (filter (\<lambda>r. key r = k) read)"])
    also have "fst ` set ?gs = fst ` set (sp_group S key read) \<inter> key ` set b"
      unfolding set_filter by (rule fst_restrict)
    also have "\<dots> = key ` set b" using grp(2) b unfolding set_map by blast
    finally show ?thesis by (simp add: image_image expected_def)
  qed
  have d: "distinct (map fst ?gs)" using grp(1) by (simp add: distinct_map_filter)
  have "inj_on (\<lambda>p. in_key keys (row (fst p) [])) (set ?gs)"
  proof (rule inj_onI)
    fix p q assume p: "p \<in> set ?gs" and q: "q \<in> set ?gs" and eq: "in_key keys (row (fst p) []) = in_key keys (row (fst q) [])"
    from p q obtain r r' where "fst p = key r" "fst q = key r'" by auto
    with eq have "fst p = fst q" using key_inj [OF S] by metis
    with d p q show "p = q" by (metis distinct_map inj_onD)
  qed
  then have "distinct (map (\<lambda>p. in_key keys (row (fst p) [])) ?gs)" using d by (simp add: distinct_map)
  also have "map (\<lambda>p. in_key keys (row (fst p) [])) ?gs = map (in_key keys) (map (\<lambda>(k, g). row k g) ?gs)"
    using key_only by auto
  finally show "distinct (map (in_key keys) e)"
    using e unfolding one by (metis mset_map mset_eq_imp_distinct_iff)
qed

lemma write_spec:
  assumes S: "good_spark S" and e: "set e = expected read ` set b" and d: "distinct (map (in_key keys) e)"
    and c: "c \<in> set cols"
  shows "if key r \<in> key ` set b
    then \<exists>x. find_key keys (in_key keys (row (key r) [])) (write_rows now keys e tbl) = Some x
           \<and> x c = dget_or (expected read r) c JNull
    else find_key keys (in_key keys (row (key r) [])) (write_rows now keys e tbl)
       = find_key keys (in_key keys (row (key r) [])) tbl"
proof -
  let ?k = "in_key keys (row (key r) [])"
  have w: "write_rows now keys e tbl = snd (upsert now keys e tbl)" by (simp add: write_rows_def upsert_def)
  have nn: "\<forall>x \<in> set e. JNull \<notin> set (in_key keys x)" using e not_null by (auto simp: expected_def)
  have ks: "''updated_at'' \<notin> set keys" using no_stamp by simp
  note up = conjunct2 [OF upsert_lookup [where now = now and tbl = tbl and k = ?k, OF ks d nn]]
  have ink: "in_key keys (expected read x) = in_key keys (row (key x) [])" for x
    unfolding expected_def by (rule key_only)
  have same: "expected read x = expected read r" if "in_key keys (expected read x) = ?k" for x
    using that key_inj [OF S, of x "[]" r] by (simp add: ink) (simp add: expected_def)
  show ?thesis
  proof (cases "key r \<in> key ` set b")
    case True
    then obtain y where y: "y \<in> set b" "key y = key r" by auto
    have "expected read y = expected read r" unfolding expected_def y(2) by (rule refl)
    then have "expected read r \<in> set e" unfolding e using y(1) by (metis imageI)
    moreover have "in_key keys (expected read r) = ?k" by (rule ink)
    ultimately have "find (\<lambda>x. in_key keys x = ?k) e \<noteq> None" by (auto simp: find_None_iff)
    then obtain x where x: "find (\<lambda>x. in_key keys x = ?k) e = Some x" by blast
    then have "x \<in> set e" "in_key keys x = ?k" by (auto dest: find_Some_prop)
    then have xr: "x = expected read r" using same e by auto
    have "c \<in> set (dkeys x)" using c unfolding xr expected_def columns .
    then have "c \<in> set (ordered_cols keys e)" using \<open>x \<in> set e\<close> unfolding ordered_cols_set by blast
    moreover have "c \<noteq> ''updated_at''" using c no_stamp by auto
    ultimately show ?thesis using True up unfolding w x xr by (simp add: bound_value_def)
  next
    case False
    have "find (\<lambda>x. in_key keys x = ?k) e = None"
    proof (rule ccontr)
      assume "\<not> ?thesis"
      then obtain x where "x \<in> set e" "in_key keys x = ?k" by (auto dest: find_Some_prop)
      then obtain y where "y \<in> set b" "in_key keys (expected read y) = ?k" using e by auto
      then have "key y = key r" using key_inj [OF S, of y "[]" r] by (simp add: ink)
      with \<open>y \<in> set b\<close> False show False by (metis imageI)
    qed
    then show ?thesis using False up unfolding w by simp
  qed
qed

lemma split_last:
  assumes "emits S key out (bs @ [b]) emitted" and "length nows = length (bs @ [b])"
  shows "\<exists>es e ns now. emitted = es @ [e] \<and> nows = ns @ [now] \<and> length ns = length bs \<and> length es = length bs
    \<and> emits S key out bs es
    \<and> mset e = mset (concat (map (\<lambda>(k, g). out k g) (filter (\<lambda>(k, g). k \<in> key ` set b) (sp_group S key (concat (bs @ [b]))))))"
proof -
  have len: "length emitted = Suc (length bs)" "length nows = Suc (length bs)"
    using assms by (simp_all add: emits_def)
  then obtain es e ns now where es: "emitted = es @ [e]" "nows = ns @ [now]"
    by (metis length_Suc_conv_rev)
  have um: "mset (emitted ! i) = mset (concat (map (\<lambda>(k, g). out k g)
            (filter (\<lambda>(k, g). k \<in> key ` set ((bs @ [b]) ! i)) (sp_group S key (concat (take (Suc i) (bs @ [b])))))))"
    if "i < length (bs @ [b])" for i using assms(1) that unfolding emits_def by blast
  have "emits S key out bs es"
    unfolding emits_def
  proof (intro conjI allI impI)
    fix i assume i: "i < length bs"
    with um [of i] len es show "mset (es ! i) = mset (concat (map (\<lambda>(k, g). out k g)
            (filter (\<lambda>(k, g). k \<in> key ` set (bs ! i)) (sp_group S key (concat (take (Suc i) bs))))))"
      by (simp add: nth_append)
  qed (use len es in simp)
  moreover have "mset e = mset (concat (map (\<lambda>(k, g). out k g)
      (filter (\<lambda>(k, g). k \<in> key ` set b) (sp_group S key (concat (bs @ [b]))))))"
    using um [of "length bs"] len es by (simp add: nth_append)
  ultimately show ?thesis using len es by auto
qed

lemma table_exact:
  assumes S: "good_spark S" and c: "c \<in> set cols"
  shows "emits S key (\<lambda>k g. [row k g]) batches emitted \<Longrightarrow> length nows = length batches \<Longrightarrow>
    r \<in> set (concat batches) \<Longrightarrow>
    \<exists>x. find_key keys (in_key keys (row (key r) [])) (run_sink (\<lambda>now. write_rows now keys) (zip nows emitted) tbl) = Some x
      \<and> x c = dget_or (expected (concat batches) r) c JNull"
proof (induction batches arbitrary: emitted nows rule: rev_induct)
  case (snoc b bs)
  let ?read = "concat (bs @ [b])"
  from split_last [OF snoc.prems(1,2)] obtain es e ns now where es: "emitted = es @ [e]" "nows = ns @ [now]"
    "length ns = length bs" "length es = length bs" and prev: "emits S key (\<lambda>k g. [row k g]) bs es"
    and last: "mset e = mset (concat (map (\<lambda>(k, g). [row k g]) (filter (\<lambda>(k, g). k \<in> key ` set b) (sp_group S key ?read))))"
    by blast
  have "set b \<subseteq> set ?read" by simp
  note em = emitted_rows [OF S last this]
  have run: "run_sink (\<lambda>now. write_rows now keys) (zip nows emitted) tbl = write_rows now keys e (run_sink (\<lambda>now. write_rows now keys) (zip ns es) tbl)"
    using es by (simp add: run_sink_def)
  note w = write_spec [OF S em(1) em(2) c, of r now "run_sink (\<lambda>now. write_rows now keys) (zip ns es) tbl"]
  show ?case
  proof (cases "key r \<in> key ` set b")
    case True
    then show ?thesis using w unfolding run by simp
  next
    case False
    then have "r \<in> set (concat bs)" using snoc.prems(3) by auto
    from snoc.IH [OF prev es(3) this]
    obtain x where "find_key keys (in_key keys (row (key r) [])) (run_sink (\<lambda>now. write_rows now keys) (zip ns es) tbl) = Some x"
      "x c = dget_or (expected (concat bs) r) c JNull" by auto
    moreover have "expected ?read r = expected (concat bs) r"
    proof -
      have "filter (\<lambda>x. key x = key r) b = []" using False unfolding filter_empty_conv by (metis imageI)
      then show ?thesis by (simp add: expected_def)
    qed
    ultimately show ?thesis using False w unfolding run by simp
  qed
qed simp

lemma table_distinct:
  assumes S: "good_spark S"
  shows "emits S key (\<lambda>k g. [row k g]) batches emitted \<Longrightarrow> length nows = length batches \<Longrightarrow>
    distinct (map (key_of keys) (run_sink (\<lambda>now. write_rows now keys) (zip nows emitted) []))"
proof (induction batches arbitrary: emitted nows rule: rev_induct)
  case Nil
  then show ?case by (simp add: emits_def run_sink_def)
next
  case (snoc b bs)
  from split_last [OF snoc.prems] obtain es e ns now where es: "emitted = es @ [e]" "nows = ns @ [now]"
    "length ns = length bs" "length es = length bs" and prev: "emits S key (\<lambda>k g. [row k g]) bs es"
    and last: "mset e = mset (concat (map (\<lambda>(k, g). [row k g]) (filter (\<lambda>(k, g). k \<in> key ` set b) (sp_group S key (concat (bs @ [b]))))))"
    by blast
  have "set b \<subseteq> set (concat (bs @ [b]))" by simp
  from emitted_rows(1) [OF S last this] have "\<forall>x \<in> set e. JNull \<notin> set (in_key keys x)"
    using not_null by (auto simp: expected_def)
  moreover have "''updated_at'' \<notin> set keys" using no_stamp by simp
  ultimately show ?case using es snoc.IH [OF prev es(3)]
    by (simp add: run_sink_def write_rows_def upsert_distinct)
qed

lemma table_only:
  assumes S: "good_spark S"
  shows "emits S key (\<lambda>k g. [row k g]) batches emitted \<Longrightarrow> length nows = length batches \<Longrightarrow>
    find_key keys k (run_sink (\<lambda>now. write_rows now keys) (zip nows emitted) []) = Some x \<Longrightarrow>
    k \<in> (\<lambda>r. in_key keys (row (key r) [])) ` set (concat batches)"
proof (induction batches arbitrary: emitted nows x rule: rev_induct)
  case Nil
  then show ?case by (simp add: emits_def run_sink_def find_key_def)
next
  case (snoc b bs)
  let ?read = "concat (bs @ [b])"
  from split_last [OF snoc.prems(1,2)] obtain es e ns now where es: "emitted = es @ [e]" "nows = ns @ [now]"
    "length ns = length bs" "length es = length bs" and prev: "emits S key (\<lambda>k g. [row k g]) bs es"
    and last: "mset e = mset (concat (map (\<lambda>(k, g). [row k g]) (filter (\<lambda>(k, g). k \<in> key ` set b) (sp_group S key ?read))))"
    by blast
  have "set b \<subseteq> set ?read" by simp
  note em = emitted_rows [OF S last this]
  have run: "run_sink (\<lambda>now. write_rows now keys) (zip nows emitted) [] = snd (upsert now keys e (run_sink (\<lambda>now. write_rows now keys) (zip ns es) []))"
    using es by (simp add: run_sink_def write_rows_def upsert_def)
  have nn: "\<forall>x \<in> set e. JNull \<notin> set (in_key keys x)" using em(1) not_null by (auto simp: expected_def)
  have ks: "''updated_at'' \<notin> set keys" using no_stamp by simp
  note up = conjunct2 [OF upsert_lookup [where now = now and tbl = "run_sink (\<lambda>now. write_rows now keys) (zip ns es) []" and k = k, OF ks em(2) nn]]
  show ?case
  proof (cases "find (\<lambda>r. in_key keys r = k) e")
    case None
    with up snoc.prems(3) have "find_key keys k (run_sink (\<lambda>now. write_rows now keys) (zip ns es) []) = Some x" unfolding run by simp
    from snoc.IH [OF prev es(3) this] show ?thesis by auto
  next
    case (Some y)
    then have "y \<in> set e" "in_key keys y = k" by (auto dest: find_Some_prop)
    then obtain r where r: "r \<in> set b" "k = in_key keys (expected ?read r)" unfolding em(1) by blast
    have "k = in_key keys (row (key r) [])" unfolding r(2) expected_def by (rule key_only)
    moreover have "r \<in> set ?read" using r(1) by simp
    ultimately show ?thesis by blast
  qed
qed

end

section \<open>The queries that keep every group\<close>

lemma total_length_mset: "total_length g = sum_mset (image_mset pk_length (mset g))"
  by (simp add: total_length_def sum_mset_sum_list flip: mset_map)

lemma same_group: "mset g = mset g' \<Longrightarrow> length g = length g' \<and> total_length g = total_length g' \<and> set g = set g'"
  by (simp only: total_length_mset flip: size_mset set_mset_mset)

lemma set_ports_of: "set (ports_of g) = {p. \<exists>r \<in> set g. pk_dst_port r = Some p}"
  by (induction g) (auto simp: ports_of_def map_filter_simps split: option.splits)

lemma date_inj: "good_spark S \<Longrightarrow> sp_date_format S a = sp_date_format S b \<Longrightarrow> a = b"
  by (simp add: good_spark_def inj_eq)

lemma approx_cong: "good_spark S \<Longrightarrow> set xs = set ys \<Longrightarrow> sp_approx_distinct S xs = sp_approx_distinct S ys"
  unfolding good_spark_def by blast

lemmas query_row_defs = window_cols_def count_cols_def in_key_def dget_or_def

interpretation metrics: windowed_query S "window_metrics_key w S" "\<lambda>k g. hd (window_metrics_out w S k g)"
  "[''window_start'', ''window_len_s'']"
  "[''window_start'', ''window_len_s'', ''packets'', ''bytes'', ''pps'', ''bps'']"
  for w S
  by unfold_locales
    (auto simp: window_metrics_out_def window_metrics_key_def query_row_defs
      dest!: same_group dest: date_inj)

interpretation protocols: windowed_query S "protocol_counts_key w S" "\<lambda>k g. hd (protocol_counts_out w S k g)"
  "[''window_start'', ''window_len_s'', ''protocol'']"
  "[''window_start'', ''window_len_s'', ''protocol'', ''packets'', ''bytes'']"
  for w S
  by unfold_locales
    (auto simp: protocol_counts_out_def protocol_counts_key_def query_row_defs
      dest!: same_group dest: date_inj)

interpretation sources: windowed_query S "source_stats_key w S" "\<lambda>k g. hd (source_stats_out w S k g)"
  "[''window_start'', ''window_len_s'', ''src_ip'']"
  "[''window_start'', ''window_len_s'', ''src_ip'', ''packets'', ''bytes'', ''unique_dst_ips'', ''unique_dst_ports'']"
  for w S
  by unfold_locales
    (auto simp: source_stats_out_def source_stats_key_def query_row_defs set_ports_of
      dest!: same_group dest: date_inj)

interpretation distincts: windowed_query S "distinct_counts_key w S" "\<lambda>k g. hd (distinct_counts_out w S k g)"
  "[''window_start'', ''window_len_s'']"
  "[''window_start'', ''window_len_s'', ''src_ips_exact'', ''dst_ips_exact'', ''ports_exact'',
    ''src_ips_hll'', ''dst_ips_hll'', ''ports_hll'']"
  for w S
  by unfold_locales
    (auto simp: distinct_counts_out_def distinct_counts_key_def query_row_defs set_ports_of
      intro!: arg_cong [where f = cast_int] approx_cong dest!: same_group dest: date_inj)

text \<open>The moments do not depend on the order of the packets, either.\<close>

lemma sql_moments_mset:
  fixes xs ys :: "real list"
  assumes "mset xs = mset ys"
  shows "sql_avg xs = sql_avg ys" and "sql_var_samp xs = sql_var_samp ys"
proof -
  have len: "length xs = length ys" using assms by (rule mset_eq_length)
  have sum: "sum_list (map f xs) = sum_list (map f ys)" for f :: "real \<Rightarrow> real"
    using assms by (metis mset_map sum_mset_sum_list)
  have "sum_list xs = sum_list ys" using sum [of "\<lambda>x. x"] by simp
  moreover have "xs = [] \<longleftrightarrow> ys = []" using len by (metis length_0_conv)
  ultimately show "sql_avg xs = sql_avg ys" "sql_var_samp xs = sql_var_samp ys"
    unfolding sql_avg_def sql_var_samp_def by (simp_all add: len sum)
qed

lemma mset_iats: "mset (iats_of g) = image_mset the (filter_mset (\<lambda>x. x \<noteq> None) (image_mset pk_iat_ms (mset g)))"
proof (induction g)
  case (Cons r g)
  then show ?case by (cases "pk_iat_ms r") (simp_all add: iats_of_def map_filter_simps)
qed (simp add: iats_of_def map_filter_simps)

lemma same_moments:
  assumes "mset g = mset g'"
  shows "moments_window_out w S k g = moments_window_out w S k g'"
proof -
  have "mset (lengths_of g) = mset (lengths_of g')" using assms by (simp add: lengths_of_def)
  note l = sql_moments_mset [OF this]
  have "mset (iats_of g) = mset (iats_of g')" by (simp only: mset_iats assms)
  note i = sql_moments_mset [OF this]
  show ?thesis unfolding moments_window_out_def l i mset_eq_length [OF assms] by (rule refl)
qed

interpretation moments: windowed_query S "moments_window_key w S" "\<lambda>k g. hd (moments_window_out w S k g)"
  "[''window_start'', ''window_len_s'']"
  "[''window_start'', ''window_len_s'', ''n'', ''mean_len'', ''var_len'', ''std_len'', ''iat_mean_ms'', ''iat_var_ms'', ''iat_std_ms'']"
  for w S
proof
  show "mset g = mset g' \<Longrightarrow> hd (moments_window_out w S k g) = hd (moments_window_out w S k g')" for k g g'
    by (rule arg_cong [where f = hd], rule same_moments)
qed (auto simp: moments_window_out_def moments_window_key_def query_row_defs dest: date_inj)

lemma cast_int_exact: "- (2 ^ 31) \<le> k \<Longrightarrow> k < 2 ^ 31 \<Longrightarrow> cast_int k = JInt k"
  unfolding cast_int_def by (simp add: signed_of_int signed_take_bit_int_eq_self)

text \<open>A deployment for the examples: groups in the order of their first row, and the watermark at its bound.\<close>

definition plain_spark :: spark where
  "plain_spark =
     \<lparr>sp_window = (\<lambda>w r. pk_time r div (w * 1000000) * w), sp_watermark = watermark_bound, sp_date_format = int_str,
      sp_group = (\<lambda>key rows. map (\<lambda>k. (k, filter (\<lambda>r. key r = k) rows)) (remdups (map key rows))),
      sp_approx_distinct = (\<lambda>xs. int (card (set xs))), sp_expr = (\<lambda>_ _. None),
      sp_row_number = sql_row_number\<rparr>"

lemma plain_spark_good: "good_spark plain_spark" "good_ranks plain_spark"
proof -
  have "inj int_str" by (metis injI option.inject py_int_str)
  then show "good_spark plain_spark"
    by (auto simp: good_spark_def plain_spark_def comp_def)
  show "good_ranks plain_spark" by (simp add: good_ranks_def plain_spark_def)
qed

text \<open>No packet is older than the delay, against those of the batches before its own.\<close>

definition in_time :: "int \<Rightarrow> packet_row list list \<Rightarrow> bool" where
  "in_time delay batches \<longleftrightarrow> (\<forall>i < length batches. \<forall>r \<in> set (batches ! i). 0 \<le> pk_time r
     \<and> (\<forall>x \<in> set (concat (take i batches)). pk_time x - delay * 1000000 \<le> pk_time r))"

lemma fold_max_le: "fold max xs m \<le> b \<longleftrightarrow> m \<le> b \<and> (\<forall>x \<in> set xs. x \<le> b)" for m b :: int
  by (induction xs arbitrary: m) auto

lemma window_end: "good_spark S \<Longrightarrow> 0 < w \<Longrightarrow> pk_time r < (sp_window S w r + w) * 1000000"
proof -
  assume S: "good_spark S" and w: "0 < w"
  have "sp_window S w r = pk_time r div (w * 1000000) * w" using S w by (simp add: good_spark_def)
  then have "(sp_window S w r + w) * 1000000 = (pk_time r div (w * 1000000)) * (w * 1000000) + w * 1000000"
    by (simp add: algebra_simps)
  moreover have "pk_time r mod (w * 1000000) < w * 1000000" using w by simp
  moreover have "pk_time r = (pk_time r div (w * 1000000)) * (w * 1000000) + pk_time r mod (w * 1000000)"
    by (rule div_mult_mod_eq [symmetric])
  ultimately show ?thesis by linarith
qed

lemma in_time_kept:
  assumes "good_spark S" and "0 < w" and "in_time delay batches"
  shows "kept_batches S w delay batches = batches"
proof -
  have "\<not> late S w (sp_watermark S delay (take i batches)) r" if i: "i < length batches" "r \<in> set (batches ! i)" for i r
  proof -
    have "sp_watermark S delay (take i batches) \<le> watermark_bound delay (take i batches)"
      using assms(1) by (simp add: good_spark_def)
    also have "\<dots> \<le> pk_time r" using assms(3) i by (auto simp: watermark_bound_def fold_max_le in_time_def)
    also have "\<dots> < (sp_window S w r + w) * 1000000" by (rule window_end [OF assms(1,2)])
    finally show ?thesis by (simp add: late_def)
  qed
  then have "filter (\<lambda>r. \<not> late S w (sp_watermark S delay (take i batches)) r) (batches ! i) = batches ! i"
    if "i < length batches" for i using that by (simp add: filter_id_conv)
  then show ?thesis unfolding kept_batches_def by (intro nth_equalityI) simp_all
qed

text \<open>The table of the protocol counts, as the contract of its query gives it.\<close>

definition protocol_keys :: "string list" where
  "protocol_keys = [''window_start'', ''window_len_s'', ''protocol'']"

definition protocol_group_key :: "int \<Rightarrow> spark \<Rightarrow> int \<Rightarrow> string \<Rightarrow> json list" where
  "protocol_group_key w S start proto = [JStr (sp_date_format S start), JInt w, JStr proto]"

lemma protocol_table:
  assumes "good_spark S" and "emits S (protocol_counts_key w S) (protocol_counts_out w S) kept emitted"
    and "length nows = length kept"
  defines "tbl \<equiv> run_sink write_protocol_counts (zip nows emitted) []"
  shows "distinct (map (key_of protocol_keys) tbl)"
    and "find_key protocol_keys k tbl \<noteq> None \<Longrightarrow>
      \<exists>r \<in> set (concat kept). k = protocol_group_key w S (sp_window S w r) (pk_protocol r)"
    and "r \<in> set (concat kept) \<Longrightarrow> c \<in> {''packets'', ''bytes''} \<Longrightarrow>
      \<exists>x. find_key protocol_keys (protocol_group_key w S (sp_window S w r) (pk_protocol r)) tbl = Some x
        \<and> x c = dget_or (protocols.expected w S (concat kept) r) c JNull"
proof -
  have out: "(\<lambda>k g. [hd (protocol_counts_out w S k g)]) = protocol_counts_out w S"
    by (simp add: protocol_counts_out_def fun_eq_iff)
  have um: "emits S (protocol_counts_key w S) (\<lambda>k g. [hd (protocol_counts_out w S k g)]) kept emitted"
    unfolding out by (rule assms(2))
  have wr: "write_protocol_counts = (\<lambda>now. write_rows now protocol_keys)"
    by (simp add: write_protocol_counts_def protocol_keys_def fun_eq_iff)
  have ink: "in_key protocol_keys (hd (protocol_counts_out w S (protocol_counts_key w S r) []))
      = protocol_group_key w S (sp_window S w r) (pk_protocol r)" for r
    by (simp add: protocol_counts_out_def protocol_counts_key_def protocol_keys_def protocol_group_key_def query_row_defs)
  show "distinct (map (key_of protocol_keys) tbl)"
    using protocols.table_distinct [OF assms(1) um assms(3)] unfolding tbl_def wr protocol_keys_def .
  show "\<exists>r \<in> set (concat kept). k = protocol_group_key w S (sp_window S w r) (pk_protocol r)"
    if "find_key protocol_keys k tbl \<noteq> None"
  proof -
    from that obtain x where "find_key protocol_keys k tbl = Some x" by blast
    from protocols.table_only [OF assms(1) um assms(3), folded protocol_keys_def, OF this [unfolded tbl_def wr]]
    show ?thesis unfolding ink by blast
  qed
  show "\<exists>x. find_key protocol_keys (protocol_group_key w S (sp_window S w r) (pk_protocol r)) tbl = Some x
        \<and> x c = dget_or (protocols.expected w S (concat kept) r) c JNull"
    if "r \<in> set (concat kept)" "c \<in> {''packets'', ''bytes''}"
    using protocols.table_exact [OF assms(1) _ um assms(3) that(1), of c, folded protocol_keys_def] that(2)
    unfolding ink tbl_def wr by auto
qed

lemma protocol_group_row:
  assumes "r \<in> set read" and "g = filter (\<lambda>x. sp_window S w x = sp_window S w r \<and> pk_protocol x = pk_protocol r) read"
  shows "dget_or (protocols.expected w S read r) ''packets'' JNull = cast_int (int (length g))"
    and "dget_or (protocols.expected w S read r) ''bytes'' JNull = cast_int (total_length g)"
  unfolding protocols.expected_def assms(2)
  by (simp_all add: protocol_counts_key_def protocol_counts_out_def query_row_defs)

text \<open>C11: the protocol counts.  After the last batch the table has, for every window and protocol, the number of the
  packets and of their bytes (as 32-bit integers) over all the packets that the watermark did not leave out; every
  row of the table is of the window and the protocol of such a packet, and no two rows are of the same.  If no packet is
  older than the watermark's delay, against the packets of earlier batches, none is left out, so that then the counts
  are those of all packets read, however they fall into batches.\<close>

theorem protocol_counts_exact:
  assumes "good_spark S" and "update_mode S w delay (protocol_counts_key w S) (protocol_counts_out w S) batches emitted"
    and "length nows = length batches"
  shows "let tbl = run_sink write_protocol_counts (zip nows emitted) [];
             counted = concat (kept_batches S w delay batches);
             group = (\<lambda>start proto. filter (\<lambda>r. sp_window S w r = start \<and> pk_protocol r = proto) counted)
    in (\<forall>start proto. map_option (\<lambda>x. (x ''packets'', x ''bytes''))
           (find_key protocol_keys (protocol_group_key w S start proto) tbl)
          = (if group start proto = [] then None
             else Some (cast_int (int (length (group start proto))), cast_int (total_length (group start proto)))))
     \<and> (\<forall>x \<in> set tbl. \<exists>r \<in> set counted. key_of protocol_keys x = protocol_group_key w S (sp_window S w r) (pk_protocol r))
     \<and> distinct (map (key_of protocol_keys) tbl)
     \<and> (0 < w \<and> in_time delay batches \<longrightarrow> counted = concat batches)"
proof -
  let ?kept = "kept_batches S w delay batches"
  let ?tbl = "run_sink write_protocol_counts (zip nows emitted) []"
  let ?group = "\<lambda>start proto. filter (\<lambda>r. sp_window S w r = start \<and> pk_protocol r = proto) (concat ?kept)"
  have um: "emits S (protocol_counts_key w S) (protocol_counts_out w S) ?kept emitted"
    using assms(2) by (simp add: update_mode_def)
  have len: "length nows = length ?kept" using assms(3) by (simp add: kept_batches_def)
  note tbl = protocol_table [OF assms(1) um len]
  have count: "map_option (\<lambda>x. (x ''packets'', x ''bytes'')) (find_key protocol_keys (protocol_group_key w S start proto) ?tbl)
      = (if ?group start proto = [] then None
         else Some (cast_int (int (length (?group start proto))), cast_int (total_length (?group start proto))))"
    for start proto
  proof (cases "?group start proto = []")
    case True
    have "find_key protocol_keys (protocol_group_key w S start proto) ?tbl = None"
    proof (rule ccontr)
      assume "\<not> ?thesis"
      from tbl(2) [OF this] obtain r where "r \<in> set (concat ?kept)" "sp_window S w r = start" "pk_protocol r = proto"
        by (auto simp: protocol_group_key_def dest: date_inj [OF assms(1)])
      with True show False by (metis (mono_tags, lifting) filter_empty_conv)
    qed
    with True show ?thesis by simp
  next
    case False
    then obtain r where r: "r \<in> set (concat ?kept)" "sp_window S w r = start" "pk_protocol r = proto"
      by (auto simp: filter_empty_conv)
    have g: "?group start proto = filter (\<lambda>x. sp_window S w x = sp_window S w r \<and> pk_protocol x = pk_protocol r) (concat ?kept)"
      unfolding r(2,3) by (rule refl)
    from tbl(3) [OF r(1), of "''packets''"] tbl(3) [OF r(1), of "''bytes''"] show ?thesis
      using False unfolding protocol_group_row [OF r(1) g] r(2,3) by auto
  qed
  have rows: "\<forall>x \<in> set ?tbl. \<exists>r \<in> set (concat ?kept). key_of protocol_keys x = protocol_group_key w S (sp_window S w r) (pk_protocol r)"
    by (intro ballI tbl(2)) (auto simp: find_key_def find_None_iff)
  have all: "0 < w \<and> in_time delay batches \<longrightarrow> concat ?kept = concat batches"
    using in_time_kept [OF assms(1)] by metis
  show ?thesis unfolding Let_def by (intro conjI allI count rows tbl(1) all)
qed

text \<open>Below 2^31 the integers are the numbers themselves.  When packets come late, the batches matter: of a packet of
  second 100 and one of second 5, with windows of ten seconds and a delay of thirty, both are counted in one batch, and
  the first one only in two.\<close>

definition udp_packet :: "int \<Rightarrow> int \<Rightarrow> packet_row" where
  "udp_packet t len = \<lparr>pk_time = t, pk_src_ip = ''a'', pk_dst_ip = ''b'', pk_dst_port = Some 53, pk_protocol = ''UDP'',
     pk_length = len, pk_iat_ms = None\<rparr>"

lemma batching_matters:
  "concat (kept_batches plain_spark 10 30 [[udp_packet 100000000 60, udp_packet 5000000 60]])
     = [udp_packet 100000000 60, udp_packet 5000000 60]"
  "concat (kept_batches plain_spark 10 30 [[udp_packet 100000000 60], [udp_packet 5000000 60]])
     = [udp_packet 100000000 60]"
  by (simp_all add: kept_batches_def late_def plain_spark_def watermark_bound_def udp_packet_def)

text \<open>Two packets of one window and protocol in two batches, one of another protocol and of a later window, and then one
  of the first window that is too late.\<close>

definition example_packets :: "packet_row list list" where
  "example_packets =
     [[udp_packet 3000000 80], [(udp_packet 100000000 60)\<lparr>pk_protocol := ''TCP''\<rparr>, udp_packet 9000000 90], [udp_packet 4000000 70]]"

lemma example_kept: "kept_batches plain_spark 10 30 example_packets
    = [[udp_packet 3000000 80], [(udp_packet 100000000 60)\<lparr>pk_protocol := ''TCP''\<rparr>, udp_packet 9000000 90], []]"
  by (simp add: kept_batches_def late_def plain_spark_def watermark_bound_def udp_packet_def example_packets_def
      numeral_eq_Suc [of "Num.Bit1 Num.One"] numeral_2_eq_2)

definition example_emitted :: "in_row list list" where
  "example_emitted =
     (let S = plain_spark; key = protocol_counts_key 10 S; out = protocol_counts_out 10 S; kept = kept_batches S 10 30 example_packets
      in map (\<lambda>i. concat (map (\<lambda>(k, g). out k g) (filter (\<lambda>(k, g). k \<in> key ` set (kept ! i))
               (sp_group S key (concat (take (Suc i) kept)))))) [0..<length kept])"

theorem protocol_counts_exact_witness:
  "map_option (\<lambda>x. (x ''packets'', x ''bytes''))
      (find_key protocol_keys (protocol_group_key 10 plain_spark 0 ''UDP'')
         (run_sink write_protocol_counts (zip [''t1'', ''t2'', ''t3''] example_emitted) []))
    = Some (JInt 2, JInt 170)"
proof -
  have um: "update_mode plain_spark 10 30 (protocol_counts_key 10 plain_spark) (protocol_counts_out 10 plain_spark)
      example_packets example_emitted"
    by (simp add: update_mode_def emits_def example_emitted_def Let_def)
  let ?g = "filter (\<lambda>r. sp_window plain_spark 10 r = 0 \<and> pk_protocol r = ''UDP'') (concat (kept_batches plain_spark 10 30 example_packets))"
  have g: "length ?g = 2" "total_length ?g = 170" "?g \<noteq> []"
    unfolding example_kept by (simp_all add: plain_spark_def total_length_def udp_packet_def)
  have n: "length [''t1'', ''t2'', ''t3''] = length example_packets" by (simp add: example_packets_def)
  note c = protocol_counts_exact [OF plain_spark_good(1) um n, unfolded Let_def, THEN conjunct1, rule_format, of 0 "''UDP''"]
  show ?thesis unfolding c using g by (simp add: cast_int_exact)
qed

text \<open>The cast wraps: 32769 packets of the largest length in a window are written as a negative number of bytes.\<close>

lemma bytes_wrap:
  assumes "\<forall>r \<in> set g. pk_length r = 65535" and "length g = 32769"
  shows "dget (count_cols g) ''bytes'' = Some (JInt (- 2147450881))"
proof -
  have "total_length g = int (length g) * 65535" using assms(1) by (induction g) (auto simp: total_length_def)
  then have "total_length g = 2147516415" using assms(2) by simp
  then show ?thesis by (simp add: count_cols_def cast_int_def signed_of_int)
qed

section \<open>The ranked sinks\<close>

lemma add_to_window_lookup:
  "dget (fold add_to_window rows d) ws =
     (if \<exists>r \<in> set rows. row_window r = ws
      then Some (dget_or d ws [] @ filter (\<lambda>r. row_window r = ws) rows) else dget d ws)"
  by (induction rows arbitrary: d) (auto simp: add_to_window_def dget_or_def)

lemma add_to_window_wf: "wf_dict d \<Longrightarrow> wf_dict (fold add_to_window rows d)"
  by (induction rows arbitrary: d) (simp_all add: add_to_window_def)

lemma set_slice_sort: "set (slice_to (sort_desc f xs) m) \<subseteq> set xs"
  by (metis set_sort_desc set_take_subset slice_to_take)

lemma windows_apart:
  assumes "wf_dict d" and "\<And>k v r. (k, v) \<in> set d \<Longrightarrow> r \<in> set v \<Longrightarrow> row_window r = k"
  shows "filter (\<lambda>r. row_window r = ws) (concat (map (\<lambda>(k, v). slice_to (sort_desc f v) m) d))
    = (case dget d ws of None \<Rightarrow> [] | Some v \<Rightarrow> slice_to (sort_desc f v) m)"
  using assms
proof (induction d)
  case (Cons p d)
  obtain k v where p: "p = (k, v)" by (cases p)
  have own: "row_window r = k" if "r \<in> set (slice_to (sort_desc f v) m)" for r
    using that Cons.prems(2) [of k v r] set_slice_sort [of f v m] by (auto simp: p)
  have f: "filter (\<lambda>r. row_window r = ws) (slice_to (sort_desc f v) m)
      = (if k = ws then slice_to (sort_desc f v) m else [])"
    using own by (auto simp: filter_empty_conv filter_id_conv)
  have none: "dget d ws = None" if "k = ws" using Cons.prems(1) that by (simp add: p dget_None_iff)
  have "filter (\<lambda>r. row_window r = ws) (concat (map (\<lambda>(k, v). slice_to (sort_desc f v) m) d))
    = (case dget d ws of None \<Rightarrow> [] | Some v \<Rightarrow> slice_to (sort_desc f v) m)"
    using Cons.prems by (intro Cons.IH) auto
  with f none show ?case by (cases "k = ws") (simp_all add: p)
qed simp

lemma capped_window:
  "filter (\<lambda>r. row_window r = ws) (capped_rows m rows)
     = slice_to (sort_desc (int_col ''bytes'') (filter (\<lambda>r. row_window r = ws) rows)) m"
proof -
  let ?d = "fold add_to_window rows []"
  have wf: "wf_dict ?d" by (rule add_to_window_wf) simp
  have own: "row_window r = k" if "(k, v) \<in> set ?d" "r \<in> set v" for k v r
  proof -
    have "dget ?d k = Some v" using wf that(1) by simp
    then show ?thesis using that(2) by (auto simp: add_to_window_lookup dget_or_def split: if_splits)
  qed
  have "filter (\<lambda>r. row_window r = ws) rows = []" if "\<not> (\<exists>r \<in> set rows. row_window r = ws)"
    using that by (auto simp: filter_empty_conv)
  moreover have "filter (\<lambda>r. row_window r = ws) (capped_rows m rows)
      = (case dget ?d ws of None \<Rightarrow> [] | Some v \<Rightarrow> slice_to (sort_desc (int_col ''bytes'') v) m)"
    unfolding capped_rows_def by (rule windows_apart [OF wf own])
  ultimately show ?thesis
    by (auto simp: add_to_window_lookup dget_or_def slice_to_def sort_desc_def)
qed

text \<open>C37: the edge cap.  Of the emitted rows of a window the sink keeps the \<open>max_edges\<close> with the most bytes: no
  more than that many, all of them if there are no more, only emitted rows, and none with fewer bytes than a
  row that it leaves out.\<close>

theorem edges_capped:
  assumes "0 \<le> max_edges"
  shows "let kept = filter (\<lambda>r. row_window r = ws) (capped_rows max_edges rows);
             emitted = filter (\<lambda>r. row_window r = ws) rows
    in length kept = min (nat max_edges) (length emitted) \<and> mset kept \<subseteq># mset emitted
       \<and> (\<forall>x \<in># mset emitted - mset kept. \<forall>y \<in> set kept. int_col ''bytes'' x \<le> int_col ''bytes'' y)"
proof -
  let ?e = "filter (\<lambda>r. row_window r = ws) rows" and ?n = "nat max_edges"
  let ?s = "sort_desc (int_col ''bytes'') ?e"
  have m: "mset ?e = mset (take ?n ?s) + mset (drop ?n ?s)"
    by (simp add: sort_desc_def flip: mset_append)
  then have "mset ?e - mset (take ?n ?s) = mset (drop ?n ?s)" by simp
  then show ?thesis using assms m
    by (auto simp: capped_window slice_to_def Let_def min.commute intro: take_sort_desc_max)
qed

definition example_edges :: "in_row list" where
  "example_edges =
     [[(''window_start'', JStr ''w''), (''src_ip'', JStr ''a''), (''bytes'', JInt 60)],
      [(''window_start'', JStr ''w''), (''src_ip'', JStr ''b''), (''bytes'', JInt 90)]]"

theorem edges_capped_witness:
  "length (filter (\<lambda>r. row_window r = JStr ''w'') (capped_rows 1 example_edges)) = 1"
  using edges_capped [of 1 "JStr ''w''" example_edges]
  by (simp add: Let_def example_edges_def row_window_def dget_or_def)

text \<open>Both caps hold for the rows of one micro-batch only: in update mode a window's rows come in several batches,
  and the rows that an earlier batch stored stay.  Here the table of the top port of a window has two ports.\<close>

definition port_row :: "string \<Rightarrow> int \<Rightarrow> int \<Rightarrow> int \<Rightarrow> int \<Rightarrow> in_row" where
  "port_row ws w bytes port packets = [(''window_start'', JStr ws), (''window_len_s'', JInt w), (''port'', JInt port),
      (''packets'', JInt packets), (''bytes'', JInt bytes)]"

lemma port_rows_stale:
  assumes "good_ranks S"
  shows "\<forall>port \<in> {p, q}. find_key port_keys [JStr ws, JInt w, JInt port]
     (write_ports S t2 1 [port_row ws w bytes q 2] (write_ports S t1 1 [port_row ws w bytes p 1] [])) \<noteq> None"
proof -
  have one: "top_ports S 1 [x] = [x]" for x
  proof -
    have "mset (sp_row_number S [x]) = mset (sql_row_number [x])" using assms(1) by (simp add: good_ranks_def)
    also have "\<dots> = {#(x, 1)#}" by (simp add: sql_row_number_def ranks_before_def)
    finally have "sp_row_number S [x] = [(x, 1)]" by simp
    then show ?thesis by (simp add: top_ports_def)
  qed
  have up: "find_key port_keys k (write_rows now port_keys [port_row ws w bytes port n] tbl) \<noteq> None
      \<longleftrightarrow> k = [JStr ws, JInt w, JInt port] \<or> find_key port_keys k tbl \<noteq> None" for k now port n tbl
    using conjunct2 [OF upsert_lookup [where now = now and tbl = tbl and k = k and rows = "[port_row ws w bytes port n]" and keys = port_keys]]
    by (auto simp: write_rows_def port_keys_def in_key_def dget_or_def port_row_def)
  show ?thesis by (simp add: write_ports_def one up del: not_None_eq)
qed

text \<open>No two queries share a checkpoint directory, whatever their window lengths.\<close>

lemma last_separator:
  "c \<notin> set a \<Longrightarrow> c \<notin> set b \<Longrightarrow> x @ c # a = y @ c # b \<Longrightarrow> x = y \<and> a = b"
  by (auto simp: append_eq_append_conv2 append_eq_Cons_conv Cons_eq_append_conv)

lemma checkpoint_dirs_differ:
  assumes "checkpoint_dir rt q w = checkpoint_dir rt q' w'"
  shows "q = q' \<and> w = w'"
proof -
  have no: "CHR ''_'' \<notin> set (int_str v)" for v using int_str_chars [of "CHR ''_''" v] by (auto simp: is_digit_def Let_def)
  from assms have "q @ CHR ''_'' # int_str w = q' @ CHR ''_'' # int_str w'" by (simp add: checkpoint_dir_def)
  from last_separator [OF no no this] show ?thesis by (metis option.inject py_int_str)
qed

end
