(* ===== verification/Cleaning.thy ===== *)
theory Cleaning
  imports Pytext "HOL-Library.Multiset"
begin

text \<open>
  The cleaning of the stream, \<open>streaming/common/cleaning.py\<close>: casts, the validity condition in SQL's
  three-valued logic, private addresses, port classes and the split into valid and invalid rows.

  \<open>to_timestamp\<close> is a parameter (a format, or none, and a text give a time or NULL).  The values of the CSV
  columns are those of the schema, every one of them possibly NULL; the MAC and flag columns, which the
  cleaning passes through, are left out.
\<close>

section \<open>Rows\<close>

record raw_packet =
  rw_timestamp :: "string option"
  rw_src_ip :: "string option"
  rw_dst_ip :: "string option"
  rw_src_port :: "int option"
  rw_dst_port :: "int option"
  rw_protocol :: "string option"
  rw_length :: "int option"
  rw_iat_ms :: "real option"

record clean_packet = raw_packet +
  cl_event_time :: "int option"
  cl_is_valid :: "bool option"
  cl_private_src :: "bool option"
  cl_private_dst :: "bool option"
  cl_port_class :: string

section \<open>Three-valued logic\<close>

fun and3 :: "bool option \<Rightarrow> bool option \<Rightarrow> bool option" where
  "and3 (Some False) _ = Some False"
| "and3 _ (Some False) = Some False"
| "and3 (Some True) y = y"
| "and3 x (Some True) = x"
| "and3 None None = None"

fun or3 :: "bool option \<Rightarrow> bool option \<Rightarrow> bool option" where
  "or3 (Some True) _ = Some True"
| "or3 _ (Some True) = Some True"
| "or3 (Some False) y = y"
| "or3 x (Some False) = x"
| "or3 None None = None"

definition not3 :: "bool option \<Rightarrow> bool option" where
  "not3 x = map_option Not x"

definition is_not_null :: "'a option \<Rightarrow> bool option" where
  "is_not_null x = Some (x \<noteq> None)"

definition is_null :: "'a option \<Rightarrow> bool option" where
  "is_null x = Some (x = None)"

definition between :: "int \<Rightarrow> int \<Rightarrow> int option \<Rightarrow> bool option" where
  "between lo hi x = map_option (\<lambda>v. lo \<le> v \<and> v \<le> hi) x"

text \<open>\<open>F.trim\<close> removes spaces, and only spaces.\<close>

definition sql_trim :: "string \<Rightarrow> string" where
  "sql_trim s = rstrip_by (\<lambda>c. c = CHR '' '') (lstrip_by (\<lambda>c. c = CHR '' '') s)"

definition coalesce :: "'a option list \<Rightarrow> 'a option" where
  "coalesce xs = (case filter (\<lambda>x. x \<noteq> None) xs of [] \<Rightarrow> None | x # _ \<Rightarrow> x)"

section \<open>Private addresses\<close>

text \<open>A pattern is a sequence of items: one character of a class, an optional one, or any number of them.\<close>

datatype rx = One "char \<Rightarrow> bool" | Opt "char \<Rightarrow> bool" | Many "char \<Rightarrow> bool"

text \<open>\<open>$\<close> also matches before a final line terminator.\<close>

definition at_end :: "string \<Rightarrow> bool" where
  "at_end s = (s \<in> {[], [CHR 0x0A], [CHR 0x0D], [CHR 0x0D, CHR 0x0A]})"

function rmatch :: "rx list \<Rightarrow> string \<Rightarrow> bool" where
  "rmatch [] s = at_end s"
| "rmatch (One P # r) s = (case s of [] \<Rightarrow> False | c # cs \<Rightarrow> P c \<and> rmatch r cs)"
| "rmatch (Opt P # r) s = (rmatch r s \<or> (case s of [] \<Rightarrow> False | c # cs \<Rightarrow> P c \<and> rmatch r cs))"
| "rmatch (Many P # r) s = (rmatch r s \<or> (case s of [] \<Rightarrow> False | c # cs \<Rightarrow> P c \<and> rmatch (Many P # r) cs))"
  by pat_completeness auto
termination by (relation "measures [\<lambda>(r, s). length r, \<lambda>(r, s). length s]") auto

definition lit :: "string \<Rightarrow> rx list" where
  "lit s = map (\<lambda>c. One (\<lambda>x. x = c)) s"

definition digit_in :: "nat \<Rightarrow> nat \<Rightarrow> char \<Rightarrow> bool" where
  "digit_in lo hi c = (is_digit c \<and> lo \<le> digit_val c \<and> digit_val c \<le> hi)"

text \<open>\<open>\d{1,3}\<close>\<close>

definition rx_octet :: "rx list" where
  "rx_octet = [One is_digit, Opt is_digit, Opt is_digit]"

definition hex_class :: "char \<Rightarrow> bool" where
  "hex_class c = (is_digit c \<or> c \<in> set ''abcdefABCDEF'')"

definition any_rest :: "rx list" where
  "any_rest = [Many (\<lambda>c. c \<noteq> CHR 0x0A \<and> c \<noteq> CHR 0x0D)]"

definition private_patterns :: "rx list list" where
  "private_patterns =
     [lit ''10.'' @ rx_octet @ lit ''.'' @ rx_octet @ lit ''.'' @ rx_octet,
      lit ''172.'' @ [One (\<lambda>c. c = CHR ''1''), One (digit_in 6 9)] @ lit ''.'' @ rx_octet @ lit ''.'' @ rx_octet,
      lit ''172.'' @ [One (\<lambda>c. c = CHR ''2''), One is_digit] @ lit ''.'' @ rx_octet @ lit ''.'' @ rx_octet,
      lit ''172.'' @ [One (\<lambda>c. c = CHR ''3''), One (digit_in 0 1)] @ lit ''.'' @ rx_octet @ lit ''.'' @ rx_octet,
      lit ''192.'' @ lit ''168.'' @ rx_octet @ lit ''.'' @ rx_octet,
      lit ''169.'' @ lit ''254.'' @ rx_octet @ lit ''.'' @ rx_octet,
      lit ''127.'' @ rx_octet @ lit ''.'' @ rx_octet @ lit ''.'' @ rx_octet,
      lit ''::1'',
      [One (\<lambda>c. c \<in> set ''fF''), One (\<lambda>c. c \<in> set ''cCdD''), One hex_class, One hex_class] @ lit '':'' @ any_rest,
      [One (\<lambda>c. c \<in> set ''fF''), One (\<lambda>c. c \<in> set ''eE'')] @ lit ''80:'' @ any_rest]"

definition private_ip :: "string \<Rightarrow> bool" where
  "private_ip s = (\<exists>p \<in> set private_patterns. rmatch p s)"

section \<open>Cleaning\<close>

definition parsed_time :: "(string option \<Rightarrow> string \<Rightarrow> int option) \<Rightarrow> raw_packet \<Rightarrow> int option" where
  "parsed_time to_ts r =
     coalesce [Option.bind (rw_timestamp r) (to_ts (Some ''yyyy-MM-dd HH:mm:ss.SSS'')),
               Option.bind (rw_timestamp r) (to_ts (Some ''yyyy-MM-dd HH:mm:ss'')),
               Option.bind (rw_timestamp r) (to_ts None)]"

definition clean_protocol :: "raw_packet \<Rightarrow> string option" where
  "clean_protocol r = map_option (\<lambda>s. upper (sql_trim s)) (rw_protocol r)"

text \<open>The condition, over the cast columns: \<open>p\<close> is the protocol after trimming.\<close>

definition is_valid_cond :: "int option \<Rightarrow> string option \<Rightarrow> raw_packet \<Rightarrow> bool option" where
  "is_valid_cond time p r =
     foldl and3 (is_not_null time)
       [is_not_null (rw_src_ip r), map_option (\<lambda>s. sql_trim s \<noteq> []) (rw_src_ip r),
        is_not_null (rw_dst_ip r), map_option (\<lambda>s. sql_trim s \<noteq> []) (rw_dst_ip r),
        is_not_null (rw_length r), between 1 65535 (rw_length r),
        map_option (\<lambda>s. s \<in> {''TCP'', ''UDP'', ''ICMP'', ''OTHER''}) p,
        or3 (is_null (rw_src_port r)) (between 0 65535 (rw_src_port r)),
        or3 (is_null (rw_dst_port r)) (between 0 65535 (rw_dst_port r))]"

text \<open>\<open>F.when\<close> takes the first condition that is true.\<close>

definition port_class :: "int option \<Rightarrow> string" where
  "port_class p =
     (if between 0 1023 p = Some True then ''well-known''
      else if between 1024 49151 p = Some True then ''registered''
      else if between 49152 65535 p = Some True then ''dynamic''
      else ''none'')"

definition private_flag :: "string option \<Rightarrow> bool option" where
  "private_flag ip = (if is_not_null ip = Some True then map_option private_ip ip else Some False)"

definition clean_row :: "(string option \<Rightarrow> string \<Rightarrow> int option) \<Rightarrow> raw_packet \<Rightarrow> clean_packet" where
  "clean_row to_ts r =
     (let t = parsed_time to_ts r; p = clean_protocol r
      in raw_packet.extend (r\<lparr>rw_protocol := p\<rparr>)
           \<lparr>cl_event_time = t, cl_is_valid = is_valid_cond t p r,
            cl_private_src = private_flag (rw_src_ip r), cl_private_dst = private_flag (rw_dst_ip r),
            cl_port_class = port_class (rw_dst_port r)\<rparr>)"

definition split_valid :: "clean_packet list \<Rightarrow> clean_packet list \<times> clean_packet list" where
  "split_valid rows = (filter (\<lambda>r. cl_is_valid r = Some True) rows, filter (\<lambda>r. not3 (cl_is_valid r) = Some True) rows)"

section \<open>Valid, invalid and lost rows\<close>

lemma and3_iff:
  "and3 x y = Some True \<longleftrightarrow> x = Some True \<and> y = Some True"
  "and3 x y = Some False \<longleftrightarrow> x = Some False \<or> y = Some False"
  by (cases "(x, y)" rule: and3.cases; simp)+

lemma foldl_and3:
  "foldl and3 x ys = Some True \<longleftrightarrow> x = Some True \<and> (\<forall>y \<in> set ys. y = Some True)"
  "foldl and3 x ys = Some False \<longleftrightarrow> x = Some False \<or> (\<exists>y \<in> set ys. y = Some False)"
  by (induction ys arbitrary: x) (auto simp: and3_iff)

text \<open>What the condition asks of a row; a missing protocol is decided by \<open>unknown\<close>.\<close>

definition text_ok :: "string option \<Rightarrow> bool" where
  "text_ok x = (case x of None \<Rightarrow> False | Some s \<Rightarrow> sql_trim s \<noteq> [])"

definition port_ok :: "int option \<Rightarrow> bool" where
  "port_ok x = (case x of None \<Rightarrow> True | Some k \<Rightarrow> 0 \<le> k \<and> k \<le> 65535)"

text \<open>What \<open>clean\<close> asks of a row: weaker than the record contract, since it does not ask for an address, a MAC or
  flags of the right form, nor for an inter-arrival time that is not negative.  \<open>unknown\<close> says whether a row
  without a protocol passes.\<close>

definition row_fits :: "bool \<Rightarrow> (string option \<Rightarrow> string \<Rightarrow> int option) \<Rightarrow> raw_packet \<Rightarrow> bool" where
  "row_fits unknown to_ts r \<longleftrightarrow> parsed_time to_ts r \<noteq> None \<and> text_ok (rw_src_ip r) \<and> text_ok (rw_dst_ip r)
     \<and> (case rw_length r of None \<Rightarrow> False | Some n \<Rightarrow> 1 \<le> n \<and> n \<le> 65535)
     \<and> (case clean_protocol r of None \<Rightarrow> unknown | Some p \<Rightarrow> p \<in> {''TCP'', ''UDP'', ''ICMP'', ''OTHER''})
     \<and> port_ok (rw_src_port r) \<and> port_ok (rw_dst_port r)"

lemma text_cond:
  "is_not_null x = Some True \<and> map_option (\<lambda>s. sql_trim s \<noteq> []) x = Some True \<longleftrightarrow> text_ok x"
  "is_not_null x = Some False \<or> map_option (\<lambda>s. sql_trim s \<noteq> []) x = Some False \<longleftrightarrow> \<not> text_ok x"
  by (auto simp: is_not_null_def text_ok_def split: option.splits)

lemma port_cond: "or3 (is_null x) (between 0 65535 x) = Some (port_ok x)"
proof (cases x)
  case (Some k)
  then show ?thesis by (cases "0 \<le> k \<and> k \<le> 65535") (auto simp: is_null_def between_def port_ok_def)
qed (simp add: is_null_def between_def port_ok_def)

lemma length_cond:
  "is_not_null x = Some True \<and> between 1 65535 x = Some True
     \<longleftrightarrow> (case x of None \<Rightarrow> False | Some n \<Rightarrow> 1 \<le> n \<and> n \<le> 65535)"
  "is_not_null x = Some False \<or> between 1 65535 x = Some False
     \<longleftrightarrow> \<not> (case x of None \<Rightarrow> False | Some n \<Rightarrow> 1 \<le> n \<and> n \<le> 65535)"
  by (auto simp: is_not_null_def between_def split: option.splits)

lemma protocol_cond:
  "map_option P p = Some True \<longleftrightarrow> (case p of None \<Rightarrow> False | Some s \<Rightarrow> P s)"
  "map_option P p = Some False \<longleftrightarrow> \<not> (case p of None \<Rightarrow> True | Some s \<Rightarrow> P s)"
  by (simp_all split: option.splits)

lemma valid_cond:
  "is_valid_cond t p r = Some True \<longleftrightarrow> is_not_null t = Some True
     \<and> (is_not_null (rw_src_ip r) = Some True \<and> map_option (\<lambda>s. sql_trim s \<noteq> []) (rw_src_ip r) = Some True)
     \<and> (is_not_null (rw_dst_ip r) = Some True \<and> map_option (\<lambda>s. sql_trim s \<noteq> []) (rw_dst_ip r) = Some True)
     \<and> (is_not_null (rw_length r) = Some True \<and> between 1 65535 (rw_length r) = Some True)
     \<and> map_option (\<lambda>s. s \<in> {''TCP'', ''UDP'', ''ICMP'', ''OTHER''}) p = Some True
     \<and> port_ok (rw_src_port r) \<and> port_ok (rw_dst_port r)"
  "is_valid_cond t p r = Some False \<longleftrightarrow> is_not_null t = Some False
     \<or> (is_not_null (rw_src_ip r) = Some False \<or> map_option (\<lambda>s. sql_trim s \<noteq> []) (rw_src_ip r) = Some False)
     \<or> (is_not_null (rw_dst_ip r) = Some False \<or> map_option (\<lambda>s. sql_trim s \<noteq> []) (rw_dst_ip r) = Some False)
     \<or> (is_not_null (rw_length r) = Some False \<or> between 1 65535 (rw_length r) = Some False)
     \<or> map_option (\<lambda>s. s \<in> {''TCP'', ''UDP'', ''ICMP'', ''OTHER''}) p = Some False
     \<or> \<not> port_ok (rw_src_port r) \<or> \<not> port_ok (rw_dst_port r)"
  unfolding is_valid_cond_def foldl_and3 port_cond by (simp_all add: eq_commute [of "Some False"])

lemma valid_fits:
  "is_valid_cond (parsed_time to_ts r) (clean_protocol r) r = Some True \<longleftrightarrow> row_fits False to_ts r"
  unfolding valid_cond text_cond length_cond unfolding protocol_cond row_fits_def by (simp add: is_not_null_def)

lemma invalid_fits:
  "is_valid_cond (parsed_time to_ts r) (clean_protocol r) r = Some False \<longleftrightarrow> \<not> row_fits True to_ts r"
  unfolding valid_cond text_cond length_cond unfolding protocol_cond row_fits_def by (simp add: is_not_null_def)

lemma clean_row_valid:
  "cl_is_valid (clean_row to_ts r) = is_valid_cond (parsed_time to_ts r) (clean_protocol r) r"
  by (simp add: clean_row_def Let_def raw_packet.defs)

text \<open>C38: the split.  The valid rows are the cleaned rows that meet all of \<open>clean\<close>'s own conditions, in order: a time that
  parses, addresses that are not blank, a length between 1 and 65535, one of the four protocols, and ports that are
  NULL or between 0 and 65535.  The invalid ones are those that break a condition with a value, or with a NULL in the
  time, an address or the length.  The rows that meet all but for a NULL protocol are in neither part.  These
  conditions are weaker than the record contract.\<close>

theorem split_valid_exact:
  shows "split_valid (map (clean_row to_ts) rows)
      = (map (clean_row to_ts) (filter (row_fits False to_ts) rows),
         map (clean_row to_ts) (filter (\<lambda>r. \<not> row_fits True to_ts r) rows))
    \<and> length (fst (split_valid (map (clean_row to_ts) rows))) + length (snd (split_valid (map (clean_row to_ts) rows)))
      = length rows - length (filter (\<lambda>r. rw_protocol r = None \<and> row_fits True to_ts r) rows)"
proof -
  have split: "split_valid (map (clean_row to_ts) rows)
      = (map (clean_row to_ts) (filter (row_fits False to_ts) rows),
         map (clean_row to_ts) (filter (\<lambda>r. \<not> row_fits True to_ts r) rows))" (is "_ = (?v, ?i)")
  proof -
    have "not3 x = Some True \<longleftrightarrow> x = Some False" for x by (auto simp: not3_def)
    then show ?thesis
      by (simp add: split_valid_def filter_map comp_def clean_row_valid valid_fits invalid_fits)
  qed
  have "row_fits True to_ts r \<longleftrightarrow> row_fits False to_ts r \<or> (rw_protocol r = None \<and> row_fits True to_ts r)"
    "\<not> (row_fits False to_ts r \<and> rw_protocol r = None)" for r
    by (auto simp: row_fits_def clean_protocol_def split: option.splits)
  then have "length (filter (row_fits False to_ts) rows) + length (filter (\<lambda>r. \<not> row_fits True to_ts r) rows)
      + length (filter (\<lambda>r. rw_protocol r = None \<and> row_fits True to_ts r) rows) = length rows"
    by (induction rows) auto
  with split show ?thesis by simp
qed

text \<open>The port class of a valid row says in which range its destination port is.\<close>

lemma port_class_ranges:
  assumes "port_ok p"
  shows "port_class p = (case p of None \<Rightarrow> ''none''
    | Some k \<Rightarrow> if k < 1024 then ''well-known'' else if k < 49152 then ''registered'' else ''dynamic'')"
  using assms by (auto simp: port_class_def port_ok_def between_def split: option.splits)

section \<open>Which addresses are private\<close>

lemma rmatch_lit: "rmatch (lit l @ r) s \<longleftrightarrow> (\<exists>t. s = l @ t \<and> rmatch r t)"
  by (induction l arbitrary: s) (auto simp: lit_def split: list.splits)

lemma lit_append: "lit (a @ b) = lit a @ lit b" by (simp add: lit_def)

lemma first_separator:
  "c \<notin> set a \<Longrightarrow> c \<notin> set b \<Longrightarrow> a @ c # x = b @ c # y \<longleftrightarrow> a = b \<and> x = y"
  by (auto simp: append_eq_append_conv2 append_eq_Cons_conv Cons_eq_append_conv)

lemma no_dot: "CHR ''.'' \<notin> set (nat_str n)"
  using nat_str_props [of n] by (auto simp: is_digit_def Let_def)

lemma nat_str_inj: "nat_str a = nat_str b \<longleftrightarrow> a = b"
  by (metis nat_str_props)

lemma octet_cases:
  assumes "n < 256"
  obtains c where "nat_str n = [c]" "is_digit c" "n < 10"
  | c d where "nat_str n = [c, d]" "is_digit c" "is_digit d" "10 \<le> n" "n < 100" "c = digit_char (n div 10)" "d = digit_char (n mod 10)"
  | c d e where "nat_str n = [c, d, e]" "is_digit c" "is_digit d" "is_digit e" "100 \<le> n"
proof -
  have d: "is_digit (digit_char k)" if "k < 10" for k by (rule digit_char_props(1) [OF that])
  consider "n < 10" | "10 \<le> n" "n < 100" | "100 \<le> n" by linarith
  then show thesis
  proof cases
    case 1
    then show ?thesis using that(1) [of "digit_char n"] d by (simp add: nat_str.simps [of n])
  next
    case 2
    then have "n div 10 < 10" by simp
    with 2 show ?thesis using that(2) [of "digit_char (n div 10)" "digit_char (n mod 10)"] d
      by (simp add: nat_str.simps [of n] nat_str.simps [of "n div 10"])
  next
    case 3
    have "n div 10 div 10 < 10" using assms by simp
    with 3 show ?thesis
      using that(3) [of "digit_char (n div 10 div 10)" "digit_char (n div 10 mod 10)" "digit_char (n mod 10)"] d
      by (simp add: nat_str.simps [of n] nat_str.simps [of "n div 10"] nat_str.simps [of "n div 10 div 10"])
  qed
qed

lemma dot_no_digit [simp]: "\<not> is_digit (CHR ''.'')" "is_digit c \<Longrightarrow> c \<noteq> CHR ''.''"
  by (auto simp: is_digit_def Let_def)

lemma rmatch_octet:
  assumes "n < 256"
  shows "rmatch (rx_octet @ lit ''.'' @ r) (nat_str n @ CHR ''.'' # t) \<longleftrightarrow> rmatch r t"
  using assms by (cases n rule: octet_cases) (simp_all add: rx_octet_def lit_def)

lemma rmatch_octet_end: "n < 256 \<Longrightarrow> rmatch rx_octet (nat_str n)"
  by (cases n rule: octet_cases) (simp_all add: rx_octet_def at_end_def)

lemma rmatch_number:
  assumes "CHR ''.'' \<notin> set l"
  shows "rmatch (lit (l @ ''.'') @ r) (nat_str n @ CHR ''.'' # t) \<longleftrightarrow> nat_str n = l \<and> rmatch r t"
  using first_separator [OF no_dot assms, of n t] by (auto simp: rmatch_lit)

lemma rmatch_two:
  assumes "n < 256" and "\<not> Q (CHR ''.'')"
  shows "rmatch ([One P, One Q] @ lit ''.'' @ r) (nat_str n @ CHR ''.'' # t)
    \<longleftrightarrow> (10 \<le> n \<and> n < 100 \<and> P (digit_char (n div 10)) \<and> Q (digit_char (n mod 10))) \<and> rmatch r t"
  using assms by (cases n rule: octet_cases) (auto simp: lit_def split: list.splits)

lemma digit_char_is: "k < 10 \<Longrightarrow> m < 10 \<Longrightarrow> digit_char k = digit_char m \<longleftrightarrow> k = m"
  by (metis digit_char_props(2))

definition dotted :: "nat \<Rightarrow> nat \<Rightarrow> nat \<Rightarrow> nat \<Rightarrow> string" where
  "dotted a b c d = nat_str a @ CHR ''.'' # nat_str b @ CHR ''.'' # nat_str c @ CHR ''.'' # nat_str d"

lemma not_six:
  "\<not> rmatch (lit ''::1'') (dotted a b c d)"
  "\<not> rmatch ([One (\<lambda>c. c \<in> set ''fF''), One P, One Q, One R] @ r) (dotted a b c d)"
  "\<not> rmatch ([One (\<lambda>c. c \<in> set ''fF''), One P] @ r) (dotted a b c d)"
proof -
  obtain x xs where x: "nat_str a = x # xs" "is_digit x" using nat_str_props [of a] by (cases "nat_str a") auto
  then have "x \<noteq> CHR '':''" "x \<notin> set ''fF''" by (auto simp: is_digit_def Let_def)
  then show "\<not> rmatch (lit ''::1'') (dotted a b c d)"
    "\<not> rmatch ([One (\<lambda>c. c \<in> set ''fF''), One P, One Q, One R] @ r) (dotted a b c d)"
    "\<not> rmatch ([One (\<lambda>c. c \<in> set ''fF''), One P] @ r) (dotted a b c d)"
    by (simp_all add: dotted_def x(1) lit_def)
qed

lemma numbers: "nat_str n = ''10'' \<longleftrightarrow> n = 10" "nat_str n = ''172'' \<longleftrightarrow> n = 172" "nat_str n = ''192'' \<longleftrightarrow> n = 192"
  "nat_str n = ''168'' \<longleftrightarrow> n = 168" "nat_str n = ''169'' \<longleftrightarrow> n = 169" "nat_str n = ''254'' \<longleftrightarrow> n = 254"
  "nat_str n = ''127'' \<longleftrightarrow> n = 127"
proof -
  have "nat_str 10 = ''10''" "nat_str 172 = ''172''" "nat_str 192 = ''192''" "nat_str 168 = ''168''"
    "nat_str 169 = ''169''" "nat_str 254 = ''254''" "nat_str 127 = ''127''" by code_simp+
  then show "nat_str n = ''10'' \<longleftrightarrow> n = 10" "nat_str n = ''172'' \<longleftrightarrow> n = 172" "nat_str n = ''192'' \<longleftrightarrow> n = 192"
    "nat_str n = ''168'' \<longleftrightarrow> n = 168" "nat_str n = ''169'' \<longleftrightarrow> n = 169" "nat_str n = ''254'' \<longleftrightarrow> n = 254"
    "nat_str n = ''127'' \<longleftrightarrow> n = 127" by (metis nat_str_inj)+
qed

lemma rest_octets:
  assumes "b < 256" and "c < 256" and "d < 256"
  shows "rmatch (rx_octet @ lit ''.'' @ rx_octet) (nat_str c @ CHR ''.'' # nat_str d)"
    and "rmatch (rx_octet @ lit ''.'' @ rx_octet @ lit ''.'' @ rx_octet)
      (nat_str b @ CHR ''.'' # nat_str c @ CHR ''.'' # nat_str d)"
  using assms by (simp_all add: rmatch_octet rmatch_octet_end)

lemma second_octet:
  assumes "b < 256"
  shows "(10 \<le> b \<and> b < 100 \<and> digit_char (b div 10) = CHR ''1'' \<and> digit_in 6 9 (digit_char (b mod 10))) \<longleftrightarrow> 16 \<le> b \<and> b < 20"
    and "(10 \<le> b \<and> b < 100 \<and> digit_char (b div 10) = CHR ''2'' \<and> is_digit (digit_char (b mod 10))) \<longleftrightarrow> 20 \<le> b \<and> b < 30"
    and "(10 \<le> b \<and> b < 100 \<and> digit_char (b div 10) = CHR ''3'' \<and> digit_in 0 1 (digit_char (b mod 10))) \<longleftrightarrow> 30 \<le> b \<and> b < 32"
proof -
  have ds: "digit_char 1 = CHR ''1''" "digit_char 2 = CHR ''2''" "digit_char 3 = CHR ''3''" by code_simp+
  have first: "digit_char (b div 10) = digit_char k \<longleftrightarrow> b div 10 = k" if "b < 100" "k < 10" for k
    using that by (intro digit_char_is) auto
  have snd: "is_digit (digit_char (b mod 10))" "digit_val (digit_char (b mod 10)) = b mod 10"
    by (simp_all add: digit_char_props)
  show "(10 \<le> b \<and> b < 100 \<and> digit_char (b div 10) = CHR ''1'' \<and> digit_in 6 9 (digit_char (b mod 10))) \<longleftrightarrow> 16 \<le> b \<and> b < 20"
    using first [of 1] snd unfolding ds(1) digit_in_def by (cases "b < 100") (auto, presburger+)
  show "(10 \<le> b \<and> b < 100 \<and> digit_char (b div 10) = CHR ''2'' \<and> is_digit (digit_char (b mod 10))) \<longleftrightarrow> 20 \<le> b \<and> b < 30"
    using first [of 2] snd unfolding ds(2) by (cases "b < 100") auto
  show "(10 \<le> b \<and> b < 100 \<and> digit_char (b div 10) = CHR ''3'' \<and> digit_in 0 1 (digit_char (b mod 10))) \<longleftrightarrow> 30 \<le> b \<and> b < 32"
    using first [of 3] snd unfolding ds(3) digit_in_def by (cases "b < 100") (auto, presburger+)
qed

text \<open>C39: the private IPv4 addresses.  Of the dotted addresses the pattern accepts exactly those of 10/8, 127/8,
  172.16/12, 192.168/16 and 169.254/16.\<close>

theorem private_v4_exact:
  assumes "a < 256" and "b < 256" and "c < 256" and "d < 256"
  shows "private_ip (dotted a b c d) \<longleftrightarrow>
    a = 10 \<or> a = 127 \<or> a = 172 \<and> 16 \<le> b \<and> b < 32 \<or> a = 192 \<and> b = 168 \<or> a = 169 \<and> b = 254"
proof -
  have split: "lit ''10.'' = lit (''10'' @ ''.'')" "lit ''172.'' = lit (''172'' @ ''.'')" "lit ''192.'' = lit (''192'' @ ''.'')"
    "lit ''168.'' = lit (''168'' @ ''.'')" "lit ''169.'' = lit (''169'' @ ''.'')" "lit ''254.'' = lit (''254'' @ ''.'')"
    "lit ''127.'' = lit (''127'' @ ''.'')" by simp_all
  have num: "rmatch (lit (l @ ''.'') @ r) (nat_str n @ CHR ''.'' # t) \<longleftrightarrow> nat_str n = l \<and> rmatch r t"
    if "l \<in> {''10'', ''172'', ''192'', ''168'', ''169'', ''254'', ''127''}" for l r n t
    using that by (intro rmatch_number) auto
  note rest = rest_octets [OF assms(2-4)]
  have 1: "rmatch (lit ''10.'' @ rx_octet @ lit ''.'' @ rx_octet @ lit ''.'' @ rx_octet) (dotted a b c d) \<longleftrightarrow> a = 10"
    using rest unfolding dotted_def split by (simp add: num numbers del: append.simps)
  have 2: "rmatch (lit ''127.'' @ rx_octet @ lit ''.'' @ rx_octet @ lit ''.'' @ rx_octet) (dotted a b c d) \<longleftrightarrow> a = 127"
    using rest unfolding dotted_def split by (simp add: num numbers del: append.simps)
  have 3: "rmatch (lit ''192.'' @ lit ''168.'' @ rx_octet @ lit ''.'' @ rx_octet) (dotted a b c d) \<longleftrightarrow> a = 192 \<and> b = 168"
    using rest unfolding dotted_def split by (simp add: num numbers del: append.simps)
  have 4: "rmatch (lit ''169.'' @ lit ''254.'' @ rx_octet @ lit ''.'' @ rx_octet) (dotted a b c d) \<longleftrightarrow> a = 169 \<and> b = 254"
    using rest unfolding dotted_def split by (simp add: num numbers del: append.simps)
  have two: "rmatch (lit ''172.'' @ [One P, One Q] @ lit ''.'' @ rx_octet @ lit ''.'' @ rx_octet) (dotted a b c d)
      \<longleftrightarrow> a = 172 \<and> (10 \<le> b \<and> b < 100 \<and> P (digit_char (b div 10)) \<and> Q (digit_char (b mod 10)))"
    if "\<not> Q (CHR ''.'')" for P Q
    using rest rmatch_two [where Q = Q, OF assms(2) that] unfolding dotted_def split by (simp add: num numbers del: append.simps)
  have q: "\<not> digit_in l h (CHR ''.'')" for l h by (simp add: digit_in_def)
  note t = two [of "digit_in 6 9", OF q] two [of is_digit, OF dot_no_digit(1)] two [of "digit_in 0 1", OF q]
  show ?thesis
    unfolding private_ip_def private_patterns_def
    by (simp only: list.set bex_simps not_six [unfolded list.set] 1 2 3 4 t second_octet [OF assms(2)]) presburger
qed

theorem private_v4_exact_witness:
  "private_ip (dotted 172 31 0 9) \<and> \<not> private_ip (dotted 172 32 0 9)"
  using private_v4_exact [of 172 31 0 9] private_v4_exact [of 172 32 0 9] by simp

end
