(* ===== verification/Ingest_Check.thy ===== *)
theory Ingest_Check
  imports Contract Interfaces
begin

text \<open>
  The batch side of the ingestion: the storage zones (\<open>ingestion/layout.py\<close>), the verification of CSV files
  (\<open>ingestion/verification.py\<close>), the control program, the cleanup of the stream directory, the choice of the
  hour to compact (\<open>ingestion/scripts\<close>) and the comparison of a capture with its records
  (\<open>scripts/compare_capture.py\<close>).

  A file is what \<open>csv.reader\<close> reads from it; \<open>sha\<close> is the hexadecimal SHA-256 of a text, \<open>fromiso\<close> is
  \<open>datetime.fromisoformat\<close>, and subprocesses are their results.
\<close>

section \<open>Zones\<close>

record storage_layout =
  sl_root :: string

definition raw_zone :: "storage_layout \<Rightarrow> string" where "raw_zone l = sl_root l @ ''/raw''"
definition stream_in_zone :: "storage_layout \<Rightarrow> string" where "stream_in_zone l = sl_root l @ ''/stream_in''"
definition processed_zone :: "storage_layout \<Rightarrow> string" where "processed_zone l = sl_root l @ ''/processed''"
definition checkpoints_zone :: "storage_layout \<Rightarrow> string" where "checkpoints_zone l = sl_root l @ ''/checkpoints''"
definition hive_warehouse :: "storage_layout \<Rightarrow> string" where "hive_warehouse l = sl_root l @ ''/hive''"

definition all_zones :: "storage_layout \<Rightarrow> string list" where
  "all_zones l = [raw_zone l, stream_in_zone l, processed_zone l, checkpoints_zone l, hive_warehouse l]"

text \<open>The command and, from its result (none if it cannot be run), success or an error.\<close>

definition create_hdfs_command :: "storage_layout \<Rightarrow> string \<Rightarrow> string list" where
  "create_hdfs_command l hdfs_bin = [hdfs_bin, ''dfs'', ''-mkdir'', ''-p''] @ all_zones l"

definition create_hdfs_zones :: "int option \<Rightarrow> unit res" where
  "create_hdfs_zones run = (case run of None \<Rightarrow> Inl RuntimeError | Some code \<Rightarrow> if code = 0 then Inr () else Inl RuntimeError)"

definition hdfs_available :: "int option \<Rightarrow> bool" where
  "hdfs_available run = (case run of None \<Rightarrow> False | Some code \<Rightarrow> code = 0)"

section \<open>Verification\<close>

record csv_file =
  cf_path :: string
  cf_name :: string
  cf_is_file :: bool
  cf_rows :: "string list list"

text \<open>\<open>%S.%f\<close>: the seconds and one to six digits.\<close>

definition parse_timestamp :: "string \<Rightarrow> datetime option" where
  "parse_timestamp s =
     (case split_on (CHR ''.'') s of
        [a, f] \<Rightarrow>
          (if 1 \<le> length f \<and> length f \<le> 6 \<and> (\<forall>c \<in> set f. is_digit c)
           then map_option (\<lambda>t. t\<lparr>dt_micro := int (digits_val f * 10 ^ (6 - length f))\<rparr>) (strptime_seconds a) else None)
      | _ \<Rightarrow> None)"

definition row_hash :: "(string \<Rightarrow> string) \<Rightarrow> string list \<Rightarrow> string" where
  "row_hash sha row = sha (join '','' row)"

record verify_state =
  vs_files :: int
  vs_rows :: int
  vs_malformed :: int
  vs_hashes :: "(string, int) dict"
  vs_latencies :: "real list"
  vs_events :: "datetime list"

definition verify_init :: verify_state where
  "verify_init = \<lparr>vs_files = 0, vs_rows = 0, vs_malformed = 0, vs_hashes = [], vs_latencies = [], vs_events = []\<rparr>"

definition blank_row :: "string list \<Rightarrow> bool" where
  "blank_row row = (row = [] \<or> (\<forall>f \<in> set row. f = []))"

definition bad_row :: "string list \<Rightarrow> bool" where
  "bad_row row = (length row \<noteq> num_fields \<or> hd row = [])"

definition verify_row :: "(string \<Rightarrow> string) \<Rightarrow> datetime \<Rightarrow> string list \<Rightarrow> verify_state \<Rightarrow> verify_state" where
  "verify_row sha now row s =
     (if blank_row row then s
      else if bad_row row then s\<lparr>vs_rows := vs_rows s + 1, vs_malformed := vs_malformed s + 1\<rparr>
      else
        (let s1 = s\<lparr>vs_rows := vs_rows s + 1, vs_hashes := counter_inc (row_hash sha row) (vs_hashes s)\<rparr>
         in case parse_timestamp (hd row) of
              None \<Rightarrow> s1
            | Some t \<Rightarrow>
                s1\<lparr>vs_events := vs_events s1 @ [t],
                   vs_latencies := vs_latencies s1 @ [max 0 (of_int (to_micros now - to_micros t) / 10 ^ 6 * 1000)]\<rparr>))"

definition ends_in :: "string \<Rightarrow> string \<Rightarrow> bool" where
  "ends_in suf s = (take (length suf) (rev s) = rev suf)"

definition stable_file :: "csv_file \<Rightarrow> bool" where
  "stable_file f = (cf_is_file f \<and> take 1 (cf_name f) \<noteq> ''.'' \<and> \<not> ends_in ''.tmp'' (cf_name f))"

definition verify_file :: "(string \<Rightarrow> string) \<Rightarrow> datetime \<Rightarrow> csv_file \<Rightarrow> verify_state \<Rightarrow> verify_state" where
  "verify_file sha now f s =
     (if \<not> stable_file f then s else fold (verify_row sha now) (cf_rows f) (s\<lparr>vs_files := vs_files s + 1\<rparr>))"

text \<open>\<open>isoformat\<close> of a UTC time\<close>

definition iso_utc :: "datetime \<Rightarrow> string" where
  "iso_utc t = pad 4 (dt_year t) @ ''-'' @ pad 2 (dt_month t) @ ''-'' @ pad 2 (dt_day t) @ ''T''
     @ pad 2 (dt_hour t) @ '':'' @ pad 2 (dt_minute t) @ '':'' @ pad 2 (dt_second t)
     @ (if dt_micro t = 0 then [] else ''.'' @ pad 6 (dt_micro t)) @ ''+00:00''"

text \<open>The first time that no other one is below (above).\<close>

definition earliest :: "datetime list \<Rightarrow> datetime option" where
  "earliest ts = (case ts of [] \<Rightarrow> None | t # r \<Rightarrow> Some (fold (\<lambda>x m. if to_micros x < to_micros m then x else m) r t))"

definition latest :: "datetime list \<Rightarrow> datetime option" where
  "latest ts = (case ts of [] \<Rightarrow> None | t # r \<Rightarrow> Some (fold (\<lambda>x m. if to_micros x > to_micros m then x else m) r t))"

record verify_report =
  rp_files :: int
  rp_records :: int
  rp_valid :: int
  rp_malformed :: int
  rp_duplicates :: int
  rp_min :: "real option"
  rp_max :: "real option"
  rp_avg :: "real option"
  rp_first :: "string option"
  rp_last :: "string option"
  rp_verified_at :: string

definition duplicate_rows :: "(string, int) dict \<Rightarrow> int" where
  "duplicate_rows h = sum_list (map (\<lambda>c. c - 1) (filter (\<lambda>c. 1 < c) (map snd h)))"

definition verify_files :: "(string \<Rightarrow> string) \<Rightarrow> datetime \<Rightarrow> csv_file list \<Rightarrow> verify_report" where
  "verify_files sha now files =
     (let s = fold (verify_file sha now) files verify_init; ls = vs_latencies s;
          stat = (\<lambda>x. if ls = [] then None else Some (py_round x 2))
      in \<lparr>rp_files = vs_files s, rp_records = vs_rows s, rp_valid = vs_rows s - vs_malformed s,
          rp_malformed = vs_malformed s, rp_duplicates = duplicate_rows (vs_hashes s),
          rp_min = stat (Min (set ls)), rp_max = stat (Max (set ls)), rp_avg = stat (sum_list ls / real (length ls)),
          rp_first = map_option iso_utc (earliest (vs_events s)), rp_last = map_option iso_utc (latest (vs_events s)),
          rp_verified_at = iso_utc now\<rparr>)"

text \<open>The files found below an existing directory, sorted by path.\<close>

definition verify_directory :: "(string \<Rightarrow> string) \<Rightarrow> datetime \<Rightarrow> csv_file list option \<Rightarrow> verify_report" where
  "verify_directory sha now found = verify_files sha now (case found of None \<Rightarrow> [] | Some fs \<Rightarrow> sort_key cf_path fs)"

definition freshness_seconds :: "(string \<Rightarrow> datetime option) \<Rightarrow> verify_report \<Rightarrow> real option res" where
  "freshness_seconds fromiso r =
     (case rp_last r of
        None \<Rightarrow> Inr None
      | Some l \<Rightarrow>
          (if l = [] \<or> rp_verified_at r = [] then Inr None
           else case (fromiso (rp_verified_at r), fromiso l) of
                  (Some v, Some e) \<Rightarrow> Inr (Some (max 0 (of_int (to_micros v - to_micros e) / 10 ^ 6)))
                | _ \<Rightarrow> Inl ValueError))"

text \<open>The exit code of the control program, from the report of the verification.\<close>

definition ctl_exit :: "string \<Rightarrow> verify_report \<Rightarrow> int" where
  "ctl_exit command report =
     (if command = ''init'' then 0
      else if command = ''status'' then 0
      else if rp_malformed report = 0 then 0 else 2)"

section \<open>Cleanup of the stream directory\<close>

text \<open>\<open>strptime(s, "%Y-%m-%d %H:%M")\<close>: what remains when the seconds are given as 0.\<close>

definition strptime_minutes :: "string \<Rightarrow> datetime option" where
  "strptime_minutes s = strptime_seconds (s @ '':00'')"

definition parse_listing_line :: "string \<Rightarrow> (datetime \<times> string) option" where
  "parse_listing_line line =
     (let fields = split_words line
      in if length fields < 8 \<or> take 1 (hd fields) \<noteq> ''-'' then None
         else map_option (\<lambda>t. (t, last fields)) (strptime_minutes (fields ! 5 @ '' '' @ fields ! 6)))"

definition last_part :: "string \<Rightarrow> string" where
  "last_part path = last (split_on (CHR ''/'') path)"

definition root_prefix :: "string \<Rightarrow> string" where
  "root_prefix rt = rstrip_by (\<lambda>c. c = CHR ''/'') rt @ ''/''"

text \<open>The cutoff is in microseconds.\<close>

definition eligible_file :: "int \<Rightarrow> string \<Rightarrow> datetime \<times> string \<Rightarrow> bool" where
  "eligible_file cutoff rt p =
     (case p of (modified, path) \<Rightarrow>
        take (length (root_prefix rt)) path = root_prefix rt \<and> to_micros modified < cutoff
        \<and> take 1 (last_part path) \<noteq> ''.'' \<and> \<not> ends_in ''.tmp'' (last_part path))"

definition eligible_files :: "string \<Rightarrow> int \<Rightarrow> string \<Rightarrow> string list" where
  "eligible_files listing cutoff rt =
     map snd (filter (eligible_file cutoff rt) (List.map_filter parse_listing_line (splitlines listing)))"

text \<open>The commands that the cleanup runs; the first that fails raises.\<close>

definition cleanup_commands :: "string \<Rightarrow> bool \<Rightarrow> string list \<Rightarrow> string list list" where
  "cleanup_commands hdfs_bin dry_run paths =
     (if dry_run then [] else map (\<lambda>p. [hdfs_bin, ''dfs'', ''-rm'', ''-skipTrash'', p]) paths)"

section \<open>The hour to compact\<close>

definition hour_us :: int where "hour_us = 3600000000"

definition date_text :: "datetime \<Rightarrow> string" where
  "date_text t = int_str (dt_year t) @ ''-'' @ pad 2 (dt_month t) @ ''-'' @ pad 2 (dt_day t)"

definition select_hour :: "string option \<Rightarrow> string option \<Rightarrow> datetime \<Rightarrow> (string \<times> string) res" where
  "select_hour date_value hour_value now =
     (case (date_value, hour_value) of
        (Some d, Some h) \<Rightarrow>
          (case strptime_seconds (d @ '' '' @ h @ '':00:00'') of
             None \<Rightarrow> Inl ValueError
           | Some _ \<Rightarrow> (case py_int h of None \<Rightarrow> Inl ValueError | Some k \<Rightarrow> Inr (d, pad 2 k)))
      | (None, None) \<Rightarrow>
          bindE (of_micros (to_micros (now\<lparr>dt_minute := 0, dt_second := 0, dt_micro := 0\<rparr>) - hour_us))
            (\<lambda>t. Inr (date_text t, pad 2 (dt_hour t)))
      | _ \<Rightarrow> Inl ValueError)"

section \<open>Capture completeness\<close>

text \<open>Frame numbers in the output of tshark; a missing program and a failed run raise.\<close>

definition count_pcap_ip_frames :: "(int \<times> string) option \<Rightarrow> int res" where
  "count_pcap_ip_frames run =
     (case run of
        None \<Rightarrow> Inl FileNotFoundError
      | Some (code, out) \<Rightarrow>
          (if code \<noteq> 0 then Inl RuntimeError
           else Inr (int (length (filter (\<lambda>l. strip l \<noteq> []) (splitlines (strip out)))))))"

definition count_csv_records :: "string list list \<Rightarrow> int" where
  "count_csv_records files = int (length (filter (\<lambda>l. strip l \<noteq> []) (concat files)))"

definition compare_counts :: "int \<Rightarrow> int \<Rightarrow> real \<Rightarrow> bool \<times> real" where
  "compare_counts pcap_count csv_count threshold_pct =
     (if pcap_count = 0 \<and> csv_count = 0 then (True, 0)
      else if pcap_count = 0 then (False, 100)
      else
        (let diff = \<bar>csv_count - pcap_count\<bar>; diff_pct = (of_int diff / of_int pcap_count) * 100
         in (diff_pct \<le> threshold_pct, diff_pct)))"

definition compare_exit :: "(int \<times> string) option \<Rightarrow> string list list \<Rightarrow> real \<Rightarrow> int" where
  "compare_exit run files threshold_pct =
     (case count_pcap_ip_frames run of
        Inl _ \<Rightarrow> 2
      | Inr n \<Rightarrow> if fst (compare_counts n (count_csv_records files) threshold_pct) then 0 else 1)"

section \<open>What the report counts\<close>

definition data_rows :: "csv_file list \<Rightarrow> string list list" where
  "data_rows files = filter (\<lambda>r. \<not> blank_row r) (concat (map cf_rows (filter stable_file files)))"

definition good_rows :: "csv_file list \<Rightarrow> string list list" where
  "good_rows files = filter (\<lambda>r. \<not> bad_row r) (data_rows files)"

lemma duplicate_total:
  "duplicate_rows (fold counter_inc ks []) = int (length ks) - int (card (set ks))"
proof -
  let ?d = "fold counter_inc ks [] :: (string, int) dict"
  have wf: "wf_dict ?d" by simp
  have pos: "1 \<le> c" if "(k, c) \<in> set ?d" for k c
  proof -
    from that wf have "dget ?d k = Some c" by simp
    then have "c = int (count_list ks k)" "k \<in> set ks" by (auto simp: counter_of split: if_splits)
    moreover from this(2) have "count_list ks k \<noteq> 0" by (simp add: count_list_0_iff)
    ultimately show ?thesis by linarith
  qed
  have "set (dkeys ?d) = {k. dget ?d k \<noteq> None}" unfolding set_eq_iff mem_Collect_eq dget_None_iff by blast
  also have "\<dots> = set ks" by (auto simp: counter_of)
  finally have len: "length ?d = card (set ks)" using wf by (metis distinct_card length_map)
  have "(\<And>k c. (k, c) \<in> set e \<Longrightarrow> 1 \<le> c) \<Longrightarrow> duplicate_rows e = sum_list (map snd e) - int (length e)" for e
  proof (induction e)
    case (Cons p e)
    have "1 \<le> snd p" using Cons.prems [of "fst p" "snd p"] by simp
    moreover have "duplicate_rows e = sum_list (map snd e) - int (length e)" using Cons.prems by (intro Cons.IH) auto
    ultimately show ?case by (auto simp: duplicate_rows_def)
  qed (simp add: duplicate_rows_def)
  from this [OF pos] show ?thesis using counter_total [of "[]" ks] len by simp
qed

lemma verify_row_counts:
  "vs_rows (fold (verify_row sha now) rows s) = vs_rows s + int (length (filter (\<lambda>r. \<not> blank_row r) rows))
   \<and> vs_malformed (fold (verify_row sha now) rows s)
      = vs_malformed s + int (length (filter (\<lambda>r. \<not> blank_row r \<and> bad_row r) rows))
   \<and> vs_hashes (fold (verify_row sha now) rows s)
      = fold counter_inc (map (row_hash sha) (filter (\<lambda>r. \<not> blank_row r \<and> \<not> bad_row r) rows)) (vs_hashes s)
   \<and> vs_files (fold (verify_row sha now) rows s) = vs_files s"
proof (induction rows arbitrary: s)
  case (Cons r rows)
  show ?case using Cons.IH [of "verify_row sha now r s"]
    by (auto simp: verify_row_def Let_def split: option.splits)
qed simp

lemma verify_file_counts:
  "vs_rows (fold (verify_file sha now) fs s) = vs_rows s + int (length (data_rows fs))
   \<and> vs_malformed (fold (verify_file sha now) fs s) = vs_malformed s + int (length (data_rows fs)) - int (length (good_rows fs))
   \<and> vs_hashes (fold (verify_file sha now) fs s) = fold counter_inc (map (row_hash sha) (good_rows fs)) (vs_hashes s)
   \<and> vs_files (fold (verify_file sha now) fs s) = vs_files s + int (length (filter stable_file fs))"
proof (induction fs arbitrary: s)
  case (Cons f fs)
  have len: "length (filter (\<lambda>r. \<not> blank_row r \<and> bad_row r) xs) + length (filter (\<lambda>r. \<not> blank_row r \<and> \<not> bad_row r) xs)
      = length (filter (\<lambda>r. \<not> blank_row r) xs)" for xs
    by (induction xs) auto
  have one: "vs_rows (verify_file sha now f s) = vs_rows s + int (length (data_rows [f]))
     \<and> vs_malformed (verify_file sha now f s) = vs_malformed s + int (length (data_rows [f])) - int (length (good_rows [f]))
     \<and> vs_hashes (verify_file sha now f s) = fold counter_inc (map (row_hash sha) (good_rows [f])) (vs_hashes s)
     \<and> vs_files (verify_file sha now f s) = vs_files s + int (length (filter stable_file [f]))"
    using len [of "cf_rows f"]
    by (cases "stable_file f") (simp_all add: verify_file_def verify_row_counts data_rows_def good_rows_def)
  have parts: "data_rows (f # fs) = data_rows [f] @ data_rows fs" "good_rows (f # fs) = good_rows [f] @ good_rows fs"
    by (simp_all add: data_rows_def good_rows_def)
  show ?case using Cons.IH [of "verify_file sha now f s"] one by (simp add: parts)
qed (simp add: data_rows_def good_rows_def)

text \<open>C40: the verification report.  Of the rows with some text in the stable files it counts all, those with
  eleven fields and a first one, and the others; and as duplicates, as long as the hash tells the texts of the rows
  apart, the rows of the right form less the different ones among their texts (the fields joined with commas), each
  row whose text occurred before.\<close>

theorem verify_counts:
  assumes "inj_on sha (set (map (join '','') (good_rows files)))"
  shows "let rep = verify_files sha now files
    in rp_files rep = int (length (filter stable_file files)) \<and> rp_records rep = int (length (data_rows files))
       \<and> rp_valid rep = int (length (good_rows files)) \<and> rp_malformed rep = rp_records rep - rp_valid rep
       \<and> rp_duplicates rep
          = int (length (good_rows files)) - int (card (set (map (join '','') (good_rows files))))"
proof -
  have "map (row_hash sha) (good_rows files) = map sha (map (join '','') (good_rows files))"
    by (simp add: row_hash_def)
  then have "card (set (map (row_hash sha) (good_rows files))) = card (set (map (join '','') (good_rows files)))"
    using card_image [OF assms] by (metis set_map)
  then show ?thesis
    by (simp add: verify_files_def Let_def verify_file_counts verify_init_def duplicate_total)
qed

definition example_now :: datetime where
  "example_now = \<lparr>dt_year = 2026, dt_month = 7, dt_day = 1, dt_hour = 12, dt_minute = 0, dt_second = 0, dt_micro = 0\<rparr>"

definition example_csv :: csv_file where
  "example_csv = \<lparr>cf_path = ''x.csv'', cf_name = ''x.csv'', cf_is_file = True,
     cf_rows = [''t'' # replicate 10 ''a'', [''bad''], [], ''t'' # replicate 10 ''b'', ''t'' # replicate 10 ''a'']\<rparr>"

theorem verify_counts_witness:
  "rp_duplicates (verify_files (\<lambda>s. s) example_now [example_csv]) = 1
   \<and> rp_malformed (verify_files (\<lambda>s. s) example_now [example_csv]) = 1"
proof -
  have g: "length (good_rows [example_csv]) = 3" "length (data_rows [example_csv]) = 4"
    "remdups (map (join '','') (good_rows [example_csv])) = [''t,b,b,b,b,b,b,b,b,b,b'', ''t,a,a,a,a,a,a,a,a,a,a'']"
    by code_simp+
  have "card (set (map (join '','') (good_rows [example_csv]))) = 2"
    unfolding length_remdups_card_conv [symmetric] g(3) by simp
  moreover have "inj_on (\<lambda>s. s) (set (map (join '','') (good_rows [example_csv])))" by simp
  ultimately show ?thesis using verify_counts [of "\<lambda>s. s" "[example_csv]" example_now] g(1,2)
    by (simp add: Let_def)
qed

text \<open>The joined text does not keep the fields apart: two rows of eleven fields with the same hash.\<close>

lemma row_hash_collides:
  "\<exists>r q. r \<noteq> q \<and> length r = 11 \<and> length q = 11 \<and> row_hash sha r = row_hash sha q"
  by (rule exI [of _ "[''a,b'', ''c''] @ replicate 9 []"], rule exI [of _ "[''a'', ''b,c''] @ replicate 9 []"])
    (simp add: row_hash_def numeral_eq_Suc)

text \<open>The last closed hour: it ended at or before \<open>now\<close>, and the next one has not.\<close>

lemma select_hour_closed:
  assumes "valid_datetime now" and "select_hour None None now = Inr (d, h)"
  shows "\<exists>t. valid_datetime t \<and> dt_minute t = 0 \<and> dt_second t = 0 \<and> dt_micro t = 0 \<and> d = date_text t
    \<and> h = pad 2 (dt_hour t) \<and> to_micros t + hour_us \<le> to_micros now \<and> to_micros now < to_micros t + 2 * hour_us"
proof -
  let ?n = "now\<lparr>dt_minute := 0, dt_second := 0, dt_micro := 0\<rparr>"
  from assms(2) obtain t where t: "of_micros (to_micros ?n - hour_us) = Inr t" "d = date_text t" "h = pad 2 (dt_hour t)"
    by (auto simp: select_hour_def res_simps)
  note sp = of_micros_spec [OF t(1)] and v = of_micros_valid [OF t(1)]
  have flo: "to_micros ?n \<le> to_micros now" "to_micros now < to_micros ?n + hour_us"
    using assms(1) by (auto simp: to_micros_def valid_datetime_def hour_us_def)
  let ?r = "dt_minute t * 60000000 + dt_second t * 1000000 + dt_micro t"
  have "to_micros t = ((ymd2ord (dt_year t) (dt_month t) (dt_day t) - epoch_ordinal) * 24 + dt_hour t) * hour_us + ?r"
    by (simp add: to_micros_def hour_us_def algebra_simps)
  moreover have "to_micros ?n - hour_us
      = ((ymd2ord (dt_year now) (dt_month now) (dt_day now) - epoch_ordinal) * 24 + dt_hour now - 1) * hour_us"
    by (simp add: to_micros_def hour_us_def algebra_simps)
  ultimately have "?r mod hour_us = 0" using sp(1) by (metis mod_mult_self3 mod_mult_self2_is_0)
  moreover have "0 \<le> ?r" "?r < hour_us" using sp unfolding hour_us_def by auto
  ultimately have "?r = 0" by simp
  then have "dt_minute t = 0" "dt_second t = 0" "dt_micro t = 0" using sp(9,11,13) by linarith+
  then show ?thesis using t v sp(1) flo by auto
qed

end
