(* ===== verification/Stream_App.thy ===== *)
theory Stream_App
  imports Dispatcher Query_Sinks
begin

text \<open>
  The life of the streaming application, \<open>streaming/stream_app.py\<close>: \<open>run\<close>, \<open>handle_shutdown\<close> and
  \<open>main\<close>.  Starting a query is Spark's; \<open>starts\<close> says whether the start with a checkpoint directory
  returns or raises.
\<close>

record stream_query =
  sq_checkpoint :: string
  sq_active :: bool

record stream_app =
  sa_running :: bool
  sa_queries :: "stream_query list"

definition new_app :: stream_app where
  "new_app = \<lparr>sa_running = True, sa_queries = []\<rparr>"

text \<open>The queries of lane A in the order of their start, all with windows of ten seconds, and the dispatcher.\<close>

definition lane_a :: "string list" where
  "lane_a = [''q_window_metrics'', ''q_protocol_counts'', ''q_port_counts'', ''q_filter_counts'', ''q_distinct_counts'',
     ''q_moments'', ''q_edges'', ''q_source_stats'']"

definition app_checkpoints :: "string \<Rightarrow> string list" where
  "app_checkpoints checkpoint_root = map (\<lambda>q. checkpoint_dir checkpoint_root q 10) lane_a @ [checkpoint_root @ ''/q_batch_plugins'']"

text \<open>A query that does not start raises, and the later ones are not started.\<close>

fun start_queries :: "(string \<Rightarrow> bool) \<Rightarrow> string list \<Rightarrow> stream_app \<Rightarrow> bool \<times> stream_app" where
  "start_queries starts [] app = (True, app)"
| "start_queries starts (c # cs) app =
     (if starts c then start_queries starts cs (app\<lparr>sa_queries := sa_queries app @ [\<lparr>sq_checkpoint = c, sq_active = True\<rparr>]\<rparr>)
      else (False, app))"

definition run_app :: "(string \<Rightarrow> bool) \<Rightarrow> string \<Rightarrow> stream_app \<Rightarrow> bool \<times> stream_app" where
  "run_app starts checkpoint_root app = start_queries starts (app_checkpoints checkpoint_root) app"

definition handle_shutdown :: "stream_app \<Rightarrow> stream_app" where
  "handle_shutdown app =
     app\<lparr>sa_running := False, sa_queries := map (\<lambda>q. if sq_active q then q\<lparr>sq_active := False\<rparr> else q) (sa_queries app)\<rparr>"

text \<open>\<open>main\<close>: the configuration it reads and its exit code.\<close>

definition config_path :: "(string \<Rightarrow> bool) \<Rightarrow> string \<Rightarrow> string" where
  "config_path exists_path given = (if exists_path given then given else ''config/settings.example.yaml'')"

definition app_exit :: "(string \<Rightarrow> bool) \<Rightarrow> string \<Rightarrow> int" where
  "app_exit starts checkpoint_root = (if fst (run_app starts checkpoint_root new_app) then 0 else 1)"

section \<open>Queries\<close>

lemma start_queries_spec:
  "\<exists>n. sa_queries (snd (start_queries starts cs app))
      = sa_queries app @ map (\<lambda>c. \<lparr>sq_checkpoint = c, sq_active = True\<rparr>) (take n cs)
    \<and> (\<forall>c \<in> set (take n cs). starts c) \<and> (if fst (start_queries starts cs app) then n = length cs
       else n < length cs \<and> \<not> starts (cs ! n))"
proof (induction cs arbitrary: app)
  case (Cons c cs)
  show ?case
  proof (cases "starts c")
    case True
    let ?app = "app\<lparr>sa_queries := sa_queries app @ [\<lparr>sq_checkpoint = c, sq_active = True\<rparr>]\<rparr>"
    from Cons.IH [of ?app] obtain n where
      "sa_queries (snd (start_queries starts cs ?app))
        = sa_queries ?app @ map (\<lambda>c. \<lparr>sq_checkpoint = c, sq_active = True\<rparr>) (take n cs)"
      "\<forall>c \<in> set (take n cs). starts c"
      "if fst (start_queries starts cs ?app) then n = length cs else n < length cs \<and> \<not> starts (cs ! n)" by blast
    then show ?thesis using True by (intro exI [of _ "Suc n"]) auto
  next
    case False
    then show ?thesis by (intro exI [of _ 0]) simp
  qed
qed simp

text \<open>No two of the nine queries share a checkpoint directory.\<close>

lemma app_checkpoints_distinct: "distinct (app_checkpoints rt)"
proof -
  have "distinct lane_a" by (simp add: lane_a_def)
  then have "distinct (map (\<lambda>q. checkpoint_dir rt q 10) lane_a)"
    by (auto simp: distinct_map intro: inj_onI dest: checkpoint_dirs_differ)
  moreover have "rt @ ''/q_batch_plugins'' \<noteq> checkpoint_dir rt q 10" for q
  proof -
    have "int_str 10 = ''10''" by code_simp
    then have "last (checkpoint_dir rt q 10) = CHR ''0''" by (simp add: checkpoint_dir_def)
    moreover have "last (rt @ ''/q_batch_plugins'') = CHR ''s''" by simp
    ultimately show ?thesis by (intro notI) (simp only: char.inject simp_thms)
  qed
  ultimately show ?thesis by (auto simp: app_checkpoints_def)
qed

text \<open>After a signal no query is active, whether or not all of them had started.\<close>

lemma shutdown_stops:
  "\<not> sa_running (handle_shutdown app) \<and> (\<forall>q \<in> set (sa_queries (handle_shutdown app)). \<not> sq_active q)
   \<and> map sq_checkpoint (sa_queries (handle_shutdown app)) = map sq_checkpoint (sa_queries app)"
  by (auto simp: handle_shutdown_def)

end
