(* ===== verification/Spec2Isabelle.thy ===== *)
theory Spec2Isabelle
  imports Counting_Ones Sampling Fm Itemsets Moments Decay Alerts Serving_Db Dispatcher Filters Anonymize Replay Link_Graph
    App_Config Generate Capture_Runner Interfaces Query_Sinks Cleaning Ingest_Check Stream_App
begin

text \<open>
  Verification of the Live Network Traffic Analyser.

  \<^bold>\<open>The program.\<close>  A capture process runs tshark, parses its lines into records of eleven fields, and sends
  them to rotating CSV files or to a TCP socket; a replay tool and a generator produce the same lines without a
  network.  The files are read by a Spark streaming application.  It cleans the rows, runs windowed aggregations
  (lane A), and hands every micro-batch to plugins with stream algorithms: sampling, distinct counts, counting
  ones, moments, decaying popularity, frequent itemsets (lane B).  All of them upsert into a SQLite serving store,
  which the alert worker, the link analysis and the dashboard read.

  \<^bold>\<open>Conventions.\<close>  Python's integers are \<open>int\<close>, where the code keeps bitmaps too; Spark's cast to a 32-bit
  integer is written with \<open>32 word\<close>.  Floats are reals (\<open>pyfloat\<close> adds the infinities and NaN where they
  can be read from a text); rounding of single operations is not modelled, \<open>round\<close> is.  Texts are ASCII.  A
  Python dict is an association list in insertion order, \<open>dict\<close>, and every exception is a value of
  \<open>py_error\<close> in a sum.  Random generators, digests (SHA-256, HMAC), clocks, the text of a float, subprocesses,
  files and sockets, YAML, networkx, psutil and Spark are arguments; where a property needs something of them, it
  is a named hypothesis with a concrete instance in the property's witness.

  \<^bold>\<open>Capture.\<close>
  \<^item> \<open>Capture_Parser\<close>: \<open>capture/parser.py\<close>, \<open>capture/tshark_cmd.py\<close>.  A line is rejected with a
    reason or becomes a record; an accepted record is well typed, passes the contract, and its CSV line reads back.
  \<^item> \<open>Contract\<close>: \<open>contracts/record_schema.py\<close>, the schema, formatting and validation.  A validated row,
    written and read again, still validates.  \<open>Pydate\<close>, \<open>Net_Address\<close> and \<open>Pytext\<close> hold what the
    code uses of \<open>datetime\<close>, \<open>ipaddress\<close>, \<open>int\<close>, \<open>float\<close> and \<open>str\<close>.
  \<^item> \<open>Writers\<close>: \<open>capture/writers.py\<close>.  Two locales state what a line sink and a log promise; the CSV
    writer with rotation refines an append-only log, and the TCP writer accounts for every line.
  \<^item> \<open>Capture_Runner\<close>: \<open>capture/run_capture.py\<close>, with step relations for the environment (tshark, the
    reader thread, signals) and the main loop.  Every line is counted as handed over, dropped or queued in each
    reachable state; what is written is what the parser accepted; once the stop flag is set, the readers, processes and main
    thread together take at most \<open>shutdown_bound\<close> more steps.  A test of the flag and the action behind it are separate steps,
    so that a signal may come between them.
  \<^item> \<open>Replay\<close> and \<open>Generate\<close>: \<open>capture/replay.py\<close>, \<open>capture/generate.py\<close>.  A replay copies the
    lines in order with shifted times; its loop has fuel, a bound on the number of rounds, and enough of it is
    proved to end the loop.  Generated records satisfy the contract, and the ground truth adds up.
  \<^item> \<open>Anonymize\<close>, \<open>Interfaces\<close>: \<open>capture/anonymize.py\<close>, \<open>capture/list_interfaces.py\<close>.

  \<^bold>\<open>Streaming.\<close>
  \<^item> \<open>Cleaning\<close>: \<open>streaming/common/cleaning.py\<close>, in three-valued logic, with a small matcher for its
    regular expression.  Its conditions are weaker than the record contract: \<open>cleaning_weaker\<close> and
    \<open>cleaning_not_contract\<close> below give rows that it takes for valid and the contract does not.
  \<^item> \<open>Query_Sinks\<close>: \<open>streaming/queries\<close>.  The locale \<open>windowed_query\<close> states the contract of a
    query whose groups emit one row, and proves that the table ends with the aggregates over all rows aggregated, for any
    split into micro-batches; five queries interpret it.  \<open>kept_batches\<close> leaves out the rows that come too late
    for the watermark; without such rows the table does not depend on the split.  \<open>good_spark\<close> and
    \<open>update_mode\<close> are the hypotheses on Spark.
  \<^item> \<open>Sampling\<close>, \<open>Fm\<close>, \<open>Dgim\<close> with \<open>Counting_Ones\<close>, \<open>Moments\<close>, \<open>Decay\<close>,
    \<open>Itemsets\<close>, \<open>Filters\<close>: the files of \<open>streaming/analytics\<close>.  Each algorithm is related to its
    reference: uniform reservoirs (by counting draws), the error bound of the bit counts, the unbiased second
    moment, exact decay, and the miners' exactness.  The plugins' states have invariants, and a locale of
    \<open>Prelude\<close> states the round trip of a saved state.
  \<^item> \<open>Dispatcher\<close>: \<open>streaming/registry.py\<close> and the dispatcher of \<open>streaming/stream_app.py\<close>, whose start and shutdown are in \<open>Stream_App\<close>.
  \<^item> \<open>Serving_Db\<close>: \<open>common/serving_db.py\<close>, the statement of the upsert and its effect on a table.

  \<^bold>\<open>Analysis and tools.\<close>
  \<^item> \<open>Alerts\<close>: \<open>linkanalysis/alerts.py\<close> and \<open>alerts_worker.py\<close>: cooldowns, and when a spike alert
    is raised.
  \<^item> \<open>Link_Graph\<close>: \<open>linkanalysis/graph.py\<close>, \<open>markov.py\<close>, \<open>pagerank.py\<close>, \<open>centrality.py\<close>.
    The power iteration is a contraction; the code's limit of 100 rounds is the length of its loop, and the theorem
    gives the distance that is left.
  \<^item> \<open>App_Config\<close>: \<open>common/config.py\<close>.  \<open>Ingest_Check\<close>: \<open>ingestion\<close> and
    \<open>scripts/compare_capture.py\<close>.

  \<^bold>\<open>Shared.\<close>  \<open>Prelude\<close> holds the error monad, dicts, counters, rounding, sorting and JSON values, with the
  simplification sets that the component proofs use.  This theory adds the property that spans the capture and the
  stream: what the parser accepts, the cleaning keeps.

  \<^bold>\<open>Not modelled.\<close>  The dashboard (pages over SQL reads), the random demo database and the repository checks under
  \<open>scripts\<close>, logging, the calls that build a Spark session or hand a query to Spark, the Spark job that
  compacts an hour, the creation of tables and connections in SQLite, and threads beyond the interleavings of the capture runner.
\<close>

section \<open>From the capture to the stream\<close>

text \<open>
  The CSV source of the stream (\<open>streaming/common/schema.py\<close>) gives every column of a line the type of the
  schema; an empty column is NULL.  \<open>read_int\<close> and \<open>read_double\<close> are Spark's conversions, NULL for a text
  that is no number.
\<close>

definition spark_row :: "(string \<Rightarrow> int option) \<Rightarrow> (string \<Rightarrow> real option) \<Rightarrow> string option list \<Rightarrow> raw_packet" where
  "spark_row read_int read_double c =
     \<lparr>rw_timestamp = c ! 0, rw_src_ip = c ! 1, rw_dst_ip = c ! 2, rw_src_port = Option.bind (c ! 3) read_int,
      rw_dst_port = Option.bind (c ! 4) read_int, rw_protocol = c ! 5, rw_length = Option.bind (c ! 6) read_int,
      rw_iat_ms = Option.bind (c ! 10) read_double\<rparr>"

text \<open>What the cleaning relies on: decimal integers are read, and a time of the contract's form is parsed.\<close>

definition reads_ints :: "(string \<Rightarrow> int option) \<Rightarrow> bool" where
  "reads_ints read_int \<longleftrightarrow> (\<forall>k. 0 \<le> k \<and> k \<le> 65535 \<longrightarrow> read_int (int_str k) = Some k)"

definition reads_times :: "(string option \<Rightarrow> string \<Rightarrow> int option) \<Rightarrow> bool" where
  "reads_times to_ts \<longleftrightarrow> (\<forall>s base ms. timestamp_shape s \<and> split_on (CHR ''.'') s = [base, ms] \<and> strptime_seconds base \<noteq> None
     \<longrightarrow> to_ts (Some ''yyyy-MM-dd HH:mm:ss.SSS'') s \<noteq> None)"

lemma dropWhile_all_dropped:
  assumes "\<forall>c \<in> set (dropWhile P s). P c"
  shows "\<forall>c \<in> set s. P c"
proof
  fix c assume "c \<in> set s"
  then have "c \<in> set (takeWhile P s @ dropWhile P s)" by (simp only: takeWhile_dropWhile_id)
  then have "c \<in> set (takeWhile P s) \<or> c \<in> set (dropWhile P s)" by (simp only: set_append Un_iff)
  then show "P c" using assms set_takeWhileD by fast
qed

lemma sql_trim_nil:
  assumes "sql_trim s = []"
  shows "strip s = []"
proof -
  have "\<forall>c \<in> set (rev (dropWhile (\<lambda>c. c = CHR '' '') s)). c = CHR '' ''"
    using assms unfolding sql_trim_def rstrip_by_def lstrip_by_def
    by (simp only: rev_is_Nil_conv dropWhile_eq_Nil_conv)
  then have "\<forall>c \<in> set s. c = CHR '' ''" unfolding set_rev by (rule dropWhile_all_dropped)
  moreover have "is_space (CHR '' '')" by (simp add: is_space_def)
  ultimately have "dropWhile is_space s = []" unfolding dropWhile_eq_Nil_conv by metis
  then show ?thesis by (simp only: strip_def lstrip_by_def rstrip_by_def rev.simps dropWhile.simps)
qed

lemma checked_ip_text:
  assumes "check_ip show l n (FStr s) = Inr None"
  shows "text_ok (Some s)"
proof -
  have "ip_address [] = None" by code_simp
  then have "strip s \<noteq> []" using assms by (auto simp: check_ip_def split: if_splits)
  then show ?thesis using sql_trim_nil by (auto simp: text_ok_def)
qed

lemma timestamp_stripped:
  assumes "timestamp_text v = Inr ts"
  shows "strip ts = ts"
proof -
  obtain t where ts: "ts = strftime_seconds t @ ''.'' @ pad 3 (dt_micro t div 1000)"
    using assms by (auto simp: timestamp_text_def res_simps split: option.splits)
  have hd: "hd ts = hd (int_str (dt_year t))" and "ts \<noteq> []"
    using int_str_nonempty [of "dt_year t"] by (simp_all add: ts strftime_seconds_def)
  moreover have "pad 3 (dt_micro t div 1000) \<noteq> []" using int_str_nonempty by (simp add: pad_def)
  then have "last ts \<in> set (pad 3 (dt_micro t div 1000))" by (simp add: ts)
  then have "is_digit (last ts) \<or> last ts = CHR ''-''" by (rule pad_chars)
  moreover have "is_digit (hd ts) \<or> hd ts = CHR ''-''"
    unfolding hd using int_str_chars hd_in_set int_str_nonempty by blast
  ultimately show ?thesis
    by (intro strip_id) (auto simp: is_space_def [of "CHR ''-''"] dest: is_digit_plain)
qed

text \<open>
  The conditions of the cleaning are weaker than the contract of the capture: an address that is none, a MAC that is
  none and a negative inter-arrival time are valid there.
\<close>

definition stream_columns :: "string \<Rightarrow> string \<Rightarrow> string \<Rightarrow> string option list" where
  "stream_columns src mac iat =
     [Some ''2026-07-01 12:00:00.000'', Some src, Some ''10.0.0.2'', None, None, Some ''TCP'', Some ''60'', Some mac, None,
      None, Some iat]"

lemma cleaning_weaker:
  assumes "reads_ints read_int" and "reads_times to_ts" and "sql_trim src \<noteq> []"
  shows "row_fits False to_ts (spark_row read_int read_double (stream_columns src mac iat))"
proof -
  have "timestamp_shape ''2026-07-01 12:00:00.000''" "strptime_seconds ''2026-07-01 12:00:00'' \<noteq> None"
    "split_on (CHR ''.'') ''2026-07-01 12:00:00.000'' = [''2026-07-01 12:00:00'', ''000'']"
    by code_simp+
  then have "to_ts (Some ''yyyy-MM-dd HH:mm:ss.SSS'') ''2026-07-01 12:00:00.000'' \<noteq> None"
    using assms(2) unfolding reads_times_def by blast
  moreover have sixty: "int_str 60 = ''60''" by code_simp
  moreover have "read_int ''60'' = Some 60"
    using spec [OF assms(1) [unfolded reads_ints_def], of 60] by (simp add: sixty)
  moreover have "upper (sql_trim ''TCP'') = ''TCP''" "sql_trim ''10.0.0.2'' \<noteq> []" by code_simp+
  ultimately show ?thesis using assms(3)
    by (auto simp: row_fits_def parsed_time_def coalesce_def clean_protocol_def spark_row_def stream_columns_def text_ok_def
        port_ok_def split: list.splits)
qed

lemma cleaning_not_contract:
  "validate_values show (map of_field (stream_columns ''foo'' ''00:11:22:33:44:55'' ''1'')) = Inr (False, ''Invalid source IP address: foo'')"
  "validate_values show (map of_field (stream_columns ''::1'' ''zz'' ''1''))
     = Inr (False, ''Invalid source MAC format (expected aa:bb:cc:dd:ee:ff): zz'')"
  "validate_values show (map of_field (stream_columns ''::1'' ''00:11:22:33:44:55'' ''-1''))
     = Inr (False, ''Inter-arrival time must be non-negative: -1'')"
  by code_simp+

text \<open>C1: what the capture accepts, the stream keeps.  The CSV line of every record that the parser accepts
  becomes a valid row of the cleaning, with the record's protocol, ports and length.\<close>

theorem captured_rows_kept:
  assumes "capture_line exc show raw = Inr (Inr r)" and "\<forall>x \<in> set_option (cr_iat_ms r). good_show show x"
    and "reads_ints read_int" and "reads_times to_ts"
  shows "let x = clean_row to_ts (spark_row read_int read_double (parse_line (to_csv_row show r)))
    in split_valid [x] = ([x], []) \<and> rw_protocol x = Some (cr_protocol r) \<and> rw_src_port x = cr_src_port r
       \<and> rw_dst_port x = cr_dst_port r \<and> rw_length x = Some (cr_packet_length r)"
proof -
  note a = capture_accepted [OF assms(1)] and fs = captured_texts(1) [OF assms(1,2)]
  note t = parse_columns_typed [OF a(2)]
  have ok: "\<forall>k \<in> set (row_checks show (record_values r)). k = Inr None"
    using a(3) by (simp add: validate_values_def first_failure_ok split: if_splits)
  then have time: "check_timestamp show (FStr (cr_timestamp r)) = Inr None"
    and src: "check_ip show ''Source IP'' ''source IP'' (FStr (cr_src_ip r)) = Inr None"
    and dst: "check_ip show ''Destination IP'' ''destination IP'' (FStr (cr_dst_ip r)) = Inr None"
    by (simp_all add: row_checks_def record_values_def)
  let ?raw = "spark_row read_int read_double (parse_line (to_csv_row show r))"
  have port: "Option.bind (if opt_value FInt p = FNone then None else Some (fstr show (opt_value FInt p))) read_int = p"
    if "\<forall>k \<in> set_option p. 0 \<le> k \<and> k \<le> 65535" for p
    using that assms(3) by (cases p) (auto simp: opt_value_def reads_ints_def)
  have cols: "rw_timestamp ?raw = Some (cr_timestamp r)" "rw_src_ip ?raw = Some (cr_src_ip r)"
    "rw_dst_ip ?raw = Some (cr_dst_ip r)" "rw_protocol ?raw = Some (cr_protocol r)"
    "rw_src_port ?raw = cr_src_port r" "rw_dst_port ?raw = cr_dst_port r" "rw_length ?raw = Some (cr_packet_length r)"
    using port [of "cr_src_port r"] port [of "cr_dst_port r"] t(2-4) assms(3) unfolding spark_row_def fs
    by (simp_all add: record_values_def reads_ints_def)
  have proto: "upper (sql_trim p) = p" if "p \<in> {''TCP'', ''UDP'', ''ICMP'', ''OTHER''}" for p
  proof -
    have "\<forall>p \<in> set [''TCP'', ''UDP'', ''ICMP'', ''OTHER'']. upper (sql_trim p) = p" by code_simp
    with that show ?thesis by auto
  qed
  have "to_ts (Some ''yyyy-MM-dd HH:mm:ss.SSS'') (cr_timestamp r) \<noteq> None"
    using time assms(4) timestamp_stripped [OF t(7)] unfolding reads_times_def check_timestamp_def
    by (auto simp: Let_def split: if_splits list.splits)
  then have "parsed_time to_ts ?raw \<noteq> None" by (auto simp: parsed_time_def coalesce_def cols split: list.splits)
  moreover have "clean_protocol ?raw = Some (cr_protocol r)" using proto [OF t(1)] by (simp add: clean_protocol_def cols)
  ultimately have "row_fits False to_ts ?raw"
    using checked_ip_text [OF src] checked_ip_text [OF dst] t(1-4) by (auto simp: row_fits_def cols port_ok_def split: option.splits)
  then have "cl_is_valid (clean_row to_ts ?raw) = Some True" by (simp add: clean_row_valid valid_fits)
  then show ?thesis
    using \<open>clean_protocol ?raw = Some (cr_protocol r)\<close>
    by (simp add: split_valid_def not3_def clean_row_def Let_def raw_packet.defs cols)
qed

theorem captured_rows_kept_witness:
  "rw_protocol (clean_row (\<lambda>_ _. Some 0) (spark_row py_int (\<lambda>_. None) (parse_line (to_csv_row (\<lambda>x. int_str \<lfloor>x\<rfloor>) example_record))))
     = Some ''TCP''"
proof -
  have "reads_ints py_int" "reads_times (\<lambda>_ _. Some 0)" by (simp_all add: reads_ints_def reads_times_def py_int_str)
  from captured_rows_kept [OF example_capture _ this, of "\<lambda>_. None"] show ?thesis
    by (simp add: Let_def example_record_def)
qed

end
